(* ===== verification/Kernel_Prelude.thy ===== *)
theory Kernel_Prelude
  imports Main "HOL-Library.Word"
begin

text \<open>
  Shared vocabulary of the development: the machine integer types of the kernel sources,
  the memory-copy primitives (\<open>copy_from_slice\<close>, \<open>copy_nonoverlapping\<close>), cyclic reads
  and writes on arrays, the reachability closure of a step relation, and the lemmas on
  them that the components share.
\<close>

unbundle bit_operations_syntax

section \<open>Machine integers\<close>

type_synonym u8 = "8 word"
type_synonym u16 = "16 word"
type_synonym u32 = "32 word"
type_synonym u64 = "64 word"

text \<open>The page size of \<open>memory/mod.rs\<close>.\<close>

definition PAGE_SIZE :: nat where
  "PAGE_SIZE = 4096"

section \<open>Array copies\<close>

text \<open>\<open>dst[i .. i + src.len()].copy_from_slice(src)\<close>; every caller shows the range in bounds.\<close>

definition copy_at :: "nat \<Rightarrow> 'a list \<Rightarrow> 'a list \<Rightarrow> 'a list" where
  "copy_at i src dst = take i dst @ src @ drop (i + length src) dst"

text \<open>\<open>&xs[i .. i + n]\<close>.\<close>

definition subslice :: "nat \<Rightarrow> nat \<Rightarrow> 'a list \<Rightarrow> 'a list" where
  "subslice i n xs = take n (drop i xs)"

text \<open>The \<open>n\<close> elements of a circular array that start at index \<open>i\<close>.\<close>

definition circ :: "nat \<Rightarrow> nat \<Rightarrow> 'a list \<Rightarrow> 'a list" where
  "circ i n xs = map (\<lambda>k. xs ! ((i + k) mod length xs)) [0..<n]"

text \<open>\<open>from_le_bytes\<close>, and \<open>from_be_bytes\<close> as its mirror image.\<close>

fun from_le_bytes :: "u8 list \<Rightarrow> 'a::len word" where
  "from_le_bytes [] = 0"
| "from_le_bytes (b # bs) = ucast b OR push_bit 8 (from_le_bytes bs)"

definition from_be_bytes :: "u8 list \<Rightarrow> 'a::len word" where
  "from_be_bytes bs = from_le_bytes (rev bs)"

section \<open>Reachable states of a step relation\<close>

inductive reach :: "('s \<Rightarrow> bool) \<Rightarrow> ('s \<Rightarrow> 's \<Rightarrow> bool) \<Rightarrow> 's \<Rightarrow> bool"
  for init :: "'s \<Rightarrow> bool" and step :: "'s \<Rightarrow> 's \<Rightarrow> bool" where
  reach_init: "init s \<Longrightarrow> reach init step s"
| reach_step: "reach init step s \<Longrightarrow> step s t \<Longrightarrow> reach init step t"

lemma reach_steps:
  assumes "reach init step s" "step\<^sup>*\<^sup>* s t"
  shows "reach init step t"
  using assms(2,1) by (induction rule: rtranclp_induct) (auto intro: reach_step)

text \<open>
  The contract of an inductive invariant: it holds initially and every step keeps it.
  Each protocol of the kernel interprets this locale with its own step relation.
\<close>

locale invariant_system =
  fixes init :: "'s \<Rightarrow> bool" and step :: "'s \<Rightarrow> 's \<Rightarrow> bool" and inv :: "'s \<Rightarrow> bool"
  assumes init_inv: "init s \<Longrightarrow> inv s"
    and step_inv: "inv s \<Longrightarrow> step s t \<Longrightarrow> inv t"
begin

lemma reach_inv: "reach init step s \<Longrightarrow> inv s"
  by (induction rule: reach.induct) (auto intro: init_inv step_inv)

lemma steps_inv: "step\<^sup>*\<^sup>* s t \<Longrightarrow> inv s \<Longrightarrow> inv t"
  by (induction rule: rtranclp_induct) (auto intro: step_inv)

end

section \<open>Lemmas on array copies\<close>

named_theorems array_simps "lengths and elements of array copies"

lemma length_copy_at [array_simps]:
  "i + length src \<le> length dst \<Longrightarrow> length (copy_at i src dst) = length dst"
  by (simp add: copy_at_def)

lemma copy_at_Nil [simp]: "copy_at i [] dst = dst"
  by (simp add: copy_at_def)

lemma nth_copy_at [array_simps]:
  "i + length src \<le> length dst \<Longrightarrow> j < length dst \<Longrightarrow>
   copy_at i src dst ! j = (if i \<le> j \<and> j < i + length src then src ! (j - i) else dst ! j)"
  by (auto simp: copy_at_def nth_append)

lemma length_subslice [array_simps]: "i + n \<le> length xs \<Longrightarrow> length (subslice i n xs) = n"
  by (simp add: subslice_def)

lemma nth_subslice [array_simps]: "i + n \<le> length xs \<Longrightarrow> k < n \<Longrightarrow> subslice i n xs ! k = xs ! (i + k)"
  by (simp add: subslice_def)

lemma subslice_0 [simp]: "subslice i 0 xs = []"
  by (simp add: subslice_def)

section \<open>Lemmas on cyclic arrays\<close>

lemma length_circ [simp]: "length (circ i n xs) = n"
  by (simp add: circ_def)

lemma circ_0 [simp]: "circ i 0 xs = []"
  by (simp add: circ_def)

lemma nth_circ [array_simps]: "k < n \<Longrightarrow> circ i n xs ! k = xs ! ((i + k) mod length xs)"
  by (simp add: circ_def)

lemma circ_mod [simp]: "circ (i mod length xs) n xs = circ i n xs"
  by (simp add: circ_def mod_add_left_eq)

text \<open>Index arithmetic of a position that wraps at most once.\<close>

lemma wrap_once: "(a::nat) < n \<Longrightarrow> k \<le> n \<Longrightarrow> (a + k) mod n = (if a + k < n then a + k else a + k - n)"
  by (auto simp: mod_if)

text \<open>A cyclic read is the two contiguous chunks the code copies.\<close>

lemma circ_two_chunks:
  assumes "i < length xs" "n \<le> length xs" "f = min n (length xs - i)"
  shows "circ i n xs = subslice i f xs @ subslice 0 (n - f) xs"
proof (rule nth_equalityI)
  show "length (circ i n xs) = length (subslice i f xs @ subslice 0 (n - f) xs)"
    using assms by (simp add: subslice_def)
  fix k assume "k < length (circ i n xs)"
  then show "circ i n xs ! k = (subslice i f xs @ subslice 0 (n - f) xs) ! k"
    using assms by (auto simp: circ_def nth_append subslice_def wrap_once add.commute)
qed

text \<open>Advancing the read position drops a prefix of the cyclic contents.\<close>

lemma circ_drop: "m \<le> n \<Longrightarrow> circ (i + m) (n - m) xs = drop m (circ i n xs)"
  by (rule nth_equalityI) (auto simp: circ_def add.assoc)

lemma circ_take: "m \<le> n \<Longrightarrow> take m (circ i n xs) = circ i m xs"
  by (rule nth_equalityI) (auto simp: circ_def)

text \<open>
  The two-chunk cyclic write: elements up to the end of the array, then the rest at its start.
\<close>

definition circ_write :: "nat \<Rightarrow> 'a list \<Rightarrow> 'a list \<Rightarrow> 'a list" where
  "circ_write w src xs =
     (let f = min (length src) (length xs - w)
      in copy_at 0 (drop f src) (copy_at w (take f src) xs))"

lemma length_circ_write [simp]:
  "w < length xs \<Longrightarrow> length src \<le> length xs \<Longrightarrow> length (circ_write w src xs) = length xs"
  by (simp add: circ_write_def Let_def copy_at_def)

lemma nth_circ_write:
  assumes "w < length xs" "length src \<le> length xs" "k < length xs"
  shows "circ_write w src xs ! ((w + k) mod length xs) =
         (if k < length src then src ! k else xs ! ((w + k) mod length xs))"
proof -
  define f where "f = min (length src) (length xs - w)"
  define d where "d = copy_at w (take f src) xs"
  have f: "f \<le> length src" "w + f \<le> length xs" "f = length src \<or> w + f = length xs"
    using assms by (auto simp: f_def)
  have ld: "length d = length xs" using f by (simp add: d_def copy_at_def)
  have cw: "circ_write w src xs = copy_at 0 (drop f src) d"
    by (simp add: circ_write_def Let_def f_def d_def)
  have d: "d ! j = (if w \<le> j \<and> j < w + f then take f src ! (j - w) else xs ! j)"
    if "j < length xs" for j
    using f(1,2) that nth_copy_at [of w "take f src" xs j] by (simp add: d_def)
  have c: "copy_at 0 (drop f src) d ! j = (if j < length src - f then src ! (f + j) else d ! j)"
    if "j < length xs" for j
    using that ld assms(2) nth_copy_at [of 0 "drop f src" d j] by simp
  show ?thesis
  proof (cases "w + k < length xs")
    case True
    then have "\<not> w + k < length src - f" using f assms by linarith
    then show ?thesis
      using True f assms by (simp add: cw c d) linarith
  next
    case False
    have e: "(w + k) mod length xs = w + k - length xs"
      using False assms by (simp add: wrap_once)
    have lt: "w + k - length xs < w" "w + k - length xs < length xs" using assms False by auto
    have nw: "\<not> w \<le> w + k - length xs" using lt by linarith
    show ?thesis
    proof (cases "k < length src")
      case True
      then have "f + (w + k - length xs) = k" "w + k - length xs < length src - f"
        using f False by auto
      then show ?thesis using True by (simp only: cw e c [OF lt(2)] if_True)
    next
      case False
      then have "\<not> w + k - length xs < length src - f"
        using f \<open>\<not> w + k < length xs\<close> by linarith
      then show ?thesis using False nw by (simp only: cw e c [OF lt(2)] d [OF lt(2)] if_False simp_thms)
    qed
  qed
qed

text \<open>Writing behind the contents of a cyclic queue appends to them.\<close>

lemma circ_append_write:
  assumes r: "xs \<noteq> []" and fit: "n + length src \<le> length xs"
    and w: "w = (r + n) mod length xs"
  shows "circ r (n + length src) (circ_write w src xs) = circ r n xs @ src"
proof (rule nth_equalityI)
  have lt: "w < length xs" unfolding w using r by (intro mod_less_divisor) auto
  have len: "length (circ_write w src xs) = length xs"
    using lt fit by simp
  fix k assume "k < length (circ r (n + length src) (circ_write w src xs))"
  then have k: "k < n + length src" by simp
  have idx: "(r + k) mod length xs = (w + (k + length xs - n)) mod length xs" if "k < n"
  proof -
    have "(w + (k + length xs - n)) mod length xs = (r + n + (k + length xs - n)) mod length xs"
      by (simp add: w mod_add_left_eq)
    also have "r + n + (k + length xs - n) = r + k + length xs" using fit that by simp
    finally show ?thesis by simp
  qed
  have idx': "(r + k) mod length xs = (w + (k - n)) mod length xs" if "n \<le> k"
  proof -
    have "(w + (k - n)) mod length xs = (r + n + (k - n)) mod length xs"
      unfolding w by (rule mod_add_left_eq)
    with that show ?thesis by simp
  qed
  show "circ r (n + length src) (circ_write w src xs) ! k = (circ r n xs @ src) ! k"
  proof (cases "k < n")
    case True
    then have "circ_write w src xs ! ((w + (k + length xs - n)) mod length xs) =
               xs ! ((w + (k + length xs - n)) mod length xs)"
      using fit lt by (subst nth_circ_write) auto
    then show ?thesis
      using True k len idx by (simp add: circ_def nth_append)
  next
    case False
    then have "circ_write w src xs ! ((w + (k - n)) mod length xs) = src ! (k - n)"
      using fit lt k by (subst nth_circ_write) auto
    then show ?thesis
      using False k len idx' by (simp add: circ_def nth_append)
  qed
qed simp

text \<open>
  The copies as the two queues of the kernel write them: the second one is skipped when the
  data does not wrap.
\<close>

lemma circ_write_chunks:
  assumes n: "n \<le> length src" and f: "f = min n (length xs - w)"
  shows "(if 0 < n - f then copy_at 0 (take (n - f) (drop f src)) (copy_at w (take f src) xs)
          else copy_at w (take f src) xs) = circ_write w (take n src) xs"
proof -
  have "drop f (take n src) = take (n - f) (drop f src)" by (rule drop_take)
  moreover have "take f (take n src) = take f src" using f by (simp add: min_def)
  moreover have "f = min (length (take n src)) (length xs - w)" using n f by (simp add: min_def)
  ultimately show ?thesis unfolding circ_write_def Let_def by auto
qed

lemma circ_read_chunks:
  assumes "i < length xs" "n \<le> length xs" "n \<le> length dst"
    and f: "f = min n (length xs - i)" and d: "d = copy_at 0 (subslice i f xs) dst"
  shows "(if 0 < n - f then copy_at f (subslice 0 (n - f) xs) d else d) = circ i n xs @ drop n dst"
proof -
  have l1: "length (subslice i f xs) = f" and l2: "length (subslice 0 (n - f) xs) = n - f"
    using assms by (auto intro!: length_subslice)
  have "circ i n xs = subslice i f xs @ subslice 0 (n - f) xs"
    using assms by (intro circ_two_chunks)
  with assms l1 l2 show ?thesis by (auto simp: copy_at_def)
qed

text \<open>Two lists of equal length agree when they agree along a cyclic enumeration.\<close>

lemma circ_list_eqI:
  assumes "length xs = n" "length ys = n" "w < n"
    and "\<And>k. k < n \<Longrightarrow> xs ! ((w + k) mod n) = ys ! ((w + k) mod n)"
  shows "xs = ys"
proof (rule nth_equalityI)
  fix j assume j: "j < length xs"
  define k where "k = (if w \<le> j then j - w else j + n - w)"
  have "k < n" "(w + k) mod n = j"
    using assms(1,3) j by (auto simp: k_def)
  with assms(4) [of k] show "xs ! j = ys ! j" by simp
qed (simp add: assms)

lemma circ_write_Cons:
  assumes w: "w < length xs" and len: "length (x # src) \<le> length xs"
  shows "circ_write w (x # src) xs = circ_write (Suc w mod length xs) src (xs[w := x])"
proof (rule circ_list_eqI)
  let ?n = "length xs"
  have w1: "Suc w mod ?n < ?n" using w by (intro mod_less_divisor) auto
  show "length (circ_write w (x # src) xs) = ?n" using w len by simp
  show "length (circ_write (Suc w mod ?n) src (xs[w := x])) = ?n" using w1 len by simp
  show "w < ?n" by (rule w)
  fix k assume k: "k < ?n"
  show "circ_write w (x # src) xs ! ((w + k) mod ?n) =
        circ_write (Suc w mod ?n) src (xs[w := x]) ! ((w + k) mod ?n)"
  proof (cases k)
    case 0
    have "(Suc w mod ?n + (?n - 1)) mod ?n = (Suc w + (?n - 1)) mod ?n" by (rule mod_add_left_eq)
    also have "Suc w + (?n - 1) = w + ?n" using w by simp
    finally have e: "(Suc w mod ?n + (?n - 1)) mod ?n = w" using w by simp
    have "circ_write (Suc w mod ?n) src (xs[w := x]) ! ((Suc w mod ?n + (?n - 1)) mod ?n) = x"
      using w len w1 e nth_circ_write [of "Suc w mod ?n" "xs[w := x]" src "?n - 1"] by auto
    then have "circ_write (Suc w mod ?n) src (xs[w := x]) ! w = x" unfolding e .
    moreover have "circ_write w (x # src) xs ! ((w + 0) mod ?n) = x"
      using w len by (subst nth_circ_write) auto
    ultimately show ?thesis using 0 w by simp
  next
    case (Suc j)
    have e: "(w + k) mod ?n = (Suc w mod ?n + j) mod length (xs[w := x])"
      using Suc by (simp add: mod_simps)
    have "circ_write (Suc w mod ?n) src (xs[w := x]) ! ((w + k) mod ?n) =
          (if j < length src then src ! j else xs[w := x] ! ((w + k) mod ?n))"
      unfolding e using w1 len k Suc by (subst nth_circ_write) auto
    moreover have "circ_write w (x # src) xs ! ((w + k) mod ?n) =
          (if j < length src then src ! j else xs ! ((w + k) mod ?n))"
      using w len k Suc by (subst nth_circ_write) auto
    moreover have "(w + k) mod ?n \<noteq> w" using w k Suc wrap_once [of w ?n k] by (auto split: if_splits)
    ultimately show ?thesis by simp
  qed
qed

lemma circ_write_Nil [simp]: "circ_write w [] xs = xs"
  by (simp add: circ_write_def)

section \<open>Lemmas on words\<close>

text \<open>Masking with a power of two minus one is the remainder, as the index computations use it.\<close>

lemma unat_and_mask:
  "unat (w AND (2 ^ k - 1) :: 'a::len word) = unat w mod 2 ^ k"
  by (metis mask_eq_exp_minus_1 take_bit_eq_mask take_bit_eq_mod unsigned_take_bit_eq)

lemma unat_add_small:
  "unat a + unat b < 2 ^ LENGTH('a) \<Longrightarrow> unat (a + b :: 'a::len word) = unat a + unat b"
  by (simp add: unat_word_ariths)

lemma unat_of_nat_small: "n < 2 ^ LENGTH('a) \<Longrightarrow> unat (of_nat n :: 'a::len word) = n"
  by (simp add: unat_of_nat)

text \<open>Positions modulo a divisor of the word's range survive wrap-around.\<close>

lemma unat_add_mod_dvd:
  assumes "n dvd 2 ^ LENGTH('a)"
  shows "unat (a + b :: 'a::len word) mod n = (unat a + unat b) mod n"
  using assms by (simp add: unat_word_ariths mod_mod_cancel)

text \<open>The bits of an integer read from bytes.\<close>

lemma from_le_bytes_bit:
  "bit (from_le_bytes bs :: 'a::len word) n \<longleftrightarrow>
     n < LENGTH('a) \<and> n div 8 < length bs \<and> bit (bs ! (n div 8)) (n mod 8)"
proof (induction bs arbitrary: n)
  case (Cons b bs)
  show ?case
  proof (cases "n < 8")
    case True
    then show ?thesis by (auto simp: bit_simps)
  next
    case False
    then have "n div 8 = Suc ((n - 8) div 8)" "(n - 8) mod 8 = n mod 8"
      by (simp_all add: le_div_geq le_mod_geq)
    moreover have "\<not> bit b n" using False bit_imp_le_length [of b n] by auto
    ultimately show ?thesis using False by (auto simp: bit_simps Cons.IH)
  qed
qed simp

end
