(* ===== verification/Ring_Buffer.thy ===== *)
theory Ring_Buffer
  imports Kernel_Prelude
begin

text \<open>
  The lock-free single-producer single-consumer ring buffer of \<open>util/ring_buffer.rs\<close>:
  its state, every operation, and the proof that the buffer is a bounded FIFO queue. The
  positions \<open>head\<close> and \<open>tail\<close> are \<open>usize\<close> counters that only grow and wrap at
  $2^{64}$; the arithmetic here is that of a build without overflow checks. The slots hold
  arbitrary values at the start (\<open>MaybeUninit::uninit\<close>), which the model takes as an
  argument of \<open>ring_new\<close>.

  The interface \<open>bounded_fifo\<close> states what a bulk byte queue promises; this theory
  interprets it on the ring buffer and the pipe theory interprets it on the pipe's buffer.
\<close>

section \<open>State and operations\<close>

record 'a ring_buffer =
  rb_buffer :: "'a list"
  rb_head :: u64
  rb_tail :: u64

text \<open>\<open>N.is_power_of_two()\<close> for a \<open>usize\<close>.\<close>

definition is_power_of_two :: "nat \<Rightarrow> bool" where
  "is_power_of_two n \<longleftrightarrow> (\<exists>k<64. n = 2 ^ k)"

text \<open>\<open>RingBuffer::new\<close>: None is the panic of the assertion.\<close>

definition ring_new :: "'a list \<Rightarrow> 'a ring_buffer option" where
  "ring_new uninit =
     (if is_power_of_two (length uninit)
      then Some \<lparr>rb_buffer = uninit, rb_head = 0, rb_tail = 0\<rparr> else None)"

text \<open>\<open>pos & (N - 1)\<close>.\<close>

definition ring_index :: "'a ring_buffer \<Rightarrow> u64 \<Rightarrow> nat" where
  "ring_index r pos = unat (pos AND (of_nat (length (rb_buffer r)) - 1))"

text \<open>\<open>RingBuffer::push\<close>: \<open>Inl item\<close> is \<open>Err(item)\<close>.\<close>

definition ring_push :: "'a \<Rightarrow> 'a ring_buffer \<Rightarrow> ('a + unit) \<times> 'a ring_buffer" where
  "ring_push item r =
     (let head = rb_head r; tail = rb_tail r
      in if head - tail \<ge> of_nat (length (rb_buffer r)) then (Inl item, r)
         else let index = ring_index r head
              in (Inr (), r\<lparr>rb_buffer := (rb_buffer r)[index := item], rb_head := head + 1\<rparr>))"

text \<open>\<open>RingBuffer::pop\<close>.\<close>

definition ring_pop :: "'a ring_buffer \<Rightarrow> 'a option \<times> 'a ring_buffer" where
  "ring_pop r =
     (let tail = rb_tail r; head = rb_head r
      in if tail \<ge> head then (None, r)
         else let index = ring_index r tail; item = rb_buffer r ! index
              in (Some item, r\<lparr>rb_tail := tail + 1\<rparr>))"

definition ring_is_empty :: "'a ring_buffer \<Rightarrow> bool" where
  "ring_is_empty r \<longleftrightarrow> rb_tail r \<ge> rb_head r"

definition ring_len :: "'a ring_buffer \<Rightarrow> nat" where
  "ring_len r = unat (rb_head r - rb_tail r)"

text \<open>\<open>RingBuffer::push_slice\<close>: at most two contiguous copies.\<close>

definition ring_push_slice :: "'a list \<Rightarrow> 'a ring_buffer \<Rightarrow> nat \<times> 'a ring_buffer" where
  "ring_push_slice src r =
     (let head = rb_head r; tail = rb_tail r; N = length (rb_buffer r);
          occupied = unat (head - tail); available = N - occupied
      in if available = 0 \<or> src = [] then (0, r)
         else let to_write = min (length src) available;
                  write_index = ring_index r head;
                  first_chunk = min to_write (N - write_index);
                  second_chunk = to_write - first_chunk;
                  buf1 = copy_at write_index (take first_chunk src) (rb_buffer r);
                  buf2 = (if second_chunk > 0
                          then copy_at 0 (take second_chunk (drop first_chunk src)) buf1 else buf1)
              in (to_write, r\<lparr>rb_buffer := buf2, rb_head := head + of_nat to_write\<rparr>))"

text \<open>\<open>RingBuffer::pop_slice\<close>: the count, the target slice after the copies, the buffer.\<close>

definition ring_pop_slice :: "'a list \<Rightarrow> 'a ring_buffer \<Rightarrow> nat \<times> 'a list \<times> 'a ring_buffer" where
  "ring_pop_slice dst r =
     (let tail = rb_tail r; head = rb_head r; N = length (rb_buffer r);
          available = unat (head - tail)
      in if available = 0 \<or> dst = [] then (0, dst, r)
         else let to_read = min (length dst) available;
                  read_index = ring_index r tail;
                  first_chunk = min to_read (N - read_index);
                  second_chunk = to_read - first_chunk;
                  dst1 = copy_at 0 (subslice read_index first_chunk (rb_buffer r)) dst;
                  dst2 = (if second_chunk > 0
                          then copy_at first_chunk (subslice 0 second_chunk (rb_buffer r)) dst1
                          else dst1)
              in (to_read, dst2, r\<lparr>rb_tail := tail + of_nat to_read\<rparr>))"

text \<open>
  The element-by-element loop that \<open>push_slice\<close> replaces: push until an item is refused.
\<close>

fun ring_push_each :: "'a list \<Rightarrow> 'a ring_buffer \<Rightarrow> nat \<times> 'a ring_buffer" where
  "ring_push_each [] r = (0, r)"
| "ring_push_each (x # xs) r =
     (case ring_push x r of
        (Inl _, _) \<Rightarrow> (0, r)
      | (Inr _, r1) \<Rightarrow> (case ring_push_each xs r1 of (n, r2) \<Rightarrow> (Suc n, r2)))"

section \<open>Abstraction and invariant\<close>

text \<open>The queued items, oldest first.\<close>

definition ring_contents :: "'a ring_buffer \<Rightarrow> 'a list" where
  "ring_contents r = circ (unat (rb_tail r)) (ring_len r) (rb_buffer r)"

definition ring_inv :: "'a ring_buffer \<Rightarrow> bool" where
  "ring_inv r \<longleftrightarrow> is_power_of_two (length (rb_buffer r)) \<and> ring_len r \<le> length (rb_buffer r)"

section \<open>The interface of a bulk FIFO queue\<close>

datatype 'a fifo_op = PushSlice "'a list" | PopSlice "'a list"

text \<open>
  A sequence of bulk operations: the elements accepted by the pushes, the elements handed
  out by the pops, and the final state.
\<close>

fun fifo_run ::
  "('a list \<Rightarrow> 's \<Rightarrow> nat \<times> 's) \<Rightarrow> ('a list \<Rightarrow> 's \<Rightarrow> nat \<times> 'a list \<times> 's) \<Rightarrow>
   'a fifo_op list \<Rightarrow> 's \<Rightarrow> 'a list \<times> 'a list \<times> 's" where
  "fifo_run push pop [] s = ([], [], s)"
| "fifo_run push pop (PushSlice src # ops) s =
     (case push src s of (n, s1) \<Rightarrow>
      case fifo_run push pop ops s1 of (ins, outs, s2) \<Rightarrow> (take n src @ ins, outs, s2))"
| "fifo_run push pop (PopSlice dst # ops) s =
     (case pop dst s of (n, dst1, s1) \<Rightarrow>
      case fifo_run push pop ops s1 of (ins, outs, s2) \<Rightarrow> (ins, take n dst1 @ outs, s2))"

locale bounded_fifo =
  fixes fifo_inv :: "'s \<Rightarrow> bool" and contents :: "'s \<Rightarrow> 'a list" and cap :: "'s \<Rightarrow> nat"
    and push_slice :: "'a list \<Rightarrow> 's \<Rightarrow> nat \<times> 's"
    and pop_slice :: "'a list \<Rightarrow> 's \<Rightarrow> nat \<times> 'a list \<times> 's"
  assumes contents_le_cap: "fifo_inv s \<Longrightarrow> length (contents s) \<le> cap s"
    and push_law: "fifo_inv s \<Longrightarrow> push_slice src s = (n, s') \<Longrightarrow>
      n = min (length src) (cap s - length (contents s)) \<and>
      contents s' = contents s @ take n src \<and> cap s' = cap s \<and> fifo_inv s'"
    and pop_law: "fifo_inv s \<Longrightarrow> pop_slice dst s = (n, dst', s') \<Longrightarrow>
      n = min (length dst) (length (contents s)) \<and>
      dst' = take n (contents s) @ drop n dst \<and>
      contents s' = drop n (contents s) \<and> cap s' = cap s \<and> fifo_inv s'"
begin

lemma fifo_run_stream:
  "fifo_inv s \<Longrightarrow> fifo_run push_slice pop_slice ops s = (ins, outs, s') \<Longrightarrow>
   contents s @ ins = outs @ contents s' \<and> cap s' = cap s \<and> fifo_inv s'"
proof (induction ops arbitrary: s ins outs)
  case Nil
  then show ?case by simp
next
  case (Cons op ops)
  show ?case
  proof (cases op)
    case (PushSlice src)
    obtain n s1 where p: "push_slice src s = (n, s1)" by fastforce
    obtain i1 where r: "fifo_run push_slice pop_slice ops s1 = (i1, outs, s')"
      and "ins = take n src @ i1"
      using Cons.prems(2) PushSlice p by (auto split: prod.splits)
    with push_law [OF Cons.prems(1) p] Cons.IH [OF _ r] show ?thesis by auto
  next
    case (PopSlice dst)
    obtain n d1 s1 where p: "pop_slice dst s = (n, d1, s1)" by (metis prod_cases3)
    obtain o1 where r: "fifo_run push_slice pop_slice ops s1 = (ins, o1, s')"
      and o: "outs = take n d1 @ o1"
      using Cons.prems(2) PopSlice p by (auto split: prod.splits)
    note law = pop_law [OF Cons.prems(1) p]
    then have "take n d1 = take n (contents s)" by simp
    moreover have "drop n (contents s) @ ins = o1 @ contents s' \<and> cap s' = cap s1 \<and> fifo_inv s'"
      using Cons.IH [OF _ r] law by auto
    ultimately show ?thesis
      using o law by (metis append.assoc append_take_drop_id)
  qed
qed

end

section \<open>The ring buffer implements it\<close>

lemma is_power_of_two_dvd:
  assumes "is_power_of_two n"
  shows "n dvd 2 ^ LENGTH(64)"
proof -
  obtain k where "k \<le> 64" "n = 2 ^ k" using assms by (auto simp: is_power_of_two_def)
  moreover from this have "(2::nat) ^ k dvd 2 ^ 64" by (intro le_imp_power_dvd)
  ultimately show ?thesis by simp
qed

lemma is_power_of_two_bounds:
  assumes "is_power_of_two n"
  shows "0 < n" "n < 2 ^ 64"
proof -
  obtain k where "k < 64" "n = 2 ^ k" using assms by (auto simp: is_power_of_two_def)
  moreover from this have "(2::nat) ^ k < 2 ^ 64" by (intro power_strict_increasing) auto
  ultimately show "0 < n" "n < 2 ^ 64" by simp_all
qed

lemma ring_index_eq:
  assumes "is_power_of_two (length (rb_buffer r))"
  shows "ring_index r pos = unat pos mod length (rb_buffer r)"
proof -
  obtain k where k: "length (rb_buffer r) = 2 ^ k"
    using assms by (auto simp: is_power_of_two_def)
  then have "(of_nat (length (rb_buffer r)) :: u64) = 2 ^ k" by simp
  then show ?thesis by (simp add: ring_index_def k unat_and_mask)
qed

text \<open>The write position is the read position plus the length, also after a wrap.\<close>

lemma head_index:
  assumes "is_power_of_two n"
  shows "unat (rb_head r) mod n = (unat (rb_tail r) + ring_len r) mod n"
proof -
  have "rb_head r = rb_tail r + (rb_head r - rb_tail r)" by simp
  then have "unat (rb_head r) mod n = unat (rb_tail r + (rb_head r - rb_tail r)) mod n" by simp
  also have "\<dots> = (unat (rb_tail r) + ring_len r) mod n"
    unfolding ring_len_def by (rule unat_add_mod_dvd) (rule is_power_of_two_dvd [OF assms])
  finally show ?thesis .
qed

lemma ring_len_push:
  assumes "ring_inv r" "ring_len r + m \<le> length (rb_buffer r)"
  shows "unat (rb_head r + of_nat m - rb_tail r) = ring_len r + m"
proof -
  have lt: "ring_len r + m < 2 ^ LENGTH(64)"
    using assms is_power_of_two_bounds [of "length (rb_buffer r)"] by (simp add: ring_inv_def)
  have m: "unat (of_nat m :: u64) = m" using lt by (intro unat_of_nat_small) simp
  have "rb_head r + of_nat m - rb_tail r = (rb_head r - rb_tail r) + of_nat m" by simp
  also have "unat \<dots> = ring_len r + unat (of_nat m :: u64)"
    using lt m unfolding ring_len_def by (intro unat_add_small) simp
  finally show ?thesis using m by simp
qed

lemma ring_len_pop:
  assumes "m \<le> ring_len r"
  shows "unat (rb_head r - (rb_tail r + of_nat m)) = ring_len r - m"
proof -
  have "ring_len r < 2 ^ LENGTH(64)" unfolding ring_len_def by (rule unsigned_less)
  then have m: "unat (of_nat m :: u64) = m" using assms by (intro unat_of_nat_small) simp
  then have le: "of_nat m \<le> rb_head r - rb_tail r"
    using assms by (simp add: ring_len_def word_le_nat_alt)
  have "rb_head r - (rb_tail r + of_nat m) = (rb_head r - rb_tail r) - of_nat m" by simp
  also have "unat \<dots> = ring_len r - m"
    using m unat_sub [OF le] by (simp only: ring_len_def)
  finally show ?thesis .
qed

text \<open>The cyclic write of \<open>push_slice\<close> in the prelude's form.\<close>

lemma ring_push_slice_write:
  assumes "ring_inv r" "src \<noteq> []" "ring_len r < length (rb_buffer r)"
    and n: "n = min (length src) (length (rb_buffer r) - ring_len r)"
  shows "ring_push_slice src r =
    (n, r\<lparr>rb_buffer := circ_write ((unat (rb_tail r) + ring_len r) mod length (rb_buffer r))
                          (take n src) (rb_buffer r),
          rb_head := rb_head r + of_nat n\<rparr>)"
proof -
  have p2: "is_power_of_two (length (rb_buffer r))" using assms by (simp add: ring_inv_def)
  have idx: "ring_index r (rb_head r) = (unat (rb_tail r) + ring_len r) mod length (rb_buffer r)"
    using p2 by (simp add: ring_index_eq head_index)
  have occ: "unat (rb_head r - rb_tail r) = ring_len r" by (simp add: ring_len_def)
  have ne: "\<not> (length (rb_buffer r) - ring_len r = 0 \<or> src = [])" using assms by simp
  have "n \<le> length src" using n by simp
  then show ?thesis
    unfolding ring_push_slice_def Let_def idx occ n [symmetric]
    by (simp only: ne if_False circ_write_chunks [OF _ refl])
qed

lemma ring_push_slice_law:
  assumes inv: "ring_inv r" and p: "ring_push_slice src r = (n, r')"
  shows "n = min (length src) (length (rb_buffer r) - length (ring_contents r)) \<and>
    ring_contents r' = ring_contents r @ take n src \<and>
    length (rb_buffer r') = length (rb_buffer r) \<and> ring_inv r'"
proof (cases "src = [] \<or> ring_len r = length (rb_buffer r)")
  case True
  then have "n = 0 \<and> r' = r"
    using p inv by (auto simp: ring_push_slice_def ring_len_def Let_def)
  with True inv show ?thesis by (auto simp: ring_contents_def)
next
  case False
  define N where "N = length (rb_buffer r)"
  define m where "m = min (length src) (N - ring_len r)"
  define w where "w = (unat (rb_tail r) + ring_len r) mod N"
  have p2: "is_power_of_two N" and le: "ring_len r < N"
    using inv False by (auto simp: ring_inv_def N_def)
  note pos = is_power_of_two_bounds(1) [OF p2]
  have eq: "(n, r') = (m, r\<lparr>rb_buffer := circ_write w (take m src) (rb_buffer r),
                              rb_head := rb_head r + of_nat m\<rparr>)"
    using ring_push_slice_write [OF inv _ _ refl, of src] False le p
    by (simp add: m_def w_def N_def)
  have fit: "ring_len r + length (take m src) \<le> N" and lt: "length (take m src) = m"
    using le by (auto simp: m_def)
  have len: "length (rb_buffer r') = N"
    using eq pos fit by (simp add: w_def N_def)
  have rl: "ring_len r' = ring_len r + m"
    using eq ring_len_push [OF inv, of m] fit lt by (simp add: ring_len_def N_def)
  have "ring_contents r' = circ (unat (rb_tail r)) (ring_len r + length (take m src))
          (circ_write w (take m src) (rb_buffer r))"
    using eq rl lt by (simp add: ring_contents_def)
  also have "\<dots> = ring_contents r @ take m src"
    using pos fit unfolding ring_contents_def
    by (intro circ_append_write) (auto simp: w_def N_def)
  finally show ?thesis
    using eq len rl fit lt p2 by (simp add: ring_inv_def ring_contents_def m_def N_def)
qed

lemma ring_pop_slice_law:
  assumes inv: "ring_inv r" and p: "ring_pop_slice dst r = (n, dst', r')"
  shows "n = min (length dst) (length (ring_contents r)) \<and>
    dst' = take n (ring_contents r) @ drop n dst \<and>
    ring_contents r' = drop n (ring_contents r) \<and>
    length (rb_buffer r') = length (rb_buffer r) \<and> ring_inv r'"
proof (cases "dst = [] \<or> ring_len r = 0")
  case True
  then have "n = 0 \<and> dst' = dst \<and> r' = r"
    using p by (auto simp: ring_pop_slice_def ring_len_def Let_def)
  with True inv show ?thesis by (auto simp: ring_contents_def)
next
  case False
  define N where "N = length (rb_buffer r)"
  define m where "m = min (length dst) (ring_len r)"
  define i where "i = unat (rb_tail r) mod N"
  have p2: "is_power_of_two N" and le: "ring_len r \<le> N"
    using inv by (auto simp: ring_inv_def N_def)
  note pos = is_power_of_two_bounds(1) [OF p2]
  have bounds: "i < N" "m \<le> N" "m \<le> length dst" "m \<le> ring_len r"
    using pos le by (auto simp: i_def m_def)
  have occ: "unat (rb_head r - rb_tail r) = ring_len r" by (simp add: ring_len_def)
  have idx: "ring_index r (rb_tail r) = i"
    using p2 by (simp add: ring_index_eq i_def N_def)
  have ne: "\<not> (ring_len r = 0 \<or> dst = [])" using False by simp
  have eq: "(n, dst', r') = (m, circ i m (rb_buffer r) @ drop m dst,
                             r\<lparr>rb_tail := rb_tail r + of_nat m\<rparr>)"
    using p bounds
    unfolding ring_pop_slice_def Let_def idx occ m_def [symmetric] N_def
    by (simp only: ne if_False circ_read_chunks [OF _ _ _ refl refl])
  have ci: "circ i m (rb_buffer r) = take m (ring_contents r)"
    using bounds by (simp add: ring_contents_def circ_take i_def N_def)
  have rl: "ring_len r' = ring_len r - m"
    using eq ring_len_pop [OF bounds(4)] by (simp add: ring_len_def)
  have len: "length (rb_buffer r') = N" using eq by (simp add: N_def)
  have "unat (rb_tail r') mod N = (unat (rb_tail r) + m) mod N"
  proof -
    have "m < 2 ^ LENGTH(64)"
      using bounds(2) is_power_of_two_bounds(2) [OF p2] by simp
    then have "unat (of_nat m :: u64) = m" by (rule unat_of_nat_small)
    then show ?thesis
      using eq unat_add_mod_dvd [OF is_power_of_two_dvd [OF p2], of "rb_tail r" "of_nat m"] by simp
  qed
  then have "ring_contents r' = circ (unat (rb_tail r) + m) (ring_len r - m) (rb_buffer r)"
    using eq rl by (metis N_def Pair_inject circ_mod len ring_buffer.ext_inject
        ring_buffer.surjective ring_buffer.update_convs(3) ring_contents_def)
  also have "\<dots> = drop m (ring_contents r)"
    unfolding ring_contents_def by (rule circ_drop) (rule bounds)
  finally show ?thesis
    using eq ci rl len inv bounds by (auto simp: ring_inv_def m_def N_def ring_contents_def)
qed

interpretation ring_fifo: bounded_fifo ring_inv ring_contents "\<lambda>r. length (rb_buffer r)"
  ring_push_slice ring_pop_slice
proof
  show "length (ring_contents r) \<le> length (rb_buffer r)" if "ring_inv r" for r :: "'a ring_buffer"
    using that by (simp add: ring_contents_def ring_inv_def)
qed (blast dest: ring_push_slice_law ring_pop_slice_law)+

section \<open>Single elements\<close>

lemma ring_full_iff:
  assumes "ring_inv r"
  shows "(of_nat (length (rb_buffer r)) \<le> rb_head r - rb_tail r) = (ring_len r = length (rb_buffer r))"
proof -
  have "unat (of_nat (length (rb_buffer r)) :: u64) = length (rb_buffer r)"
    using assms is_power_of_two_bounds [of "length (rb_buffer r)"]
    by (intro unat_of_nat_small) (simp add: ring_inv_def)
  with assms show ?thesis by (auto simp: ring_inv_def ring_len_def word_le_nat_alt)
qed

lemma ring_push_full:
  "ring_inv r \<Longrightarrow> ring_len r = length (rb_buffer r) \<Longrightarrow> ring_push x r = (Inl x, r)"
  by (simp add: ring_push_def ring_full_iff)

lemma ring_push_room:
  assumes "ring_inv r" "ring_len r < length (rb_buffer r)"
  shows "ring_push x r =
    (Inr (), r\<lparr>rb_buffer := (rb_buffer r)[(unat (rb_tail r) + ring_len r) mod length (rb_buffer r) := x],
               rb_head := rb_head r + 1\<rparr>)"
proof -
  have "ring_index r (rb_head r) = (unat (rb_tail r) + ring_len r) mod length (rb_buffer r)"
    using assms(1) head_index [of "length (rb_buffer r)" r] by (simp add: ring_index_eq ring_inv_def)
  then show ?thesis using assms by (simp add: ring_push_def ring_full_iff)
qed

lemma ring_push_as_slice:
  assumes "ring_inv r" "ring_len r < length (rb_buffer r)"
  shows "ring_push x r = (Inr (), snd (ring_push_slice [x] r))"
proof -
  have "0 < length (rb_buffer r)" using assms(2) by linarith
  then have "(unat (rb_tail r) + ring_len r) mod length (rb_buffer r) < length (rb_buffer r)"
    by (rule mod_less_divisor)
  with assms show ?thesis
    by (simp add: ring_push_room ring_push_slice_write [OF _ _ _ refl] circ_write_Cons Suc_leI)
qed

lemma ring_push_room_inv:
  assumes "ring_inv r" "ring_len r < length (rb_buffer r)" "ring_push x r = (q, r')"
  shows "ring_inv r'" "ring_contents r' = ring_contents r @ [x]"
    "length (rb_buffer r') = length (rb_buffer r)" "ring_len r' = Suc (ring_len r)"
    "rb_tail r' = rb_tail r" "rb_head r' = rb_head r + 1"
proof -
  obtain n where p: "ring_push_slice [x] r = (n, r')"
    using ring_push_as_slice [OF assms(1,2), of x] assms(3) by (cases "ring_push_slice [x] r") auto
  note law = ring_push_slice_law [OF assms(1) p]
  then show "ring_inv r'" "length (rb_buffer r') = length (rb_buffer r)" by auto
  show c: "ring_contents r' = ring_contents r @ [x]"
    using law assms(2) by (auto simp: ring_contents_def)
  show "ring_len r' = Suc (ring_len r)"
    using arg_cong [OF c, of length] by (simp add: ring_contents_def)
  show "rb_tail r' = rb_tail r" "rb_head r' = rb_head r + 1"
    using ring_push_room [OF assms(1,2), of x] assms(3) by auto
qed

text \<open>One step of the bulk copy is one element followed by the bulk copy of the rest.\<close>

lemma ring_push_slice_Cons:
  assumes inv: "ring_inv r" and room: "ring_len r < length (rb_buffer r)"
    and p: "ring_push x r = (q, r1)"
  shows "ring_push_slice (x # xs) r = (case ring_push_slice xs r1 of (n, r2) \<Rightarrow> (Suc n, r2))"
proof -
  define N where "N = length (rb_buffer r)"
  define m where "m = min (length xs) (N - Suc (ring_len r))"
  define w where "w = (unat (rb_tail r) + ring_len r) mod N"
  note r1 = ring_push_room_inv [OF inv room p]
  have pos: "0 < N" using room unfolding N_def by linarith
  then have wN: "w < N" unfolding w_def by (rule mod_less_divisor)
  have m1: "Suc m = min (length (x # xs)) (N - ring_len r)"
    using room by (auto simp: m_def N_def min_def)
  have r1_eq: "r1 = r\<lparr>rb_buffer := (rb_buffer r)[w := x], rb_head := rb_head r + 1\<rparr>"
    using ring_push_room [OF inv room, of x] p by (simp add: w_def N_def)
  have w1: "(unat (rb_tail r1) + ring_len r1) mod N = Suc w mod N"
    using r1(4,5) by (simp add: w_def mod_Suc_eq)
  have "ring_push_slice (x # xs) r =
    (Suc m, r\<lparr>rb_buffer := circ_write w (take (Suc m) (x # xs)) (rb_buffer r),
               rb_head := rb_head r + of_nat (Suc m)\<rparr>)"
    unfolding w_def N_def
    by (rule ring_push_slice_write [OF inv _ room]) (simp, rule m1 [unfolded N_def])
  also have "take (Suc m) (x # xs) = x # take m xs" by simp
  also have "circ_write w (x # take m xs) (rb_buffer r) =
      circ_write (Suc w mod N) (take m xs) (rb_buffer r1)"
    using wN room circ_write_Cons [of w "rb_buffer r" x "take m xs"] r1_eq
    by (simp add: N_def m_def)
  finally have lhs: "ring_push_slice (x # xs) r =
    (Suc m, r1\<lparr>rb_buffer := circ_write (Suc w mod N) (take m xs) (rb_buffer r1),
                rb_head := rb_head r1 + of_nat m\<rparr>)"
    using r1_eq by (simp add: add.assoc)
  show ?thesis
  proof (cases "xs = [] \<or> ring_len r1 = N")
    case True
    then have "m = 0" using r1(4) by (auto simp: m_def)
    moreover have "ring_push_slice xs r1 = (0, r1)"
      using True r1(3) by (auto simp: ring_push_slice_def ring_len_def Let_def N_def)
    ultimately show ?thesis using lhs by simp
  next
    case False
    then have "ring_len r1 < length (rb_buffer r1)" using r1(1,3) by (auto simp: ring_inv_def N_def)
    then have "ring_push_slice xs r1 =
      (m, r1\<lparr>rb_buffer := circ_write (Suc w mod N) (take m xs) (rb_buffer r1),
             rb_head := rb_head r1 + of_nat m\<rparr>)"
      using ring_push_slice_write [OF r1(1) _ _ refl, of xs] False r1(3,4) w1
      by (simp add: m_def N_def)
    then show ?thesis using lhs by simp
  qed
qed

lemma ring_push_slice_full:
  "ring_len r = length (rb_buffer r) \<Longrightarrow> ring_push_slice src r = (0, r)"
  by (simp add: ring_push_slice_def ring_len_def Let_def)

lemma ring_push_slice_each:
  "ring_inv r \<Longrightarrow> ring_push_slice src r = ring_push_each src r"
proof (induction src arbitrary: r)
  case Nil
  then show ?case by (simp add: ring_push_slice_def Let_def)
next
  case (Cons x xs)
  show ?case
  proof (cases "ring_len r = length (rb_buffer r)")
    case True
    with Cons.prems show ?thesis by (simp add: ring_push_slice_full ring_push_full)
  next
    case False
    then have room: "ring_len r < length (rb_buffer r)"
      using Cons.prems by (simp add: ring_inv_def)
    then obtain r1 where p: "ring_push x r = (Inr (), r1)"
      using ring_push_room [OF Cons.prems] by blast
    show ?thesis
      using ring_push_slice_Cons [OF Cons.prems room p] Cons.IH [OF ring_push_room_inv(1) [OF Cons.prems room p]] p
      by simp
  qed
qed

lemma ring_pop_linear:
  assumes inv: "ring_inv r" and le: "rb_tail r \<le> rb_head r"
  shows "ring_pop r = (case ring_contents r of [] \<Rightarrow> (None, r)
           | x # _ \<Rightarrow> (Some x, r\<lparr>rb_tail := rb_tail r + 1\<rparr>))"
proof (cases "ring_len r = 0")
  case True
  then have "rb_head r = rb_tail r" by (simp add: ring_len_def unat_eq_0)
  with True show ?thesis by (simp add: ring_pop_def ring_contents_def)
next
  case False
  then have "rb_head r \<noteq> rb_tail r" by (auto simp: ring_len_def)
  with le have lt: "\<not> rb_tail r \<ge> rb_head r" by simp
  have "ring_index r (rb_tail r) = unat (rb_tail r) mod length (rb_buffer r)"
    using inv by (simp add: ring_index_eq ring_inv_def)
  moreover obtain n where "ring_len r = Suc n" using False by (cases "ring_len r") auto
  ultimately show ?thesis
    using lt by (simp add: ring_pop_def Let_def ring_contents_def circ_def upt_conv_Cons del: upt_Suc)
qed

section \<open>Properties\<close>

text \<open>
  C18. The ring buffer is a FIFO stream: whatever sequence of \<open>push_slice\<close> and \<open>pop_slice\<close>
  calls runs on a fresh buffer, and whatever the uninitialised slots held, the elements read
  so far followed by the elements still queued are exactly the elements accepted so far, in
  order, and the buffer never holds more than its capacity.
\<close>

theorem ring_fifo_stream:
  assumes "ring_new uninit = Some r"
    and "fifo_run ring_push_slice ring_pop_slice ops r = (ins, outs, r')"
  shows "ins = outs @ ring_contents r' \<and> ring_inv r' \<and> ring_len r' \<le> length uninit"
proof -
  have inv: "ring_inv r" and "ring_contents r = []" and "length (rb_buffer r) = length uninit"
    using assms(1) by (auto simp: ring_new_def ring_inv_def ring_len_def ring_contents_def split: if_splits)
  with ring_fifo.fifo_run_stream [OF inv assms(2)] show ?thesis
    by (auto simp: ring_inv_def)
qed

theorem ring_fifo_stream_witness:
  "\<exists>r ins outs r'. ring_new [0, 0 :: nat] = Some r \<and>
     fifo_run ring_push_slice ring_pop_slice
       [PushSlice [1, 2, 3], PopSlice [9], PushSlice [4], PopSlice [9, 9, 9]] r = (ins, outs, r') \<and>
     ins = outs @ ring_contents r' \<and> outs = [1, 2, 4]"
proof -
  define r where "r = \<lparr>rb_buffer = [0, 0 :: nat], rb_head = 0, rb_tail = 0\<rparr>"
  have new: "ring_new [0, 0 :: nat] = Some r"
    by (auto simp: ring_new_def r_def is_power_of_two_def intro!: exI [of _ 1])
  have run: "fifo_run ring_push_slice ring_pop_slice
      [PushSlice [1, 2, 3], PopSlice [9], PushSlice [4], PopSlice [9, 9, 9]] r =
      ([1, 2, 4], [1, 2, 4], \<lparr>rb_buffer = [4, 2], rb_head = 3, rb_tail = 3\<rparr>)"
    by (simp add: r_def ring_push_slice_def ring_pop_slice_def ring_index_def copy_at_def
        subslice_def Let_def)
  from ring_fifo_stream [OF new run] new run show ?thesis by blast
qed

text \<open>
  The bulk copy of \<open>push_slice\<close> (at most two block moves) computes the same count and
  leaves byte for byte the same buffer as pushing the elements one at a time until the
  buffer refuses one.
\<close>

theorem ring_push_slice_equiv:
  assumes "ring_inv r"
  shows "ring_push_slice src r = ring_push_each src r"
  by (rule ring_push_slice_each [OF assms])

theorem ring_push_slice_equiv_witness:
  "ring_push_slice [1, 2, 3] \<lparr>rb_buffer = [0, 0 :: nat], rb_head = 5, rb_tail = 5\<rparr> =
   ring_push_each [1, 2, 3] \<lparr>rb_buffer = [0, 0 :: nat], rb_head = 5, rb_tail = 5\<rparr>"
  by (rule ring_push_slice_equiv)
    (auto simp: ring_inv_def ring_len_def is_power_of_two_def intro!: exI [of _ 1])

text \<open>
  \<open>pop\<close> returns the oldest element as long as the counters have not wrapped, but once
  \<open>head\<close> has wrapped past $2^{64}$ while \<open>tail\<close> has not, \<open>pop\<close> and \<open>is_empty\<close> report
  an empty buffer although elements are queued: the comparison \<open>tail >= head\<close> is not
  wrap-safe, unlike the \<open>wrapping_sub\<close> of \<open>len\<close>, \<open>push_slice\<close> and \<open>pop_slice\<close>.
\<close>

theorem ring_pop_cases:
  assumes "ring_inv r"
  shows "ring_pop r =
    (if rb_tail r \<le> rb_head r
     then (case ring_contents r of [] \<Rightarrow> (None, r)
           | x # _ \<Rightarrow> (Some x, r\<lparr>rb_tail := rb_tail r + 1\<rparr>))
     else (None, r)) \<and>
    (\<not> rb_tail r \<le> rb_head r \<longrightarrow> ring_is_empty r \<and> ring_contents r \<noteq> [])"
proof (cases "rb_tail r \<le> rb_head r")
  case True
  with ring_pop_linear [OF assms] show ?thesis by simp
next
  case False
  then have "rb_head r - rb_tail r \<noteq> 0" by auto
  then have "0 < ring_len r" by (simp add: ring_len_def unat_gt_0)
  with False show ?thesis
    by (auto simp: ring_pop_def ring_is_empty_def ring_contents_def circ_def Let_def)
qed

theorem ring_pop_cases_witness:
  "ring_pop \<lparr>rb_buffer = [7, 8 :: nat], rb_head = 0, rb_tail = - 1\<rparr> =
     (None, \<lparr>rb_buffer = [7, 8], rb_head = 0, rb_tail = - 1\<rparr>) \<and>
   ring_contents \<lparr>rb_buffer = [7, 8 :: nat], rb_head = 0, rb_tail = - 1\<rparr> \<noteq> []"
proof -
  have inv: "ring_inv \<lparr>rb_buffer = [7, 8 :: nat], rb_head = 0, rb_tail = - 1\<rparr>"
    by (auto simp: ring_inv_def ring_len_def is_power_of_two_def intro!: exI [of _ 1])
  show ?thesis using ring_pop_cases [OF inv] by simp
qed

end
