(* ===== verification/Ring_Spsc.thy ===== *)
theory Ring_Spsc
  imports Ring_Buffer
begin

text \<open>
  The ring buffer of \<open>util/ring_buffer.rs\<close> under concurrency: one producer running
  \<open>push\<close> and one consumer running \<open>pop\<close>, interleaved at the granularity of their shared
  accesses (each atomic load or store of \<open>head\<close> and \<open>tail\<close>, and the slot access). The
  acquire/release pairs of the source order the slot accesses with the counter updates, so
  steps are interleaved as in a sequentially consistent execution. The lists
  \<open>produced\<close> and \<open>consumed\<close> are history variables.
\<close>

section \<open>The two programs as a step relation\<close>

text \<open>Where the producer is inside \<open>push\<close>: the values it has loaded so far.\<close>

datatype 'a prod_pc = PIdle | PCall 'a | PHead 'a u64 | PTail 'a u64 u64 | PWrote 'a u64

text \<open>Where the consumer is inside \<open>pop\<close>.\<close>

datatype 'a cons_pc = CIdle | CTail u64 | CHead u64 u64 | CRead u64 'a

record 'a spsc =
  ring :: "'a ring_buffer"
  prod :: "'a prod_pc"
  cons :: "'a cons_pc"
  produced :: "'a list"
  consumed :: "'a list"

definition spsc_init :: "'a spsc \<Rightarrow> bool" where
  "spsc_init s \<longleftrightarrow> (\<exists>uninit. ring_new uninit = Some (ring s)) \<and>
     prod s = PIdle \<and> cons s = CIdle \<and> produced s = [] \<and> consumed s = []"

text \<open>The test of \<open>push\<close> on the loaded values, and the one of \<open>pop\<close>.\<close>

definition push_full :: "'a ring_buffer \<Rightarrow> u64 \<Rightarrow> u64 \<Rightarrow> bool" where
  "push_full r head tail \<longleftrightarrow> head - tail \<ge> of_nat (length (rb_buffer r))"

inductive spsc_step :: "'a spsc \<Rightarrow> 'a spsc \<Rightarrow> bool" where
  p_call: "prod s = PIdle \<Longrightarrow> spsc_step s (s\<lparr>prod := PCall x\<rparr>)"
| p_load_head: "prod s = PCall x \<Longrightarrow> spsc_step s (s\<lparr>prod := PHead x (rb_head (ring s))\<rparr>)"
| p_load_tail: "prod s = PHead x h \<Longrightarrow> spsc_step s (s\<lparr>prod := PTail x h (rb_tail (ring s))\<rparr>)"
| p_full: "prod s = PTail x h t \<Longrightarrow> push_full (ring s) h t \<Longrightarrow> spsc_step s (s\<lparr>prod := PIdle\<rparr>)"
| p_write: "prod s = PTail x h t \<Longrightarrow> \<not> push_full (ring s) h t \<Longrightarrow>
    spsc_step s (s\<lparr>ring := (ring s)\<lparr>rb_buffer := (rb_buffer (ring s))[ring_index (ring s) h := x]\<rparr>,
                  prod := PWrote x h\<rparr>)"
| p_publish: "prod s = PWrote x h \<Longrightarrow>
    spsc_step s (s\<lparr>ring := (ring s)\<lparr>rb_head := h + 1\<rparr>, prod := PIdle,
                  produced := produced s @ [x]\<rparr>)"
| c_load_tail: "cons s = CIdle \<Longrightarrow> spsc_step s (s\<lparr>cons := CTail (rb_tail (ring s))\<rparr>)"
| c_load_head: "cons s = CTail t \<Longrightarrow> spsc_step s (s\<lparr>cons := CHead t (rb_head (ring s))\<rparr>)"
| c_empty: "cons s = CHead t h \<Longrightarrow> t \<ge> h \<Longrightarrow> spsc_step s (s\<lparr>cons := CIdle\<rparr>)"
| c_read: "cons s = CHead t h \<Longrightarrow> \<not> t \<ge> h \<Longrightarrow>
    spsc_step s (s\<lparr>cons := CRead t (rb_buffer (ring s) ! ring_index (ring s) t)\<rparr>)"
| c_publish: "cons s = CRead t v \<Longrightarrow>
    spsc_step s (s\<lparr>ring := (ring s)\<lparr>rb_tail := t + 1\<rparr>, cons := CIdle,
                  consumed := consumed s @ [v]\<rparr>)"

text \<open>
  A data race on a slot: the producer's next access writes the slot that the consumer's next
  access reads.
\<close>

definition spsc_race :: "'a spsc \<Rightarrow> bool" where
  "spsc_race s \<longleftrightarrow>
     (case (prod s, cons s) of
        (PTail x h t, CHead t' h') \<Rightarrow>
          \<not> push_full (ring s) h t \<and> \<not> t' \<ge> h' \<and> ring_index (ring s) h = ring_index (ring s) t'
      | _ \<Rightarrow> False)"

section \<open>Invariant\<close>

definition spsc_shared :: "'a spsc \<Rightarrow> bool" where
  "spsc_shared s \<longleftrightarrow>
     is_power_of_two (length (rb_buffer (ring s))) \<and>
     unat (rb_head (ring s)) = length (produced s) \<and>
     unat (rb_tail (ring s)) = length (consumed s) \<and>
     length (consumed s) \<le> length (produced s) \<and>
     length (produced s) \<le> length (consumed s) + length (rb_buffer (ring s)) \<and>
     consumed s = take (length (consumed s)) (produced s) \<and>
     (\<forall>i. length (consumed s) \<le> i \<longrightarrow> i < length (produced s) \<longrightarrow>
          rb_buffer (ring s) ! (i mod length (rb_buffer (ring s))) = produced s ! i)"

fun spsc_prod :: "'a spsc \<Rightarrow> 'a prod_pc \<Rightarrow> bool" where
  "spsc_prod s (PHead x h) = (h = rb_head (ring s))"
| "spsc_prod s (PTail x h t) = (h = rb_head (ring s) \<and> t \<le> rb_tail (ring s))"
| "spsc_prod s (PWrote x h) =
     (h = rb_head (ring s) \<and>
      length (produced s) < length (consumed s) + length (rb_buffer (ring s)) \<and>
      rb_buffer (ring s) ! (length (produced s) mod length (rb_buffer (ring s))) = x)"
| "spsc_prod s _ = True"

fun spsc_cons :: "'a spsc \<Rightarrow> 'a cons_pc \<Rightarrow> bool" where
  "spsc_cons s (CTail t) = (t = rb_tail (ring s))"
| "spsc_cons s (CHead t h) = (t = rb_tail (ring s) \<and> h \<le> rb_head (ring s))"
| "spsc_cons s (CRead t v) =
     (t = rb_tail (ring s) \<and> length (consumed s) < length (produced s) \<and>
      v = produced s ! length (consumed s))"
| "spsc_cons s CIdle = True"

definition spsc_inv :: "'a spsc \<Rightarrow> bool" where
  "spsc_inv s \<longleftrightarrow> spsc_shared s \<and> spsc_prod s (prod s) \<and> spsc_cons s (cons s)"

text \<open>The counters do not wrap as long as fewer than $2^{64}$ items were pushed.\<close>

definition spsc_bounded_inv :: "'a spsc \<Rightarrow> bool" where
  "spsc_bounded_inv s \<longleftrightarrow> (length (produced s) < 2 ^ 64 \<longrightarrow> spsc_inv s)"

section \<open>Preservation\<close>

text \<open>Positions less than a buffer length apart fall into different slots.\<close>

lemma mod_distinct:
  fixes i j n :: nat
  assumes "i < j" "j < i + n"
  shows "i mod n \<noteq> j mod n"
proof
  assume "i mod n = j mod n"
  then have "n dvd j - i" using assms(1) by (metis less_imp_le mod_eq_dvd_iff_nat)
  with assms show False by (auto dest: dvd_imp_le)
qed

lemma push_room:
  assumes "spsc_inv s" "prod s = PTail x h t" "\<not> push_full (ring s) h t"
  shows "length (produced s) < length (consumed s) + length (rb_buffer (ring s))"
proof -
  let ?N = "length (rb_buffer (ring s))"
  have inv: "spsc_shared s" "h = rb_head (ring s)" "t \<le> rb_tail (ring s)"
    using assms by (auto simp: spsc_inv_def)
  have "t \<le> h"
    using inv by (auto simp: spsc_shared_def word_le_nat_alt)
  then have "unat (h - t) = unat h - unat t" by (rule unat_sub)
  moreover have "unat (of_nat ?N :: u64) = ?N"
    using inv(1) is_power_of_two_bounds [of ?N]
    by (intro unat_of_nat_small) (simp add: spsc_shared_def)
  ultimately have "unat h - unat t < ?N"
    using assms(3) by (simp add: push_full_def word_le_nat_alt)
  with inv show ?thesis by (auto simp: spsc_shared_def word_le_nat_alt)
qed

lemma pop_available:
  assumes "spsc_inv s" "cons s = CHead t h" "\<not> t \<ge> h"
  shows "length (consumed s) < length (produced s)"
  using assms by (auto simp: spsc_inv_def spsc_shared_def word_le_nat_alt)

lemma ring_index_unat:
  "spsc_shared s \<Longrightarrow> ring_index (ring s) p = unat p mod length (rb_buffer (ring s))"
  by (simp add: spsc_shared_def ring_index_eq)

lemma take_Suc_eq_append: "n < length xs \<Longrightarrow> ys = take n xs \<Longrightarrow> ys @ [xs ! n] = take (Suc n) xs"
  by (simp add: take_Suc_conv_app_nth)

lemma p_write_inv:
  assumes inv: "spsc_inv s" and p: "prod s = PTail x h t" and room: "\<not> push_full (ring s) h t"
  shows "spsc_inv (s\<lparr>ring := (ring s)\<lparr>rb_buffer := (rb_buffer (ring s))[ring_index (ring s) h := x]\<rparr>,
                     prod := PWrote x h\<rparr>)"
proof -
  let ?N = "length (rb_buffer (ring s))"
  have sh: "spsc_shared s" and h: "h = rb_head (ring s)" using inv p by (auto simp: spsc_inv_def)
  note lt = push_room [OF assms]
  have idx: "ring_index (ring s) h = length (produced s) mod ?N"
    using sh h by (simp add: ring_index_unat) (simp add: spsc_shared_def)
  have pos: "0 < ?N" using sh is_power_of_two_bounds(1) by (auto simp: spsc_shared_def)
  have "(rb_buffer (ring s))[length (produced s) mod ?N := x] ! (i mod ?N) = produced s ! i"
    if "length (consumed s) \<le> i" "i < length (produced s)" for i
    using that lt sh mod_distinct [of i "length (produced s)" ?N]
    by (simp add: nth_list_update spsc_shared_def)
  with inv h lt pos show ?thesis
    by (cases "cons s") (auto simp: spsc_inv_def spsc_shared_def idx [unfolded h])
qed

lemma p_publish_inv:
  assumes inv: "spsc_inv s" and p: "prod s = PWrote x h"
    and b: "length (produced s @ [x]) < 2 ^ 64"
  shows "spsc_inv (s\<lparr>ring := (ring s)\<lparr>rb_head := h + 1\<rparr>, prod := PIdle,
                     produced := produced s @ [x]\<rparr>)"
proof -
  have h: "h = rb_head (ring s)" and sh: "spsc_shared s" using inv p by (auto simp: spsc_inv_def)
  have "unat (rb_head (ring s) + 1) = unat (rb_head (ring s)) + unat (1 :: u64)"
    using b sh by (intro unat_add_small) (simp add: spsc_shared_def)
  then have u: "unat (rb_head (ring s) + 1) = Suc (length (produced s))"
    using sh by (simp add: spsc_shared_def)
  then have le: "rb_head (ring s) \<le> rb_head (ring s) + 1"
    using sh by (simp add: word_le_nat_alt spsc_shared_def)
  have "spsc_shared (s\<lparr>ring := (ring s)\<lparr>rb_head := h + 1\<rparr>, prod := PIdle, produced := produced s @ [x]\<rparr>)"
    using sh inv p h u by (auto simp: spsc_shared_def spsc_inv_def nth_append less_Suc_eq)
  with inv le h sh show ?thesis
    by (cases "cons s") (auto simp: spsc_inv_def nth_append spsc_shared_def)
qed

lemma c_publish_inv:
  assumes inv: "spsc_inv s" and c: "cons s = CRead t v" and b: "length (produced s) < 2 ^ 64"
  shows "spsc_inv (s\<lparr>ring := (ring s)\<lparr>rb_tail := t + 1\<rparr>, cons := CIdle,
                     consumed := consumed s @ [v]\<rparr>)"
proof -
  have t: "t = rb_tail (ring s)" and sh: "spsc_shared s"
    and lt: "length (consumed s) < length (produced s)" and v: "v = produced s ! length (consumed s)"
    using inv c by (auto simp: spsc_inv_def)
  have "unat (rb_tail (ring s) + 1) = unat (rb_tail (ring s)) + unat (1 :: u64)"
    using b sh lt by (intro unat_add_small) (simp add: spsc_shared_def)
  then have u: "unat (rb_tail (ring s) + 1) = Suc (length (consumed s))"
    using sh by (simp add: spsc_shared_def)
  then have le: "rb_tail (ring s) \<le> rb_tail (ring s) + 1"
    using sh by (simp add: word_le_nat_alt spsc_shared_def)
  have "spsc_shared (s\<lparr>ring := (ring s)\<lparr>rb_tail := t + 1\<rparr>, cons := CIdle, consumed := consumed s @ [v]\<rparr>)"
    using sh lt v u t take_Suc_eq_append [OF lt] by (auto simp: spsc_shared_def)
  with inv le t show ?thesis
    by (cases "prod s") (auto simp: spsc_inv_def intro: order_trans)
qed

lemma c_read_inv:
  assumes inv: "spsc_inv s" and c: "cons s = CHead t h" and ne: "\<not> t \<ge> h"
  shows "spsc_inv (s\<lparr>cons := CRead t (rb_buffer (ring s) ! ring_index (ring s) t)\<rparr>)"
proof -
  have sh: "spsc_shared s" and t: "t = rb_tail (ring s)" using inv c by (auto simp: spsc_inv_def)
  note lt = pop_available [OF assms]
  have "rb_buffer (ring s) ! ring_index (ring s) t = produced s ! length (consumed s)"
    using sh t lt by (simp add: ring_index_unat) (simp add: spsc_shared_def)
  with inv t lt show ?thesis
    by (cases "prod s") (auto simp: spsc_inv_def spsc_shared_def)
qed

lemma spsc_step_inv:
  assumes "spsc_step s s'" "spsc_inv s" "length (produced s') < 2 ^ 64"
  shows "spsc_inv s'"
  using assms
proof (induction rule: spsc_step.induct)
  case (p_write s x h t)
  then show ?case by (blast intro: p_write_inv)
next
  case (p_publish s x h)
  from p_publish.prems(2) have "length (produced s @ [x]) < 2 ^ 64" by simp
  with p_publish.prems(1) p_publish.hyps show ?case by (intro p_publish_inv)
next
  case (c_read s t h)
  then show ?case by (blast intro: c_read_inv)
next
  case (c_publish s t v)
  then show ?case by (intro c_publish_inv) auto
next
  case (p_call s x)
  then show ?case by (cases "cons s") (auto simp: spsc_inv_def spsc_shared_def)
next
  case (p_load_head s x)
  then show ?case by (cases "cons s") (auto simp: spsc_inv_def spsc_shared_def)
next
  case (p_load_tail s x h)
  then show ?case by (cases "cons s") (auto simp: spsc_inv_def spsc_shared_def)
next
  case (p_full s x h t)
  then show ?case by (cases "cons s") (auto simp: spsc_inv_def spsc_shared_def)
next
  case (c_load_tail s)
  then show ?case by (cases "prod s") (auto simp: spsc_inv_def spsc_shared_def)
next
  case (c_load_head s t)
  then show ?case by (cases "prod s") (auto simp: spsc_inv_def spsc_shared_def)
next
  case (c_empty s t h)
  then show ?case by (cases "prod s") (auto simp: spsc_inv_def spsc_shared_def)
qed

lemma spsc_step_produced: "spsc_step s s' \<Longrightarrow> length (produced s) \<le> length (produced s')"
  by (induction rule: spsc_step.induct) auto

lemma spsc_init_inv: "spsc_init s \<Longrightarrow> spsc_inv s"
  by (auto simp: spsc_init_def spsc_inv_def spsc_shared_def ring_new_def
      split: if_splits dest!: sym [of _ "ring s"])

interpretation spsc_sys: invariant_system spsc_init spsc_step spsc_bounded_inv
proof
  show "spsc_bounded_inv s" if "spsc_init s" for s :: "'a spsc"
    using spsc_init_inv [OF that] by (simp add: spsc_bounded_inv_def)
  show "spsc_bounded_inv s'" if "spsc_bounded_inv s" "spsc_step s s'" for s s' :: "'a spsc"
    using that spsc_step_inv [OF that(2)] spsc_step_produced [OF that(2)]
    by (auto simp: spsc_bounded_inv_def)
qed

section \<open>Properties\<close>

text \<open>
  C19. Lock-free FIFO under every interleaving: in every state that one producer and one
  consumer can reach, as long as fewer than $2^{64}$ items have been pushed, the items popped
  are exactly a prefix of the items pushed, at most the capacity is in flight, and the
  producer is never about to write the slot the consumer is about to read.
\<close>

theorem spsc_fifo:
  assumes "reach spsc_init spsc_step s" and "length (produced s) < 2 ^ 64"
  shows "consumed s = take (length (consumed s)) (produced s) \<and>
    length (produced s) - length (consumed s) \<le> length (rb_buffer (ring s)) \<and>
    \<not> spsc_race s"
proof -
  have inv: "spsc_inv s"
    using spsc_sys.reach_inv [OF assms(1)] assms(2) by (simp add: spsc_bounded_inv_def)
  have "ring_index (ring s) h \<noteq> ring_index (ring s) t'"
    if p: "prod s = PTail x h t" "\<not> push_full (ring s) h t" and c: "cons s = CHead t' h'" "\<not> t' \<ge> h'"
    for x h t t' h'
  proof -
    have sh: "spsc_shared s" "h = rb_head (ring s)" "t' = rb_tail (ring s)"
      using inv p c by (auto simp: spsc_inv_def)
    have "length (consumed s) mod length (rb_buffer (ring s)) \<noteq>
          length (produced s) mod length (rb_buffer (ring s))"
      using pop_available [OF inv c] push_room [OF inv p] by (rule mod_distinct)
    with sh show ?thesis by (simp add: ring_index_unat) (simp add: spsc_shared_def)
  qed
  then have "\<not> spsc_race s"
    unfolding spsc_race_def by (cases "prod s"; cases "cons s") auto
  with inv show ?thesis by (auto simp: spsc_inv_def spsc_shared_def)
qed

theorem spsc_fifo_witness:
  "\<exists>s :: nat spsc. reach spsc_init spsc_step s \<and> prod s = PWrote 7 0 \<and>
     consumed s = take (length (consumed s)) (produced s) \<and> \<not> spsc_race s"
proof -
  define r where "r = \<lparr>rb_buffer = [0 :: nat, 0], rb_head = 0, rb_tail = 0\<rparr>"
  define s0 where "s0 = \<lparr>ring = r, prod = PIdle, cons = CIdle, produced = [], consumed = []\<rparr>"
  have "ring_new [0, 0] = Some r"
    by (auto simp: ring_new_def r_def is_power_of_two_def intro!: exI [of _ 1])
  then have "reach spsc_init spsc_step s0"
    by (intro reach_init) (auto simp: spsc_init_def s0_def)
  then have "reach spsc_init spsc_step (s0\<lparr>prod := PCall 7\<rparr>)"
    by (rule reach_step) (rule spsc_step.p_call, simp add: s0_def)
  then have "reach spsc_init spsc_step (s0\<lparr>prod := PHead 7 0\<rparr>)"
    by (rule reach_step)
      (use spsc_step.p_load_head [of "s0\<lparr>prod := PCall 7\<rparr>" 7] in \<open>simp add: s0_def r_def\<close>)
  then have "reach spsc_init spsc_step (s0\<lparr>prod := PTail 7 0 0\<rparr>)"
    by (rule reach_step)
      (use spsc_step.p_load_tail [of "s0\<lparr>prod := PHead 7 0\<rparr>" 7 0] in \<open>simp add: s0_def r_def\<close>)
  then have s: "reach spsc_init spsc_step (s0\<lparr>ring := r\<lparr>rb_buffer := [7, 0]\<rparr>, prod := PWrote 7 0\<rparr>)"
    by (rule reach_step)
      (use spsc_step.p_write [of "s0\<lparr>prod := PTail 7 0 0\<rparr>" 7 0 0] in
        \<open>simp add: s0_def r_def push_full_def ring_index_def\<close>)
  show ?thesis
    using spsc_fifo [OF s] s by (intro exI [of _ "s0\<lparr>ring := r\<lparr>rb_buffer := [7, 0]\<rparr>, prod := PWrote 7 0\<rparr>"])
      (simp add: s0_def)
qed

end
