(* ===== verification/Path.thy ===== *)
theory Path
  imports Kernel_Prelude
begin

text \<open>
  The path utilities of \<open>fs/path.rs\<close> on strings as byte lists: the allocation-free scanner
  \<open>is_normalized\<close>, \<open>normalize\<close> with its fast path, the jail-aware
  \<open>normalize_jailed\<close>, and \<open>split_path\<close>, \<open>basename\<close>, \<open>dirname\<close>, \<open>join\<close>. The theory
  shows what the scanner accepts, that normalising is idempotent and agrees with plain
  component resolution, and that a path below a root stays below it.
\<close>

abbreviation slash :: char where
  "slash \<equiv> CHR ''/''"

section \<open>Operations\<close>

text \<open>\<open>str::split('/')\<close>.\<close>

fun split_slash :: "string \<Rightarrow> string list" where
  "split_slash [] = [[]]"
| "split_slash (c # cs) =
     (if c = slash then [] # split_slash cs
      else case split_slash cs of [] \<Rightarrow> [[c]] | w # ws \<Rightarrow> (c # w) # ws)"

text \<open>The inner loop of \<open>is_normalized\<close>: the end of the component that starts at \<open>i\<close>.\<close>

function comp_end :: "string \<Rightarrow> nat \<Rightarrow> nat" where
  "comp_end bytes i =
     (if i < length bytes \<and> bytes ! i \<noteq> slash then comp_end bytes (i + 1) else i)"
  by pat_completeness auto
termination
  by (relation "measure (\<lambda>(bytes, i). length bytes - i)") auto

declare comp_end.simps [simp del]

lemma comp_end_ge: "i \<le> comp_end bytes i"
proof (induction bytes i rule: comp_end.induct)
  case (1 bytes i)
  then show ?case by (subst comp_end.simps) auto
qed

text \<open>The outer loop of \<open>is_normalized\<close>, from byte \<open>i\<close>.\<close>

function norm_scan :: "string \<Rightarrow> nat \<Rightarrow> bool" where
  "norm_scan bytes i =
     (if i < length bytes then
        let start = i; e = comp_end bytes i; comp_len = e - start
        in if comp_len = 0 then False
           else if comp_len = 1 \<and> bytes ! start = CHR ''.'' then False
           else if comp_len = 2 \<and> bytes ! start = CHR ''.'' \<and> bytes ! (start + 1) = CHR ''.'' then False
           else norm_scan bytes (if e < length bytes then e + 1 else e)
      else True)"
  by pat_completeness auto
termination
  by (relation "measure (\<lambda>(bytes, i). length bytes - i)") auto

declare norm_scan.simps [simp del]

definition is_normalized :: "string \<Rightarrow> bool" where
  "is_normalized path =
     (if path = [] then False
      else if path = ''/'' then True
      else let bytes = path; len = length bytes
           in if len > 1 \<and> bytes ! (len - 1) = slash then False
              else norm_scan bytes (if bytes ! 0 = slash then 1 else 0))"

text \<open>The loop over \<open>path.split('/')\<close> in \<open>normalize\<close>, on the component stack.\<close>

fun resolve_components :: "string list \<Rightarrow> string list \<Rightarrow> string list" where
  "resolve_components comps [] = comps"
| "resolve_components comps (c # cs) =
     (if c = '''' \<or> c = ''.'' then resolve_components comps cs
      else if c = ''..'' then
        resolve_components (if comps \<noteq> [] then butlast comps else comps) cs
      else resolve_components (comps @ [c]) cs)"

text \<open>The loop that prints the components with separators.\<close>

fun push_components :: "string \<Rightarrow> nat \<Rightarrow> string list \<Rightarrow> string" where
  "push_components result i [] = result"
| "push_components result i (c # cs) =
     push_components ((if i > 0 then result @ [slash] else result) @ c) (i + 1) cs"

text \<open>The part of \<open>normalize\<close> after the fast path.\<close>

definition normalize_slow :: "string \<Rightarrow> string" where
  "normalize_slow path =
     (let is_absolute = (case path of c # _ \<Rightarrow> c = slash | [] \<Rightarrow> False);
          components = resolve_components [] (split_slash path);
          result = push_components (if is_absolute then [slash] else []) 0 components
      in if result = [] then [slash] else result)"

definition normalize :: "string \<Rightarrow> string" where
  "normalize path = (if is_normalized path then path else normalize_slow path)"

text \<open>The component loop of \<open>normalize_jailed\<close>: \<open>..\<close> stops at the root's depth.\<close>

fun resolve_jailed :: "nat \<Rightarrow> string list \<Rightarrow> string list \<Rightarrow> string list" where
  "resolve_jailed root_depth comps [] = comps"
| "resolve_jailed root_depth comps (c # cs) =
     (if c = '''' \<or> c = ''.'' then resolve_jailed root_depth comps cs
      else if c = ''..'' then
        resolve_jailed root_depth (if length comps > root_depth then butlast comps else comps) cs
      else resolve_jailed root_depth (comps @ [c]) cs)"

definition root_parts :: "string \<Rightarrow> string list" where
  "root_parts root = filter (\<lambda>s. s \<noteq> '''') (split_slash root)"

definition normalize_jailed :: "string \<Rightarrow> string \<Rightarrow> string" where
  "normalize_jailed path root =
     (let root_depth = length (root_parts root);
          components = resolve_jailed root_depth [] (split_slash path);
          components = (if length components < root_depth then root_parts root else components)
      in push_components [slash] 0 components)"

text \<open>\<open>str::rfind('/')\<close>.\<close>

definition rfind_slash :: "string \<Rightarrow> nat option" where
  "rfind_slash path =
     (if slash \<in> set path
      then Some (length path - 1 - length (takeWhile (\<lambda>c. c \<noteq> slash) (rev path))) else None)"

definition split_path :: "string \<Rightarrow> string \<times> string" where
  "split_path path =
     (case rfind_slash path of
        Some pos \<Rightarrow> if pos = 0 then (''/'', drop 1 path) else (take pos path, drop (pos + 1) path)
      | None \<Rightarrow> (''.'', path))"

definition basename :: "string \<Rightarrow> string" where
  "basename path = (case rfind_slash path of Some pos \<Rightarrow> drop (pos + 1) path | None \<Rightarrow> path)"

definition dirname :: "string \<Rightarrow> string" where
  "dirname path =
     (case rfind_slash path of
        Some pos \<Rightarrow> if pos = 0 then ''/'' else take pos path
      | None \<Rightarrow> ''.'')"

text \<open>\<open>str::starts_with('/')\<close> and \<open>str::ends_with('/')\<close>.\<close>

definition starts_with_slash :: "string \<Rightarrow> bool" where
  "starts_with_slash s = (case s of c # _ \<Rightarrow> c = slash | [] \<Rightarrow> False)"

definition ends_with_slash :: "string \<Rightarrow> bool" where
  "ends_with_slash s = (s \<noteq> [] \<and> last s = slash)"

definition join_path :: "string \<Rightarrow> string \<Rightarrow> string" where
  "join_path base name =
     (if starts_with_slash name then name
      else let extra = (if ends_with_slash base then 0 else 1 :: nat);
               result = base;
               result = (if extra = 1 then result @ [slash] else result)
           in result @ name)"

section \<open>Specification: components\<close>

definition good_comp :: "string \<Rightarrow> bool" where
  "good_comp c \<longleftrightarrow> c \<noteq> '''' \<and> c \<noteq> ''.'' \<and> c \<noteq> ''..''"

definition plain_comp :: "string \<Rightarrow> bool" where
  "plain_comp c \<longleftrightarrow> good_comp c \<and> slash \<notin> set c"

text \<open>The absolute path with the given components.\<close>

definition abs_path :: "string list \<Rightarrow> string" where
  "abs_path cs = push_components [slash] 0 cs"

section \<open>Splitting and printing\<close>

lemma split_slash_ne [simp]: "split_slash s \<noteq> []"
  by (induction s) (auto split: list.splits)

lemma split_slash_no_slash: "c \<in> set (split_slash s) \<Longrightarrow> slash \<notin> set c"
  by (induction s arbitrary: c) (auto split: list.splits if_splits)

lemma split_slash_plain: "slash \<notin> set c \<Longrightarrow> split_slash c = [c]"
  by (induction c) auto

lemma split_slash_append:
  "slash \<notin> set c \<Longrightarrow> split_slash (c @ slash # s) = c # split_slash s"
  by (induction c) auto

lemma split_slash_takeWhile:
  "split_slash s = takeWhile (\<lambda>c. c \<noteq> slash) s #
     (case dropWhile (\<lambda>c. c \<noteq> slash) s of [] \<Rightarrow> [] | _ # r \<Rightarrow> split_slash r)"
proof (cases "slash \<in> set s")
  case True
  then obtain c r where s: "s = c @ slash # r" and c: "slash \<notin> set c"
    by (blast dest: split_list_first)
  then have "\<forall>x\<in>set c. x \<noteq> slash" by blast
  then have "takeWhile (\<lambda>x. x \<noteq> slash) s = c" "dropWhile (\<lambda>x. x \<noteq> slash) s = slash # r"
    using s by (simp_all add: takeWhile_append2 dropWhile_append2)
  with s c show ?thesis by (simp add: split_slash_append)
next
  case False
  then have all: "\<forall>x\<in>set s. x \<noteq> slash" by blast
  have tw: "takeWhile (\<lambda>x. x \<noteq> slash) s = s" and dw: "dropWhile (\<lambda>x. x \<noteq> slash) s = []"
    using all takeWhile_eq_all_conv [of "\<lambda>x. x \<noteq> slash" s]
      dropWhile_eq_Nil_conv [of "\<lambda>x. x \<noteq> slash" s] by blast+
  show ?thesis
    unfolding split_slash_plain [OF False] tw dw by simp
qed

text \<open>Splitting distributes over a separator.\<close>

lemma split_slash_sep: "split_slash (s @ slash # t) = split_slash s @ split_slash t"
proof (induction s)
  case Nil
  then show ?case by simp
next
  case (Cons c s)
  obtain w ws where "split_slash s = w # ws" by (cases "split_slash s") auto
  with Cons show ?case by auto
qed

fun join_comps :: "string list \<Rightarrow> string" where
  "join_comps [] = []"
| "join_comps (c # cs) = c @ (if cs = [] then [] else slash # join_comps cs)"

lemma push_components_Suc:
  "push_components r (Suc i) cs = r @ (if cs = [] then [] else slash # join_comps cs)"
  by (induction cs arbitrary: r i) auto

lemma push_components_0: "push_components r 0 cs = r @ join_comps cs"
proof (cases cs)
  case (Cons c cs')
  then show ?thesis by (cases cs') (auto simp: push_components_Suc)
qed simp

lemma abs_path_eq: "abs_path cs = slash # join_comps cs"
  by (simp add: abs_path_def push_components_0)

lemma split_join_comps:
  "cs \<noteq> [] \<Longrightarrow> list_all plain_comp cs \<Longrightarrow> split_slash (join_comps cs) = cs"
  by (induction cs rule: join_comps.induct)
    (auto simp: plain_comp_def split_slash_plain split_slash_append)

lemma join_split: "join_comps (split_slash s) = s"
proof (induction s)
  case (Cons c s)
  obtain w ws where s: "split_slash s = w # ws" by (cases "split_slash s") auto
  with Cons show ?case by (cases ws) auto
qed simp

lemma split_abs_path:
  "list_all plain_comp cs \<Longrightarrow> split_slash (abs_path cs) = [] # (if cs = [] then [[]] else cs)"
  by (simp add: abs_path_eq split_join_comps)

lemma plain_comps_of_good:
  "list_all good_comp (split_slash s) \<Longrightarrow> list_all plain_comp (split_slash s)"
  by (auto simp: list_all_iff plain_comp_def dest: split_slash_no_slash)

section \<open>Component resolution\<close>

lemma resolve_components_jailed: "resolve_components comps cs = resolve_jailed 0 comps cs"
  by (induction cs arbitrary: comps) simp_all

lemma resolve_jailed_append:
  "resolve_jailed d comps (xs @ ys) = resolve_jailed d (resolve_jailed d comps xs) ys"
  by (induction xs arbitrary: comps) simp_all

lemma resolve_jailed_good:
  "list_all good_comp xs \<Longrightarrow> resolve_jailed d comps xs = comps @ xs"
  by (induction xs arbitrary: comps) (simp_all add: good_comp_def)

lemma resolve_jailed_plain:
  "list_all plain_comp comps \<Longrightarrow> (\<forall>c\<in>set cs. slash \<notin> set c) \<Longrightarrow>
   list_all plain_comp (resolve_jailed d comps cs)"
proof (induction cs arbitrary: comps)
  case (Cons c cs)
  have "list_all plain_comp (butlast comps)"
    using Cons.prems(1) by (auto simp: list_all_iff dest: in_set_butlastD)
  moreover have "c \<noteq> '''' \<Longrightarrow> c \<noteq> ''.'' \<Longrightarrow> c \<noteq> ''..'' \<Longrightarrow> plain_comp c"
    using Cons.prems(2) by (simp add: plain_comp_def good_comp_def)
  ultimately show ?case using Cons by simp
qed simp

text \<open>A component stack that starts with the root's components keeps them.\<close>

lemma resolve_jailed_prefix:
  assumes "length rs = d" "take d comps = rs" "d \<le> length comps"
  shows "take d (resolve_jailed d comps cs) = rs \<and> d \<le> length (resolve_jailed d comps cs)"
  using assms(2,3)
proof (induction cs arbitrary: comps)
  case (Cons c cs)
  have "take d (butlast comps) = rs \<and> d \<le> length (butlast comps)" if "d < length comps"
    using that Cons.prems by (auto simp: take_butlast)
  with Cons show ?case by (cases "d < length comps") (simp_all add: linorder_not_less)
qed simp

section \<open>The scanner\<close>

lemma comp_end_eq:
  "i \<le> length bytes \<Longrightarrow>
   comp_end bytes i = i + length (takeWhile (\<lambda>c. c \<noteq> slash) (drop i bytes))"
proof (induction bytes i rule: comp_end.induct)
  case (1 bytes i)
  show ?case
  proof (cases "i < length bytes \<and> bytes ! i \<noteq> slash")
    case True
    then have "drop i bytes = bytes ! i # drop (Suc i) bytes" by (simp add: Cons_nth_drop_Suc)
    with 1 True show ?thesis by (subst comp_end.simps) simp
  next
    case False
    have "takeWhile (\<lambda>c. c \<noteq> slash) (drop i bytes) = []"
    proof (cases "i < length bytes")
      case True
      then have "drop i bytes = bytes ! i # drop (Suc i) bytes" by (simp add: Cons_nth_drop_Suc)
      with True False show ?thesis by simp
    qed simp
    with False show ?thesis by (subst comp_end.simps) auto
  qed
qed

text \<open>
  From a component boundary of a path without trailing slash, the scan accepts exactly the
  paths whose remaining components are all proper names.
\<close>

lemma norm_scan_eq:
  "i < length bytes \<Longrightarrow> last bytes \<noteq> slash \<Longrightarrow>
   norm_scan bytes i = list_all good_comp (split_slash (drop i bytes))"
proof (induction bytes i rule: norm_scan.induct)
  case (1 bytes i)
  define w where "w = takeWhile (\<lambda>c. c \<noteq> slash) (drop i bytes)"
  define e where "e = comp_end bytes i"
  have e: "e = i + length w" using 1 by (simp add: e_def w_def comp_end_eq)
  have wn: "w ! k = bytes ! (i + k)" if "k < length w" for k
    using that 1(2) takeWhile_nth [of k "\<lambda>c. c \<noteq> slash" "drop i bytes"] by (simp add: w_def)
  have dr: "dropWhile (\<lambda>c. c \<noteq> slash) (drop i bytes) = drop e bytes"
    by (simp add: dropWhile_eq_drop e w_def add.commute)
  have dot: "(length w = 1 \<and> bytes ! i = CHR ''.'') = (w = ''.'')"
    using wn [of 0] by (auto simp: length_Suc_conv)
  have dotdot: "(length w = 2 \<and> bytes ! i = CHR ''.'' \<and> bytes ! (i + 1) = CHR ''.'') = (w = ''..'')"
    using wn [of 0] wn [of 1] by (auto simp: numeral_2_eq_2 length_Suc_conv)
  have split: "split_slash (drop i bytes) =
      w # (case drop e bytes of [] \<Rightarrow> [] | _ # r \<Rightarrow> split_slash r)"
    using split_slash_takeWhile [of "drop i bytes"] by (simp add: w_def [symmetric] dr)
  have scan: "norm_scan bytes i =
      (good_comp w \<and> norm_scan bytes (if e < length bytes then e + 1 else e))"
    using 1(2) dot dotdot e
    by (subst norm_scan.simps) (simp add: Let_def e_def [symmetric] good_comp_def)
  show ?case
  proof (cases "good_comp w")
    case False
    then show ?thesis by (simp add: scan split)
  next
    case good: True
    show ?thesis
    proof (cases "e < length bytes")
      case True
      then have de: "drop e bytes = bytes ! e # drop (e + 1) bytes" by (simp add: Cons_nth_drop_Suc)
      have sl: "bytes ! e = slash"
        using hd_dropWhile [of "\<lambda>c. c \<noteq> slash" "drop i bytes"] True by (simp add: dr de)
      have "bytes \<noteq> []" using True by auto
      then have "last bytes = bytes ! (length bytes - 1)" by (rule last_conv_nth)
      then have "e + 1 \<noteq> length bytes" using sl 1(3) by (metis Suc_eq_plus1 diff_Suc_1)
      then have lt: "e + 1 < length bytes" using True by simp
      have c1: "e - i \<noteq> 0" using good e by (simp add: good_comp_def)
      have c2: "\<not> (e - i = 1 \<and> bytes ! i = CHR ''.'')" using good e dot by (simp add: good_comp_def)
      have c3: "\<not> (e - i = 2 \<and> bytes ! i = CHR ''.'' \<and> bytes ! (i + 1) = CHR ''.'')"
        using good e dotdot by (simp add: good_comp_def)
      have "norm_scan bytes (e + 1) = list_all good_comp (split_slash (drop (e + 1) bytes))"
        using 1(1) [OF 1(2) refl refl refl] c1 c2 c3 lt True 1(3)
        by (simp add: e_def [symmetric])
      then show ?thesis using True good by (simp add: scan split de)
    next
      case False
      have "norm_scan bytes e" using False by (subst norm_scan.simps) simp
      then show ?thesis using False good by (simp add: scan split)
    qed
  qed
qed

text \<open>The components of a path as the scanner sees them: below the leading slash, if any.\<close>

definition path_components :: "string \<Rightarrow> string list" where
  "path_components p = split_slash (if starts_with_slash p then tl p else p)"

lemma good_split_last:
  assumes "list_all good_comp (split_slash s)"
  shows "s \<noteq> [] \<and> last s \<noteq> slash"
proof -
  have "s \<noteq> []" using assms by (auto simp: good_comp_def)
  moreover have "last s \<noteq> slash"
  proof
    assume "last s = slash"
    then have "s = butlast s @ [slash]" using \<open>s \<noteq> []\<close> by (metis append_butlast_last_id)
    then have "split_slash s = split_slash (butlast s) @ [[]]"
      by (metis split_slash.simps(1) split_slash_sep)
    with assms show False by (simp add: good_comp_def)
  qed
  ultimately show ?thesis by simp
qed

lemma is_normalized_components:
  "is_normalized p \<longleftrightarrow> p = ''/'' \<or> list_all good_comp (path_components p)"
proof (cases "p = [] \<or> p = ''/''")
  case True
  then show ?thesis
    by (auto simp: is_normalized_def path_components_def starts_with_slash_def good_comp_def)
next
  case False
  then have ne: "p \<noteq> []" "p \<noteq> ''/''" by auto
  define i where "i = (if starts_with_slash p then 1 else 0 :: nat)"
  define s where "s = drop i p"
  have s: "path_components p = split_slash s"
    by (simp add: path_components_def s_def i_def drop_Suc)
  have sne: "i < length p"
    using ne by (cases p) (auto simp: i_def starts_with_slash_def)
  have last: "last s = last p" using sne by (simp add: s_def last_drop)
  have idx: "(if p ! 0 = slash then 1 else 0) = i"
    using ne by (cases p) (auto simp: i_def starts_with_slash_def)
  have lp: "p ! (length p - 1) = last p" using ne by (simp add: last_conv_nth)
  have one: "length p > 1 \<or> p ! 0 \<noteq> slash" using sne idx by (auto split: if_splits)
  have len: "length p > 1 \<or> last p = p ! 0" using ne by (cases p) auto
  have norm: "is_normalized p = (\<not> (length p > 1 \<and> last p = slash) \<and> norm_scan p i)"
    using ne lp idx by (simp add: is_normalized_def Let_def)
  show ?thesis
  proof (cases "last p = slash")
    case True
    then have "length p > 1" using one len by auto
    moreover have "\<not> list_all good_comp (split_slash s)"
      using good_split_last [of s] True last by auto
    ultimately show ?thesis using True ne norm s by simp
  next
    case False
    then have "norm_scan p i = list_all good_comp (split_slash s)"
      using norm_scan_eq [OF sne] by (simp add: s_def)
    then show ?thesis using False ne norm s by simp
  qed
qed

section \<open>Normalisation\<close>

lemma resolve_split_plain:
  "list_all plain_comp (resolve_jailed d [] (split_slash p))"
  by (rule resolve_jailed_plain) (auto dest: split_slash_no_slash)

lemma starts_with_slash_iff: "starts_with_slash p \<longleftrightarrow> (\<exists>s. p = slash # s)"
  by (cases p) (auto simp: starts_with_slash_def)

lemma normalize_slow_eq:
  "normalize_slow p =
     (let cs = resolve_jailed 0 [] (split_slash p)
      in if starts_with_slash p \<or> cs = [] then abs_path cs else join_comps cs)"
proof -
  have "join_comps cs \<noteq> []" if "cs \<noteq> []" "list_all plain_comp cs" for cs
    using that by (cases cs) (auto simp: plain_comp_def good_comp_def)
  then show ?thesis
    using resolve_split_plain [of 0 p]
    by (auto simp: normalize_slow_def Let_def push_components_0 resolve_components_jailed
        abs_path_eq starts_with_slash_def split: list.splits)
qed

lemma path_components_abs:
  "list_all plain_comp cs \<Longrightarrow> cs \<noteq> [] \<Longrightarrow> path_components (abs_path cs) = cs"
  by (simp add: path_components_def abs_path_eq starts_with_slash_def split_join_comps)

lemma join_comps_start:
  assumes "list_all plain_comp cs"
  shows "\<not> starts_with_slash (join_comps cs)"
proof (cases cs)
  case (Cons c cs')
  with assms have "c \<noteq> []" "slash \<notin> set c" by (auto simp: plain_comp_def good_comp_def)
  then show ?thesis using Cons by (cases c) (auto simp: starts_with_slash_def)
qed (simp add: starts_with_slash_def)

lemma path_components_rel:
  "list_all plain_comp cs \<Longrightarrow> cs \<noteq> [] \<Longrightarrow> path_components (join_comps cs) = cs"
  by (simp add: path_components_def join_comps_start split_join_comps)

lemma plain_good: "list_all plain_comp cs \<Longrightarrow> list_all good_comp cs"
  by (auto simp: list_all_iff plain_comp_def)

lemma abs_path_normalized: "list_all plain_comp cs \<Longrightarrow> is_normalized (abs_path cs)"
  by (cases "cs = []")
    (auto simp: is_normalized_components path_components_abs plain_good, simp add: abs_path_eq)

lemma join_comps_normalized: "list_all plain_comp cs \<Longrightarrow> cs \<noteq> [] \<Longrightarrow> is_normalized (join_comps cs)"
  by (simp add: is_normalized_components path_components_rel plain_good)

lemma normalize_slow_normalized: "is_normalized (normalize_slow p)"
  using resolve_split_plain [of 0 p]
  by (simp add: normalize_slow_eq Let_def abs_path_normalized join_comps_normalized)

text \<open>On a path the scanner accepts, the slow path changes nothing.\<close>

lemma normalize_slow_id:
  assumes "is_normalized p"
  shows "normalize_slow p = p"
proof (cases "p = ''/''")
  case True
  then show ?thesis by (simp add: normalize_slow_def)
next
  case False
  define s where "s = (if starts_with_slash p then tl p else p)"
  have good: "list_all good_comp (split_slash s)"
    using assms False by (simp add: is_normalized_components path_components_def s_def)
  have p: "p = (if starts_with_slash p then slash # s else s)"
    by (auto simp: s_def starts_with_slash_iff)
  have sp: "split_slash p = (if starts_with_slash p then [[]] else []) @ split_slash s"
    by (cases p) (auto simp: s_def starts_with_slash_def)
  have "resolve_jailed 0 [] (split_slash p) = split_slash s"
    using good by (simp add: sp resolve_jailed_append resolve_jailed_good)
  then show ?thesis
    using p by (auto simp: normalize_slow_eq Let_def abs_path_eq join_split)
qed

lemma normalize_eq_slow: "normalize p = normalize_slow p"
  by (simp add: normalize_def normalize_slow_id)

lemma normalize_normalized: "is_normalized (normalize p)"
  by (simp add: normalize_eq_slow normalize_slow_normalized)

text \<open>An absolute path normalises to the absolute path of its resolved components.\<close>

lemma normalize_abs:
  "starts_with_slash p \<Longrightarrow> normalize p = abs_path (resolve_jailed 0 [] (split_slash p))"
  by (simp add: normalize_eq_slow normalize_slow_eq Let_def)

lemma abs_path_starts [simp]: "starts_with_slash (abs_path cs)"
  by (simp add: abs_path_eq starts_with_slash_def)

section \<open>Jailed normalisation\<close>

lemma root_parts_abs: "list_all plain_comp cs \<Longrightarrow> root_parts (abs_path cs) = cs"
  by (auto simp: root_parts_def split_abs_path plain_comp_def good_comp_def list_all_iff filter_id_conv)

lemma normalize_jailed_below:
  assumes rs: "list_all plain_comp rs"
    and start: "split_slash path = [] # rs @ cs"
  shows "\<exists>more. normalize_jailed path (abs_path rs) = abs_path (rs @ more) \<and> list_all plain_comp more"
proof -
  let ?d = "length rs"
  define out where "out = resolve_jailed ?d [] (split_slash path)"
  have "out = resolve_jailed ?d rs cs"
    using rs by (simp add: out_def start resolve_jailed_append resolve_jailed_good plain_good)
  then have pre: "take ?d out = rs" "?d \<le> length out"
    using resolve_jailed_prefix [of rs ?d rs cs] by auto
  then have "out = rs @ drop ?d out" by (metis append_take_drop_id)
  moreover have "list_all plain_comp out" unfolding out_def by (rule resolve_split_plain)
  moreover have "normalize_jailed path (abs_path rs) = abs_path out"
    using pre root_parts_abs [OF rs]
    by (simp add: normalize_jailed_def Let_def out_def [symmetric] linorder_not_less abs_path_def [symmetric])
  ultimately show ?thesis by (metis list_all_append)
qed

section \<open>Directory and base name\<close>

lemma rfind_slash_append:
  assumes "slash \<notin> set b"
  shows "rfind_slash (d @ slash # b) = Some (length d)"
proof -
  have all: "\<forall>c\<in>set (rev b). c \<noteq> slash" using assms by auto
  have "takeWhile (\<lambda>c. c \<noteq> slash) (rev (d @ slash # b)) =
      takeWhile (\<lambda>c. c \<noteq> slash) (rev b @ slash # rev d)" by simp
  also have "\<dots> = rev b" by (subst takeWhile_append2) (use all in simp_all)
  finally have "takeWhile (\<lambda>c. c \<noteq> slash) (rev (d @ slash # b)) = rev b" .
  then show ?thesis by (simp add: rfind_slash_def)
qed

lemma split_path_append:
  assumes "slash \<notin> set b"
  shows "split_path (d @ slash # b) = (if d = [] then ''/'' else d, b)"
    and "dirname (d @ slash # b) = (if d = [] then ''/'' else d)"
    and "basename (d @ slash # b) = b"
  using rfind_slash_append [OF assms, of d]
  by (simp_all add: split_path_def dirname_def basename_def)

lemma split_last_slash:
  "slash \<in> set p \<Longrightarrow> \<exists>d b. p = d @ slash # b \<and> slash \<notin> set b"
  by (blast dest: split_list_last)

lemma normalized_split:
  assumes "is_normalized (d @ slash # b)" "d \<noteq> []" "slash \<notin> set b"
  shows "last d \<noteq> slash \<and> is_normalized d"
proof -
  have sw: "starts_with_slash (d @ slash # b) = starts_with_slash d"
    using assms(2) by (cases d) (auto simp: starts_with_slash_def)
  have "d @ slash # b \<noteq> ''/''" using assms(2) by (cases d) auto
  then have good: "list_all good_comp (path_components (d @ slash # b))"
    using assms(1) by (simp add: is_normalized_components)
  have "path_components (d @ slash # b) = path_components d @ [b]"
  proof (cases "starts_with_slash d")
    case True
    then show ?thesis
      using sw assms(2,3) by (cases d) (simp_all add: path_components_def split_slash_sep split_slash_plain)
  next
    case False
    then show ?thesis
      using sw assms(3) split_slash_sep [of d b] by (simp add: path_components_def split_slash_plain)
  qed
  with good have d: "list_all good_comp (path_components d)" by simp
  then have "last d \<noteq> slash"
    using good_split_last [of "if starts_with_slash d then tl d else d"] assms(2)
    by (cases d) (auto simp: path_components_def split: if_splits)
  with d show ?thesis by (simp add: is_normalized_components)
qed

section \<open>Properties\<close>

text \<open>
  The byte scanner \<open>is_normalized\<close> accepts a path exactly if it is \<open>/\<close> or every component
  after an optional leading slash is a proper name: not empty (no repeated and no trailing
  slash), not \<open>.\<close> and not \<open>..\<close>.
\<close>

theorem is_normalized_iff:
  "is_normalized p \<longleftrightarrow>
     p = ''/'' \<or> list_all good_comp (split_slash (if starts_with_slash p then tl p else p))"
  using is_normalized_components [of p] by (simp add: path_components_def)

text \<open>
  C29. \<open>normalize\<close> with its zero-copy fast path computes the plain resolution of the
  components (\<open>.\<close> and empty ones dropped, \<open>..\<close> pops), printed as an absolute path exactly when
  the input is absolute or nothing is left; its result always passes the scanner and is a
  fixed point.
\<close>

theorem normalize_correct:
  "normalize p =
     (let cs = resolve_components [] (split_slash p)
      in if starts_with_slash p \<or> cs = [] then abs_path cs else join_comps cs) \<and>
   is_normalized (normalize p) \<and> normalize (normalize p) = normalize p"
  by (simp add: normalize_normalized) (simp add: normalize_def normalize_slow_normalized
      normalize_slow_id normalize_slow_eq [symmetric] resolve_components_jailed)

text \<open>
  For a normalised path with a slash, other than the root, \<open>split_path\<close> gives \<open>dirname\<close> and
  \<open>basename\<close>; the directory is again normalised, the base name has no slash, and \<open>join\<close> puts
  the two back together to the same path.
\<close>

theorem split_join_roundtrip:
  assumes "is_normalized p" "slash \<in> set p" "p \<noteq> ''/''"
  shows "split_path p = (dirname p, basename p) \<and> is_normalized (dirname p) \<and>
         slash \<notin> set (basename p) \<and> join_path (dirname p) (basename p) = p"
proof -
  obtain d b where p: "p = d @ slash # b" and b: "slash \<notin> set b"
    using split_last_slash [OF assms(2)] by blast
  have nb: "\<not> starts_with_slash b" using b by (cases b) (auto simp: starts_with_slash_def)
  show ?thesis
  proof (cases "d = []")
    case True
    then show ?thesis
      using p b nb split_path_append [of b "[]"]
      by (simp add: join_path_def ends_with_slash_def is_normalized_components)
  next
    case False
    then show ?thesis
      using p b nb normalized_split [of d b] assms(1)
      by (simp add: split_path_append join_path_def ends_with_slash_def)
  qed
qed

theorem split_join_roundtrip_witness:
  "is_normalized ''/usr/lib/ld.so'' \<and>
   join_path (dirname ''/usr/lib/ld.so'') (basename ''/usr/lib/ld.so'') = ''/usr/lib/ld.so''"
proof -
  have n: "is_normalized ''/usr/lib/ld.so''"
    by (simp add: is_normalized_components path_components_def starts_with_slash_def good_comp_def)
  with split_join_roundtrip [of "''/usr/lib/ld.so''"] show ?thesis by simp
qed

end
