(* ===== verification/Errno.thy ===== *)
theory Errno
  imports Kernel_Prelude
begin

text \<open>
  The kernel's error numbers (\<open>Errno\<close> in \<open>syscall/mod.rs\<close>) and their conversion to the
  \<open>i64\<close> that a system call returns. A fallible operation of the model returns a value of type
  \<open>errno + 'a\<close>, with the error on the left.
\<close>

datatype errno =
    EPERM | ENOENT | ESRCH | EINTR | EIO | ENXIO | E2BIG | EBADF | ECHILD | EAGAIN | ENOMEM
  | EACCES | EFAULT | EEXIST | EXDEV | ENOTDIR | EISDIR | EINVAL | EMFILE | EFBIG | ENOSPC
  | ESPIPE | EROFS | ENOSYS | ENOTEMPTY | ENOEXEC | ELOOP | ENOTSOCK | EDESTADDRREQ
  | ENETUNREACH | EISCONN | ENOTCONN | ECONNREFUSED | ETIMEDOUT | EBUSY | ENODEV | ENOMSG
  | EOPNOTSUPP | EAFNOSUPPORT | ENOKEY

type_synonym 'a result = "errno + 'a"

type_synonym syscall_result = int

text \<open>\<open>impl From<Errno> for SyscallResult\<close>: the discriminants of the enum.\<close>

fun errno_code :: "errno \<Rightarrow> syscall_result" where
  "errno_code EPERM = -1"
| "errno_code ENOENT = -2"
| "errno_code ESRCH = -3"
| "errno_code EINTR = -4"
| "errno_code EIO = -5"
| "errno_code ENXIO = -6"
| "errno_code E2BIG = -7"
| "errno_code EBADF = -9"
| "errno_code ECHILD = -10"
| "errno_code EAGAIN = -11"
| "errno_code ENOMEM = -12"
| "errno_code EACCES = -13"
| "errno_code EFAULT = -14"
| "errno_code EEXIST = -17"
| "errno_code EXDEV = -18"
| "errno_code ENOTDIR = -20"
| "errno_code EISDIR = -21"
| "errno_code EINVAL = -22"
| "errno_code EMFILE = -24"
| "errno_code EFBIG = -27"
| "errno_code ENOSPC = -28"
| "errno_code ESPIPE = -29"
| "errno_code EROFS = -30"
| "errno_code ENOSYS = -38"
| "errno_code ENOTEMPTY = -39"
| "errno_code ENOEXEC = -8"
| "errno_code ELOOP = -40"
| "errno_code ENOTSOCK = -88"
| "errno_code EDESTADDRREQ = -89"
| "errno_code ENETUNREACH = -101"
| "errno_code EISCONN = -106"
| "errno_code ENOTCONN = -107"
| "errno_code ECONNREFUSED = -111"
| "errno_code ETIMEDOUT = -110"
| "errno_code EBUSY = -16"
| "errno_code ENODEV = -19"
| "errno_code ENOMSG = -42"
| "errno_code EOPNOTSUPP = -95"
| "errno_code EAFNOSUPPORT = -97"
| "errno_code ENOKEY = -126"

text \<open>Every error is a negative result, so no error collides with a successful return.\<close>

lemma errno_code_neg: "errno_code e < 0"
  by (cases e) simp_all

lemma errno_code_range: "- 4095 \<le> errno_code e"
  by (cases e) simp_all

lemma errno_code_nonzero [simp]: "errno_code e \<noteq> 0"
  using errno_code_neg [of e] by simp

text \<open>Distinct errors have distinct codes.\<close>

lemma errno_code_inj: "errno_code e = errno_code f \<Longrightarrow> e = f"
  by (cases e; cases f; simp)

end
