(* ===== verification/Inode.thy ===== *)
theory Inode
  imports Errno
begin

text \<open>
  Inode metadata and the discretionary permission check of \<open>fs/inode.rs\<close>: the file types,
  the mode bits, \<open>Inode::new\<close>, and \<open>check_permission\<close> on the effective credentials. The
  theory shows which of the nine permission bits decide each request.
\<close>

section \<open>Metadata\<close>

datatype file_type = Regular | Directory | CharDevice | BlockDevice | Pipe | Symlink | Socket

record file_permissions =
  mode :: u16

definition default_dir :: file_permissions where
  "default_dir = \<lparr> mode = 0x1ED \<rparr>"  \<comment> \<open>0o755\<close>

definition default_file :: file_permissions where
  "default_file = \<lparr> mode = 0x1A4 \<rparr>"  \<comment> \<open>0o644\<close>

definition owner_read :: "file_permissions \<Rightarrow> bool" where
  "owner_read p = (mode p AND 0x100 \<noteq> 0)"

definition owner_write :: "file_permissions \<Rightarrow> bool" where
  "owner_write p = (mode p AND 0x80 \<noteq> 0)"

definition owner_exec :: "file_permissions \<Rightarrow> bool" where
  "owner_exec p = (mode p AND 0x40 \<noteq> 0)"

record inode =
  ino :: u64
  ftype :: file_type
  permissions :: file_permissions
  nlink :: u32
  uid :: u32
  gid :: u32
  isize :: u64
  blocks :: u64
  atime :: u64
  mtime :: u64
  ctime :: u64
  rdev :: u64
  dev :: u64

definition inode_new :: "u64 \<Rightarrow> file_type \<Rightarrow> inode" where
  "inode_new i ft =
     (let perms = (case ft of Directory \<Rightarrow> default_dir | _ \<Rightarrow> default_file)
      in \<lparr> ino = i, ftype = ft, permissions = perms, nlink = 1, uid = 0, gid = 0, isize = 0,
           blocks = 0, atime = 0, mtime = 0, ctime = 0, rdev = 0, dev = 0 \<rparr>)"

definition with_dev :: "inode \<Rightarrow> u64 \<Rightarrow> inode" where
  "with_dev i d = i\<lparr> dev := d \<rparr>"

definition is_dir :: "inode \<Rightarrow> bool" where
  "is_dir i = (ftype i = Directory)"

definition is_file :: "inode \<Rightarrow> bool" where
  "is_file i = (ftype i = Regular)"

definition MAY_EXEC :: u16 where "MAY_EXEC = 0x40"    \<comment> \<open>0o100\<close>

definition MAY_WRITE :: u16 where "MAY_WRITE = 0x80"  \<comment> \<open>0o200\<close>

definition MAY_READ :: u16 where "MAY_READ = 0x100"   \<comment> \<open>0o400\<close>

definition POLLIN :: u32 where "POLLIN = 0x0001"

definition POLLOUT :: u32 where "POLLOUT = 0x0004"

definition POLLERR :: u32 where "POLLERR = 0x0008"

definition POLLHUP :: u32 where "POLLHUP = 0x0010"

section \<open>The permission check\<close>

definition check_permission_with_creds :: "inode \<Rightarrow> u16 \<Rightarrow> u32 \<Rightarrow> u32 \<Rightarrow> unit result" where
  "check_permission_with_creds i req euid egid =
     (if euid = 0 then
        (if req AND MAY_EXEC \<noteq> 0 \<and> ftype i = Regular \<and> mode (permissions i) AND 0x49 = 0
         then Inl EACCES else Inr ())
      else if euid = uid i then
        (if mode (permissions i) AND req = req then Inr () else Inl EACCES)
      else if egid = gid i then
        (if push_bit 3 (mode (permissions i)) AND req = req then Inr () else Inl EACCES)
      else
        (if push_bit 6 (mode (permissions i)) AND req = req then Inr () else Inl EACCES))"

section \<open>Lemmas\<close>

text \<open>A shifted mode contains the mask exactly if it has the mask's bits, shifted back.\<close>

lemma push_bit_and_mask:
  fixes m req :: u16
  shows "push_bit s m AND req = req \<longleftrightarrow>
    (\<forall>n < 16. bit req n \<longrightarrow> s \<le> n \<and> bit m (n - s))"
proof -
  have "push_bit s m AND req = req \<longleftrightarrow> (\<forall>n < 16. bit (push_bit s m AND req) n = bit req n)"
    by (auto intro: bit_word_eqI)
  also have "\<dots> \<longleftrightarrow> (\<forall>n < 16. bit req n \<longrightarrow> s \<le> n \<and> bit m (n - s))"
    by (auto simp: bit_simps)
  finally show ?thesis .
qed

lemma mask_bits_only:
  fixes req :: u16
  assumes "req AND 0x1C0 = req" "bit req n"
  shows "n = 6 \<or> n = 7 \<or> n = 8"
proof -
  have "bit (req AND 0x1C0) n" using assms by simp
  then have "bit (0x1C0 :: u16) n" by (simp add: bit_and_iff)
  moreover from this have "n < 16" using bit_imp_le_length [of "0x1C0 :: u16" n] by simp
  then have "n \<in> set [0..<16]" by simp
  ultimately show ?thesis by (auto simp: upt_rec)
qed

lemma perm_bits:
  fixes req m :: u16
  assumes "req AND 0x1C0 = req" "s \<le> 6"
  shows "push_bit s m AND req = req \<longleftrightarrow> (\<forall>b \<in> {6, 7, 8}. bit req b \<longrightarrow> bit m (b - s))"
proof -
  have "s \<le> b \<and> (b = 6 \<or> b = 7 \<or> b = 8)" if "bit req b" for b
    using mask_bits_only [OF assms(1) that] assms(2) by auto
  then show ?thesis unfolding push_bit_and_mask by auto
qed

text \<open>The position of the permission class that decides a request, as a shift.\<close>

definition perm_class :: "inode \<Rightarrow> u32 \<Rightarrow> u32 \<Rightarrow> nat" where
  "perm_class i euid egid = (if euid = uid i then 0 else if egid = gid i then 3 else 6)"

lemma perm_class_le: "perm_class i euid egid \<le> 6"
  by (simp add: perm_class_def)

lemma check_permission_class:
  "euid \<noteq> 0 \<Longrightarrow> check_permission_with_creds i req euid egid =
    (if push_bit (perm_class i euid egid) (mode (permissions i)) AND req = req
     then Inr () else Inl EACCES)"
  by (simp add: check_permission_with_creds_def perm_class_def)

section \<open>Properties\<close>

text \<open>
  C30. For a caller other than root and a request made of read, write and execute bits, the
  check grants access exactly if the one class of the nine mode bits that applies to the
  caller (owner, else group, else others) has every requested bit; otherwise it fails with
  \<open>EACCES\<close>. An owner without a bit is refused even if the group or others have it.
\<close>

theorem permission_class_decides:
  assumes "euid \<noteq> 0" "req AND 0x1C0 = req"
  shows "check_permission_with_creds i req euid egid =
    (if \<forall>b \<in> {6, 7, 8}. bit req b \<longrightarrow> bit (mode (permissions i)) (b - perm_class i euid egid)
     then Inr () else Inl EACCES)"
  unfolding check_permission_class [OF assms(1)]
  by (simp only: perm_bits [OF assms(2) perm_class_le])

theorem permission_class_decides_witness:
  "check_permission_with_creds (inode_new 7 Directory\<lparr> uid := 5 \<rparr>) (MAY_READ OR MAY_EXEC) 9 9 = Inr () \<and>
   check_permission_with_creds (inode_new 7 Directory\<lparr> uid := 5 \<rparr>) MAY_WRITE 9 9 = Inl EACCES"
  using permission_class_decides [of 9 "MAY_READ OR MAY_EXEC" "inode_new 7 Directory\<lparr> uid := 5 \<rparr>" 9]
    permission_class_decides [of 9 "MAY_WRITE" "inode_new 7 Directory\<lparr> uid := 5 \<rparr>" 9]
  by (simp add: MAY_READ_def MAY_EXEC_def MAY_WRITE_def inode_new_def default_dir_def perm_class_def)

end
