(* ===== verification/Fs_Context.thy ===== *)
theory Fs_Context
  imports Path Inode
begin

text \<open>
  The per-task file system context: \<open>FsContext\<close> and \<open>MountNamespace\<close> of
  \<open>fs/namespace.rs\<close>, path resolution against it (\<open>resolve_relative_path\<close> in
  \<open>fs/vfs.rs\<close>, \<open>with_current_fs_ctx\<close> in \<open>process/scheduler.rs\<close>) and the system calls
  that change it (\<open>chroot\<close>, \<open>chdir\<close>, \<open>fchdir\<close>, \<open>pivot_root\<close>, the inheritance in
  \<open>fork\<close> and \<open>clone\<close>, and the switch of the current context). Contexts are shared between
  tasks through an explicit store, as the code shares them through an \<open>Arc\<close>. The inode
  lookup of the file systems is an argument. The theory shows that no sequence of the
  modelled calls lets a path resolve outside the jail root of its context.
\<close>

section \<open>State\<close>

record mount_namespace =
  ns_id :: u64
  mounts :: "string \<rightharpoonup> nat"  \<comment> \<open>mount point to file system instance\<close>

record fs_context =
  cwd :: string
  root :: string
  mount_ns :: nat  \<comment> \<open>address in the store of namespaces\<close>

record fs_task =
  euid :: u32
  egid :: u32
  task_cwd :: string
  fs_ctx :: nat  \<comment> \<open>address in the store of contexts\<close>

record fs_world =
  tasks :: "nat \<rightharpoonup> fs_task"
  ctxs :: "nat \<Rightarrow> fs_context"
  next_ctx :: nat
  nss :: "nat \<Rightarrow> mount_namespace"
  next_ns :: nat
  next_ns_id :: u64  \<comment> \<open>\<open>NEXT_NS_ID\<close>\<close>
  initial_ns :: nat  \<comment> \<open>\<open>INITIAL_MOUNT_NS\<close>\<close>
  current_pid :: "nat \<Rightarrow> nat option"      \<comment> \<open>per core\<close>
  current_fs_ctx :: "nat \<Rightarrow> nat option"   \<comment> \<open>\<open>CURRENT_FS_CTX\<close>, per core\<close>

definition new_initial :: "nat \<Rightarrow> fs_context" where
  "new_initial ns = \<lparr> cwd = ''/'', root = ''/'', mount_ns = ns \<rparr>"

definition fs_context_new :: "string \<Rightarrow> string \<Rightarrow> nat \<Rightarrow> fs_context" where
  "fs_context_new c r ns = \<lparr> cwd = c, root = r, mount_ns = ns \<rparr>"

definition fs_context_fork :: "fs_context \<Rightarrow> fs_context" where
  "fs_context_fork ctx = \<lparr> cwd = cwd ctx, root = root ctx, mount_ns = mount_ns ctx \<rparr>"

text \<open>\<open>MountNamespace::fork\<close> with \<open>alloc_ns_id\<close>, allocating the copy in the store.\<close>

definition mount_namespace_fork :: "nat \<Rightarrow> fs_world \<Rightarrow> nat \<times> fs_world" where
  "mount_namespace_fork a w =
     (next_ns w,
      w\<lparr> nss := (nss w)(next_ns w := \<lparr> ns_id = next_ns_id w, mounts = mounts (nss w a) \<rparr>),
         next_ns := next_ns w + 1, next_ns_id := next_ns_id w + 1 \<rparr>)"

text \<open>\<open>Arc::new(RwLock::new(ctx))\<close>.\<close>

definition alloc_ctx :: "fs_context \<Rightarrow> fs_world \<Rightarrow> nat \<times> fs_world" where
  "alloc_ctx ctx w = (next_ctx w, w\<lparr> ctxs := (ctxs w)(next_ctx w := ctx), next_ctx := next_ctx w + 1 \<rparr>)"

section \<open>Path resolution\<close>

text \<open>\<open>path.starts_with(prefix)\<close>.\<close>

definition starts_with :: "string \<Rightarrow> string \<Rightarrow> bool" where
  "starts_with path prefix = (take (length prefix) path = prefix)"

definition is_prefixed :: "string \<Rightarrow> string \<Rightarrow> bool" where
  "is_prefixed path jail_root \<longleftrightarrow>
     path = jail_root \<or>
     starts_with path jail_root \<and>
       (ends_with_slash jail_root \<or> starts_with_slash (drop (length jail_root) path))"

definition resolve_inner :: "string \<Rightarrow> string \<Rightarrow> string \<Rightarrow> string" where
  "resolve_inner path wd jail_root =
     (if jail_root = ''/'' then
        if starts_with_slash path then normalize path
        else if wd = ''/'' then
          if is_normalized path then slash # path else normalize (join_path wd path)
        else if is_normalized path then
          (let extra = (if ends_with_slash wd then 0 else 1 :: nat)
           in (if extra = 1 then wd @ [slash] else wd) @ path)
        else normalize (join_path wd path)
      else if is_prefixed path jail_root then normalize_jailed path jail_root
      else
        let full_path = (if starts_with_slash path
                         then if path = ''/'' then jail_root else jail_root @ path
                         else join_path wd path)
        in normalize_jailed full_path jail_root)"

text \<open>
  \<open>with_current_fs_ctx\<close> reads the context of the calling core; \<open>core_id\<close> is the local APIC
  id modulo 32.
\<close>

definition resolve_relative_path :: "fs_world \<Rightarrow> nat \<Rightarrow> string \<Rightarrow> string" where
  "resolve_relative_path w core path =
     (case current_fs_ctx w (core mod 32) of
        Some a \<Rightarrow> resolve_inner path (cwd (ctxs w a)) (root (ctxs w a))
      | None \<Rightarrow> resolve_inner path ''/'' ''/'')"

text \<open>A directory descriptor: its inode and the path it was opened with.\<close>

type_synonym dir_desc = "inode \<times> string option"

definition resolve_relative_path_at ::
  "fs_world \<Rightarrow> nat \<Rightarrow> (int \<Rightarrow> dir_desc option) \<Rightarrow> int \<Rightarrow> string \<Rightarrow> string result" where
  "resolve_relative_path_at w core fds dfd path =
     (if starts_with_slash path \<or> dfd = -100 then Inr (resolve_relative_path w core path)
      else case fds dfd of
        None \<Rightarrow> Inl EBADF
      | Some (i, desc_path) \<Rightarrow>
          if ftype i \<noteq> Directory then Inl ENOTDIR
          else let dp = (case desc_path of Some p \<Rightarrow> p | None \<Rightarrow> ''/'');
                   joined = join_path dp path
               in Inr (resolve_relative_path w core joined))"

section \<open>System calls\<close>

definition get_task :: "fs_world \<Rightarrow> nat \<Rightarrow> fs_task option" where
  "get_task w pid = tasks w pid"

definition current_credentials :: "fs_world \<Rightarrow> nat \<Rightarrow> u32 \<times> u32" where
  "current_credentials w core =
     (case current_pid w core of
        Some pid \<Rightarrow> (case get_task w pid of Some t \<Rightarrow> (euid t, egid t) | None \<Rightarrow> (0, 0))
      | None \<Rightarrow> (0, 0))"

definition check_permission :: "fs_world \<Rightarrow> nat \<Rightarrow> inode \<Rightarrow> u16 \<Rightarrow> unit result" where
  "check_permission w core i req =
     (case current_credentials w core of (eu, eg) \<Rightarrow> check_permission_with_creds i req eu eg)"

text \<open>The assignments to \<open>fs_ctx.root\<close>, \<open>fs_ctx.cwd\<close> and \<open>task.cwd\<close> under the task lock.\<close>

definition set_cwd :: "nat \<Rightarrow> fs_task \<Rightarrow> string \<Rightarrow> fs_world \<Rightarrow> fs_world" where
  "set_cwd pid t p w =
     w\<lparr> ctxs := (ctxs w)(fs_ctx t := (ctxs w (fs_ctx t))\<lparr> cwd := p \<rparr>),
        tasks := (tasks w)(pid \<mapsto> t\<lparr> task_cwd := p \<rparr>) \<rparr>"

definition set_root :: "fs_task \<Rightarrow> string \<Rightarrow> fs_world \<Rightarrow> fs_world" where
  "set_root t p w = w\<lparr> ctxs := (ctxs w)(fs_ctx t := (ctxs w (fs_ctx t))\<lparr> root := p \<rparr>) \<rparr>"

text \<open>
  The path argument is the result of \<open>copy_string_from_user\<close>; \<open>look\<close> is the inode lookup of
  the file systems below the resolved path.
\<close>

definition sys_chroot ::
  "(string \<Rightarrow> inode option) \<Rightarrow> nat \<Rightarrow> string option \<Rightarrow> fs_world \<Rightarrow> syscall_result \<times> fs_world" where
  "sys_chroot look core path_arg w =
     (case current_pid w core of
        None \<Rightarrow> (errno_code ESRCH, w)
      | Some pid \<Rightarrow>
          if (case get_task w pid of Some t \<Rightarrow> euid t \<noteq> 0 | None \<Rightarrow> False) then (errno_code EPERM, w)
          else case path_arg of
            None \<Rightarrow> (errno_code EFAULT, w)
          | Some path \<Rightarrow>
              let resolved = resolve_relative_path w core path in
              case look resolved of
                None \<Rightarrow> (errno_code ENOENT, w)
              | Some i \<Rightarrow>
                  if \<not> is_dir i then (errno_code ENOTDIR, w)
                  else case check_permission w core i MAY_EXEC of
                    Inl e \<Rightarrow> (errno_code e, w)
                  | Inr _ \<Rightarrow>
                      (0, case get_task w pid of
                            Some t \<Rightarrow> set_cwd pid t resolved (set_root t resolved w)
                          | None \<Rightarrow> w))"

definition sys_chdir ::
  "(string \<Rightarrow> inode option) \<Rightarrow> nat \<Rightarrow> string option \<Rightarrow> fs_world \<Rightarrow> syscall_result \<times> fs_world" where
  "sys_chdir look core path_arg w =
     (case path_arg of
        None \<Rightarrow> (errno_code EFAULT, w)
      | Some raw_path \<Rightarrow>
          let resolved_path = resolve_relative_path w core raw_path in
          case look resolved_path of
            None \<Rightarrow> (errno_code ENOENT, w)
          | Some i \<Rightarrow>
              if \<not> is_dir i then (errno_code ENOTDIR, w)
              else case check_permission w core i MAY_EXEC of
                Inl e \<Rightarrow> (errno_code e, w)
              | Inr _ \<Rightarrow>
                  (case current_pid w core of
                     None \<Rightarrow> (errno_code ESRCH, w)
                   | Some pid \<Rightarrow>
                       (case get_task w pid of
                          None \<Rightarrow> (errno_code ESRCH, w)
                        | Some t \<Rightarrow> (0, set_cwd pid t resolved_path w))))"

definition sys_fchdir ::
  "(int \<Rightarrow> dir_desc option) \<Rightarrow> nat \<Rightarrow> int \<Rightarrow> fs_world \<Rightarrow> syscall_result \<times> fs_world" where
  "sys_fchdir fds core fd w =
     (if fd < 0 then (errno_code EBADF, w)
      else case fds fd of
        None \<Rightarrow> (errno_code EBADF, w)
      | Some (i, desc_path) \<Rightarrow>
          if \<not> is_dir i then (errno_code ENOTDIR, w)
          else case check_permission w core i MAY_EXEC of
            Inl e \<Rightarrow> (errno_code e, w)
          | Inr _ \<Rightarrow>
              (case desc_path of
                 None \<Rightarrow> (0, w)
               | Some path \<Rightarrow>
                   (case current_pid w core of
                      None \<Rightarrow> (errno_code ESRCH, w)
                    | Some pid \<Rightarrow>
                        (0, case get_task w pid of
                              Some t \<Rightarrow> set_cwd pid t path w
                            | None \<Rightarrow> w))))"

text \<open>
  \<open>getcwd\<close>: the second component is what is copied to the user buffer, the terminating zero
  included. \<open>user_ok\<close> is the answer of \<open>validate_user_ptr(buf, size)\<close>.
\<close>

definition strip_prefix :: "string \<Rightarrow> string \<Rightarrow> string option" where
  "strip_prefix s prefix = (if starts_with s prefix then Some (drop (length prefix) s) else None)"

definition display_cwd :: "string \<Rightarrow> string \<Rightarrow> string" where
  "display_cwd c jail_str =
     (if jail_str = ''/'' then c
      else if c = jail_str then ''/''
      else case strip_prefix c jail_str of
        Some stripped \<Rightarrow> if starts_with_slash stripped then stripped else slash # stripped
      | None \<Rightarrow> ''/'')"

definition sys_getcwd :: "bool \<Rightarrow> nat \<Rightarrow> u64 \<Rightarrow> nat \<Rightarrow> fs_world \<Rightarrow> syscall_result \<times> string option" where
  "sys_getcwd user_ok core buf sz w =
     (if buf = 0 \<or> sz = 0 then (errno_code EINVAL, None)
      else if \<not> user_ok then (errno_code EFAULT, None)
      else
        let (c, jail_root) = (case current_fs_ctx w (core mod 32) of
                                Some a \<Rightarrow> (cwd (ctxs w a), root (ctxs w a))
                              | None \<Rightarrow> (''/'', ''/''));
            cwd_bytes = display_cwd c jail_root
        in if length cwd_bytes + 1 > sz then (errno_code EINVAL, None)
           else (sint buf, Some (cwd_bytes @ [CHR 0x00])))"

definition sys_pivot_root ::
  "(string \<Rightarrow> inode option) \<Rightarrow> nat \<Rightarrow> string option \<Rightarrow> string option \<Rightarrow> fs_world \<Rightarrow>
   syscall_result \<times> fs_world" where
  "sys_pivot_root look core new_arg old_arg w =
     (case current_pid w core of
        None \<Rightarrow> (errno_code ESRCH, w)
      | Some pid \<Rightarrow>
          if (case get_task w pid of Some t \<Rightarrow> euid t \<noteq> 0 | None \<Rightarrow> False) then (errno_code EPERM, w)
          else case (new_arg, old_arg) of
            (Some new_root, Some put_old) \<Rightarrow>
              (let new_res = resolve_relative_path w core new_root;
                   old_res = resolve_relative_path w core put_old in
               if look new_res = None \<or> look old_res = None then (errno_code ENOENT, w)
               else case get_task w pid of
                 None \<Rightarrow> (errno_code ESRCH, w)
               | Some t \<Rightarrow>
                   let a = mount_ns (ctxs w (fs_ctx t)); ns = nss w a in
                   if ns_id ns = ns_id (nss w (initial_ns w)) then (errno_code EINVAL, w)
                   else case (case mounts ns new_res of Some f \<Rightarrow> Some f | None \<Rightarrow> mounts ns ''/'') of
                     None \<Rightarrow> (errno_code EINVAL, w)
                   | Some new_root_fs \<Rightarrow>
                       (case mounts ns ''/'' of
                          None \<Rightarrow> (errno_code EINVAL, w)
                        | Some old_root_fs \<Rightarrow>
                            let m = (mounts ns)(''/'' := None, new_res := None,
                                       old_res \<mapsto> old_root_fs, ''/'' \<mapsto> new_root_fs);
                                w' = w\<lparr> nss := (nss w)(a := ns\<lparr> mounts := m \<rparr>) \<rparr>
                            in (0, set_cwd pid t ''/'' (set_root t ''/'' w'))))
          | _ \<Rightarrow> (errno_code EFAULT, w))"

text \<open>The namespace part of \<open>unshare(CLONE_NEWNS)\<close>.\<close>

definition unshare_newns :: "nat \<Rightarrow> fs_world \<Rightarrow> syscall_result \<times> fs_world" where
  "unshare_newns pid w =
     (case get_task w pid of
        None \<Rightarrow> (errno_code ESRCH, w)
      | Some t \<Rightarrow>
          if euid t \<noteq> 0 then (errno_code EPERM, w)
          else let (n, w') = mount_namespace_fork (mount_ns (ctxs w (fs_ctx t))) w
               in (0, w'\<lparr> ctxs := (ctxs w')(fs_ctx t := (ctxs w' (fs_ctx t))\<lparr> mount_ns := n \<rparr>) \<rparr>))"

text \<open>
  The inheritance of the file system context by a child: \<open>fork\<close>, and \<open>clone\<close> with its
  flags \<open>CLONE_FS\<close> and \<open>CLONE_NEWNS\<close>.
\<close>

definition add_child :: "nat \<Rightarrow> fs_task \<Rightarrow> nat \<Rightarrow> fs_world \<Rightarrow> fs_world" where
  "add_child child parent_task a w =
     w\<lparr> tasks := (tasks w)(child \<mapsto> parent_task\<lparr> fs_ctx := a \<rparr>) \<rparr>"

definition fork_fs :: "nat \<Rightarrow> fs_task \<Rightarrow> fs_world \<Rightarrow> fs_world" where
  "fork_fs child t w =
     (let (a, w') = alloc_ctx (fs_context_fork (ctxs w (fs_ctx t))) w in add_child child t a w')"

definition clone_fs :: "bool \<Rightarrow> bool \<Rightarrow> nat \<Rightarrow> fs_task \<Rightarrow> fs_world \<Rightarrow> fs_world" where
  "clone_fs clone_fs_flag clone_newns child t w =
     (if clone_fs_flag then add_child child t (fs_ctx t) w
      else if clone_newns then
        let ctx = ctxs w (fs_ctx t);
            (n, w1) = mount_namespace_fork (mount_ns ctx) w;
            (a, w2) = alloc_ctx (fs_context_new (cwd ctx) (root ctx) n) w1
        in add_child child t a w2
      else fork_fs child t w)"

text \<open>The context switch: the core runs \<open>pid\<close> with that task's context.\<close>

definition set_current_fs_ctx :: "nat \<Rightarrow> nat option \<Rightarrow> fs_world \<Rightarrow> fs_world" where
  "set_current_fs_ctx core a w =
     (if core < 32 then w\<lparr> current_fs_ctx := (current_fs_ctx w)(core := a) \<rparr> else w)"

definition switch_to :: "nat \<Rightarrow> nat \<Rightarrow> fs_task \<Rightarrow> fs_world \<Rightarrow> fs_world" where
  "switch_to core pid t w =
     set_current_fs_ctx core (Some (fs_ctx t)) (w\<lparr> current_pid := (current_pid w)(core := Some pid) \<rparr>)"

section \<open>The jail\<close>

text \<open>\<open>p\<close> is the directory \<open>r\<close> or a normalised absolute path below it.\<close>

definition under :: "string \<Rightarrow> string \<Rightarrow> bool" where
  "under r p \<longleftrightarrow> (\<exists>rs ms. list_all plain_comp rs \<and> list_all plain_comp ms \<and>
     r = abs_path rs \<and> p = abs_path (rs @ ms))"

definition fs_inv :: "fs_world \<Rightarrow> bool" where
  "fs_inv w \<longleftrightarrow> (\<forall>a. under (root (ctxs w a)) (cwd (ctxs w a)))"

text \<open>At boot every context is the initial one and no core runs a task yet.\<close>

definition fs_init :: "fs_world \<Rightarrow> bool" where
  "fs_init w \<longleftrightarrow> (\<forall>a. ctxs w a = new_initial (initial_ns w)) \<and> current_pid w = (\<lambda>_. None)"

inductive fs_step :: "fs_world \<Rightarrow> fs_world \<Rightarrow> bool" where
  chroot: "core < 32 \<Longrightarrow> fs_step w (snd (sys_chroot look core p w))"
| chdir: "core < 32 \<Longrightarrow> fs_step w (snd (sys_chdir look core p w))"
| pivot_root: "core < 32 \<Longrightarrow> fs_step w (snd (sys_pivot_root look core p q w))"
| unshare: "fs_step w (snd (unshare_newns pid w))"
| fork: "tasks w pid = Some t \<Longrightarrow> tasks w child = None \<Longrightarrow> fs_step w (fork_fs child t w)"
| clone: "tasks w pid = Some t \<Longrightarrow> tasks w child = None \<Longrightarrow> fs_step w (clone_fs f n child t w)"
| switch: "tasks w pid = Some t \<Longrightarrow> fs_step w (switch_to core pid t w)"

text \<open>The jail root that applies on a core.\<close>

definition jail_of :: "fs_world \<Rightarrow> nat \<Rightarrow> string" where
  "jail_of w core =
     (case current_fs_ctx w (core mod 32) of Some a \<Rightarrow> root (ctxs w a) | None \<Rightarrow> ''/'')"

lemma abs_path_Nil: "abs_path [] = ''/''"
  by (simp add: abs_path_eq)

lemma abs_path_root_iff: "list_all plain_comp cs \<Longrightarrow> abs_path cs = ''/'' \<longleftrightarrow> cs = []"
  by (cases cs) (auto simp: abs_path_eq plain_comp_def good_comp_def)

lemma under_root [simp]: "under ''/'' ''/''"
  unfolding under_def by (rule exI [of _ "[]"], rule exI [of _ "[]"]) (simp add: abs_path_Nil)

lemma under_abs_refl: "list_all plain_comp cs \<Longrightarrow> under (abs_path cs) (abs_path cs)"
  unfolding under_def by (rule exI [of _ cs], rule exI [of _ "[]"]) simp

lemma under_refl: "under r p \<Longrightarrow> under p p"
  unfolding under_def [of r p] by (auto intro: under_abs_refl)

lemma abs_path_append:
  "rs \<noteq> [] \<Longrightarrow> ms \<noteq> [] \<Longrightarrow> abs_path (rs @ ms) = abs_path rs @ slash # join_comps ms"
proof -
  have "join_comps (rs @ ms) = join_comps rs @ slash # join_comps ms"
    if "rs \<noteq> []" "ms \<noteq> []" for rs ms
    using that by (induction rs rule: join_comps.induct) auto
  then show "rs \<noteq> [] \<Longrightarrow> ms \<noteq> [] \<Longrightarrow> ?thesis" by (simp add: abs_path_eq)
qed

lemma abs_path_prefix: "take (length (abs_path rs)) (abs_path (rs @ ms)) = abs_path rs"
proof (cases "rs = [] \<or> ms = []")
  case False
  then show ?thesis by (simp add: abs_path_append)
qed (auto simp: abs_path_eq)

lemma under_prefix: "under r p \<Longrightarrow> take (length r) p = r"
  unfolding under_def by (auto simp: abs_path_prefix)

lemma abs_path_no_trailing:
  assumes "list_all plain_comp cs" "cs \<noteq> []"
  shows "\<not> ends_with_slash (abs_path cs)"
proof -
  have "list_all good_comp (split_slash (join_comps cs))"
    using assms by (simp add: split_join_comps plain_good)
  then have "join_comps cs \<noteq> [] \<and> last (join_comps cs) \<noteq> slash" by (rule good_split_last)
  then show ?thesis by (simp add: ends_with_slash_def abs_path_eq)
qed

text \<open>Joining below a directory: the components of the directory come first.\<close>

lemma split_below:
  "list_all plain_comp cs \<Longrightarrow> cs \<noteq> [] \<Longrightarrow> split_slash (abs_path cs @ slash # s) = [] # cs @ split_slash s"
  by (simp add: split_slash_sep split_abs_path)

lemma join_below:
  assumes "list_all plain_comp cs" "\<not> starts_with_slash s"
  shows "join_path (abs_path cs) s = (if cs = [] then slash # s else abs_path cs @ slash # s)"
  using assms abs_path_no_trailing [of cs]
  by (auto simp: join_path_def Let_def abs_path_Nil ends_with_slash_def)

subsection \<open>Resolution without a jail\<close>

lemma under_abs: "list_all plain_comp cs \<Longrightarrow> under ''/'' (abs_path cs)"
  unfolding under_def by (rule exI [of _ "[]"]) (auto simp: abs_path_Nil)

lemma normalize_under: "starts_with_slash p \<Longrightarrow> under ''/'' (normalize p)"
  by (simp add: normalize_abs under_abs resolve_split_plain)

lemma relative_comps:
  assumes "is_normalized p" "\<not> starts_with_slash p"
  shows "\<exists>ms. list_all plain_comp ms \<and> ms \<noteq> [] \<and> p = join_comps ms"
proof -
  have "p \<noteq> ''/''" using assms(2) by (auto simp: starts_with_slash_def)
  then have "list_all good_comp (split_slash p)"
    using assms by (simp add: is_normalized_components path_components_def)
  then show ?thesis using plain_comps_of_good [of p] by (metis join_split split_slash_ne)
qed

lemma resolve_inner_unjailed:
  assumes "list_all plain_comp cs"
  shows "under ''/'' (resolve_inner path (abs_path cs) ''/'')"
proof (cases "starts_with_slash path \<or> \<not> is_normalized path")
  case True
  have "starts_with_slash (join_path (abs_path cs) path)" if "\<not> starts_with_slash path"
    using that assms by (simp add: join_below) (simp add: starts_with_slash_def abs_path_eq)
  then show ?thesis using True by (auto simp: resolve_inner_def normalize_under)
next
  case False
  then obtain ms where m: "list_all plain_comp ms" "ms \<noteq> []" "path = join_comps ms"
    using relative_comps by blast
  have "resolve_inner path (abs_path cs) ''/'' = abs_path (cs @ ms)"
  proof (cases "cs = []")
    case True
    then show ?thesis using False m by (simp add: resolve_inner_def abs_path_eq)
  next
    case False
    then have "abs_path cs \<noteq> ''/''" "\<not> ends_with_slash (abs_path cs)"
      using assms abs_path_root_iff abs_path_no_trailing by blast+
    with False m \<open>\<not> (starts_with_slash path \<or> \<not> is_normalized path)\<close> show ?thesis
      by (simp add: resolve_inner_def abs_path_append Let_def)
  qed
  then show ?thesis using assms m by (simp add: under_abs)
qed

subsection \<open>Resolution in a jail\<close>

lemma prefixed_split:
  assumes rs: "list_all plain_comp rs" "rs \<noteq> []" and pre: "is_prefixed path (abs_path rs)"
  shows "\<exists>cs. split_slash path = [] # rs @ cs"
proof (cases "path = abs_path rs")
  case True
  then show ?thesis using rs by (simp add: split_abs_path)
next
  case False
  let ?r = "abs_path rs"
  have "take (length ?r) path = ?r" "starts_with_slash (drop (length ?r) path)"
    using pre False abs_path_no_trailing [OF rs] by (auto simp: is_prefixed_def starts_with_def)
  then obtain s where "path = ?r @ slash # s"
    using append_take_drop_id [of "length ?r" path] by (auto simp: starts_with_slash_iff)
  then show ?thesis using split_below [OF rs, of s] by auto
qed

lemma full_path_split:
  assumes rs: "list_all plain_comp rs" "rs \<noteq> []" and ms: "list_all plain_comp ms"
  shows "\<exists>cs. split_slash (if starts_with_slash path
           then if path = ''/'' then abs_path rs else abs_path rs @ path
           else join_path (abs_path (rs @ ms)) path) = [] # rs @ cs"
proof (cases "starts_with_slash path")
  case True
  then obtain s where "path = slash # s" using starts_with_slash_iff by blast
  then show ?thesis using True rs split_below [OF rs, of s] by (simp add: split_abs_path)
next
  case False
  have all: "list_all plain_comp (rs @ ms)" "rs @ ms \<noteq> []" using rs ms by auto
  have "join_path (abs_path (rs @ ms)) path = abs_path (rs @ ms) @ slash # path"
    using join_below [OF all(1) False] rs(2) by simp
  then have "split_slash (join_path (abs_path (rs @ ms)) path) = [] # (rs @ ms) @ split_slash path"
    by (simp only: split_below [OF all])
  then show ?thesis using False by simp
qed

lemma resolve_inner_jailed:
  assumes rs: "list_all plain_comp rs" "rs \<noteq> []" and ms: "list_all plain_comp ms"
  shows "under (abs_path rs) (resolve_inner path (abs_path (rs @ ms)) (abs_path rs))"
proof -
  let ?full = "if starts_with_slash path
           then if path = ''/'' then abs_path rs else abs_path rs @ path
           else join_path (abs_path (rs @ ms)) path"
  have ne: "abs_path rs \<noteq> ''/''" using rs abs_path_root_iff by blast
  obtain q cs where q: "split_slash q = [] # rs @ cs"
    and r: "resolve_inner path (abs_path (rs @ ms)) (abs_path rs) = normalize_jailed q (abs_path rs)"
  proof (cases "is_prefixed path (abs_path rs)")
    case True
    then show ?thesis using prefixed_split [OF rs True] that ne by (auto simp: resolve_inner_def)
  next
    case False
    then show ?thesis
      using full_path_split [OF rs ms, of path] that [of ?full] ne by (auto simp: resolve_inner_def Let_def)
  qed
  obtain ms' where "normalize_jailed q (abs_path rs) = abs_path (rs @ ms')" "list_all plain_comp ms'"
    using normalize_jailed_below [OF rs(1) q] by blast
  then show ?thesis using r rs(1) unfolding under_def by auto
qed

lemma resolve_inner_under:
  assumes "under r c"
  shows "under r (resolve_inner path c r)"
proof -
  obtain rs ms where d: "list_all plain_comp rs" "list_all plain_comp ms"
    "r = abs_path rs" "c = abs_path (rs @ ms)" using assms unfolding under_def by blast
  show ?thesis
    using resolve_inner_jailed [OF d(1) _ d(2), of path] resolve_inner_unjailed [OF d(2), of path] d
    by (cases "rs = []") (simp_all add: abs_path_Nil)
qed

text \<open>A path below the jail root resolves to itself.\<close>

lemma normalize_jailed_fix:
  assumes "under r p"
  shows "normalize_jailed p r = p"
proof -
  obtain rs ms where d: "list_all plain_comp rs" "list_all plain_comp ms"
    "r = abs_path rs" "p = abs_path (rs @ ms)" using assms unfolding under_def by blast
  have split: "split_slash p = [] # (if rs @ ms = [] then [[]] else rs @ ms)"
    using d split_abs_path [of "rs @ ms"] by simp
  have "resolve_jailed (length rs) [] (split_slash p) = rs @ ms"
    unfolding split using d by (simp add: resolve_jailed_good plain_good)
  then show ?thesis
    using d root_parts_abs [OF d(1)] by (simp add: normalize_jailed_def Let_def abs_path_def [symmetric])
qed

lemma resolve_inner_fix:
  assumes "under r p"
  shows "resolve_inner p c r = p"
proof -
  obtain rs ms where d: "list_all plain_comp rs" "list_all plain_comp ms"
    "r = abs_path rs" "p = abs_path (rs @ ms)" using assms unfolding under_def by blast
  show ?thesis
  proof (cases "rs = []")
    case True
    then show ?thesis
      using d by (simp add: resolve_inner_def abs_path_Nil normalize_def abs_path_normalized)
  next
    case False
    have "is_prefixed p r"
      using d False abs_path_append [OF False, of ms]
      by (cases "ms = []") (simp_all add: is_prefixed_def starts_with_def starts_with_slash_def)
    moreover have "r \<noteq> ''/''" using d(1,3) False by (simp add: abs_path_root_iff)
    ultimately show ?thesis
      using normalize_jailed_fix [OF assms] by (simp add: resolve_inner_def)
  qed
qed

section \<open>The invariant\<close>

lemma fs_invI: "(\<And>a. under (root (ctxs w a)) (cwd (ctxs w a))) \<Longrightarrow> fs_inv w"
  by (simp add: fs_inv_def)

lemma resolve_relative_under:
  "fs_inv w \<Longrightarrow> under (jail_of w core) (resolve_relative_path w core path)"
  by (auto simp: fs_inv_def jail_of_def resolve_relative_path_def intro!: resolve_inner_under
      split: option.split)

lemma set_cwd_inv: "fs_inv w \<Longrightarrow> under (root (ctxs w (fs_ctx t))) p \<Longrightarrow> fs_inv (set_cwd pid t p w)"
  by (simp add: fs_inv_def set_cwd_def)

lemma set_root_cwd_inv: "fs_inv w \<Longrightarrow> under p p \<Longrightarrow> fs_inv (set_cwd pid t p (set_root t p w))"
  by (simp add: fs_inv_def set_cwd_def set_root_def)

lemma alloc_ctx_inv: "fs_inv w \<Longrightarrow> under (root c) (cwd c) \<Longrightarrow> fs_inv (snd (alloc_ctx c w))"
  by (simp add: fs_inv_def alloc_ctx_def)

lemma ns_fork_inv: "fs_inv w \<Longrightarrow> fs_inv (snd (mount_namespace_fork a w))"
  by (simp add: fs_inv_def mount_namespace_fork_def)

lemma add_child_inv: "fs_inv w \<Longrightarrow> fs_inv (add_child c t a w)"
  by (simp add: fs_inv_def add_child_def)

text \<open>
  The task that a core runs has the context that the core's slot names. It is what lets
  \<open>chdir\<close> resolve through the slot and write through the task.
\<close>

definition slots_ok :: "fs_world \<Rightarrow> bool" where
  "slots_ok w \<longleftrightarrow> (\<forall>core pid. core < 32 \<longrightarrow> current_pid w core = Some pid \<longrightarrow>
     (\<exists>t. tasks w pid = Some t \<and> current_fs_ctx w core = Some (fs_ctx t)))"

lemma slots_okD:
  "slots_ok w \<Longrightarrow> core < 32 \<Longrightarrow> current_pid w core = Some pid \<Longrightarrow> tasks w pid = Some t \<Longrightarrow>
   jail_of w core = root (ctxs w (fs_ctx t))"
  unfolding slots_ok_def jail_of_def by (auto split: option.split)

lemma slots_ok_set_cwd [simp]:
  "tasks w pid = Some t \<Longrightarrow> slots_ok (set_cwd pid t p w) = slots_ok w"
  by (auto simp: slots_ok_def set_cwd_def)

lemma slots_ok_set_root [simp]: "slots_ok (set_root t p w) = slots_ok w"
  by (simp add: slots_ok_def set_root_def)

lemma tasks_set_root [simp]: "tasks (set_root t p w) = tasks w"
  by (simp add: set_root_def)

lemma slots_ok_child:
  "slots_ok w \<Longrightarrow> tasks w child = None \<Longrightarrow> slots_ok (add_child child t a w)"
  by (force simp: slots_ok_def add_child_def)

definition fs_all :: "fs_world \<Rightarrow> bool" where
  "fs_all w \<longleftrightarrow> fs_inv w \<and> slots_ok w"

lemma chroot_all:
  assumes "fs_all w"
  shows "fs_all (snd (sys_chroot look core p w))"
proof -
  have "under q q" if "q = resolve_relative_path w core path" for q path
    using assms that under_refl [OF resolve_relative_under, of w core path] by (simp add: fs_all_def)
  then show ?thesis
    using assms
    by (auto simp: sys_chroot_def fs_all_def get_task_def Let_def set_root_cwd_inv
        split: option.split sum.split)
qed

lemma chdir_all:
  assumes "fs_all w" "core < 32"
  shows "fs_all (snd (sys_chdir look core p w))"
proof -
  have "under (root (ctxs w (fs_ctx t))) (resolve_relative_path w core path)"
    if "current_pid w core = Some pid" "tasks w pid = Some t" for pid t path
    using assms that resolve_relative_under [of w core path] slots_okD [of w core pid t]
    by (simp add: fs_all_def)
  then show ?thesis
    using assms
    by (auto simp: sys_chdir_def fs_all_def get_task_def Let_def intro!: set_cwd_inv
        split: option.split sum.split)
qed

lemma pivot_root_all:
  assumes "fs_all w"
  shows "fs_all (snd (sys_pivot_root look core p q w))"
proof -
  have "fs_inv (w\<lparr>nss := x\<rparr>)" "slots_ok (w\<lparr>nss := x\<rparr>)" for x
    using assms by (simp_all add: fs_all_def fs_inv_def slots_ok_def)
  then show ?thesis
    using assms
    by (auto simp: sys_pivot_root_def fs_all_def get_task_def Let_def intro!: set_root_cwd_inv
        split: option.split)
qed

lemma unshare_all: "fs_all w \<Longrightarrow> fs_all (snd (unshare_newns pid w))"
  by (auto simp: unshare_newns_def fs_all_def mount_namespace_fork_def fs_inv_def slots_ok_def
      get_task_def split: option.split)

lemma fork_all:
  "fs_all w \<Longrightarrow> tasks w child = None \<Longrightarrow> fs_all (fork_fs child t w)"
  by (auto simp: fork_fs_def alloc_ctx_def fs_context_fork_def fs_all_def fs_inv_def
      slots_ok_def add_child_def intro: slots_ok_child)

lemma clone_all:
  assumes "fs_all w" "tasks w child = None"
  shows "fs_all (clone_fs f n child t w)"
  using assms fork_all [OF assms, of t]
  by (auto simp: clone_fs_def alloc_ctx_def mount_namespace_fork_def fs_context_new_def fs_all_def
      fs_inv_def Let_def slots_ok_def add_child_def)

lemma switch_all: "fs_all w \<Longrightarrow> tasks w pid = Some t \<Longrightarrow> fs_all (switch_to core pid t w)"
  by (auto simp: switch_to_def set_current_fs_ctx_def fs_all_def fs_inv_def slots_ok_def)

interpretation fs_sys: invariant_system fs_init fs_step fs_all
proof unfold_locales
  show "fs_all w" if "fs_init w" for w
    using that by (simp add: fs_init_def fs_all_def fs_inv_def slots_ok_def new_initial_def)
  show "fs_all w'" if "fs_all w" "fs_step w w'" for w w'
    using that(2,1)
    by cases (simp_all add: chroot_all chdir_all pivot_root_all unshare_all fork_all clone_all switch_all)
qed

section \<open>The working directory shown to the task\<close>

lemma display_below:
  assumes "under r c" "r \<noteq> ''/''" "c \<noteq> r"
  shows "\<exists>s. c = r @ slash # s \<and> s \<noteq> [] \<and> display_cwd c r = slash # s"
proof -
  obtain rs ms where d: "list_all plain_comp rs" "list_all plain_comp ms"
    "r = abs_path rs" "c = abs_path (rs @ ms)" using assms(1) unfolding under_def by blast
  have ne: "rs \<noteq> []" "ms \<noteq> []" using d assms(2,3) by (auto simp: abs_path_Nil)
  then have c: "c = r @ slash # join_comps ms" using d by (simp add: abs_path_append)
  moreover have "join_comps ms \<noteq> []"
    using ne d(2) by (cases ms) (auto simp: plain_comp_def good_comp_def)
  ultimately show ?thesis
    using assms(2,3) by (auto simp: display_cwd_def strip_prefix_def starts_with_def starts_with_slash_def)
qed

lemma display_resolves:
  assumes "under r c" and amb: "r = ''/'' \<or> \<not> is_prefixed (display_cwd c r) r"
  shows "resolve_inner (display_cwd c r) d r = c"
proof -
  consider "r = ''/''" | "r \<noteq> ''/''" "c = r" | "r \<noteq> ''/''" "c \<noteq> r" by blast
  then show ?thesis
  proof cases
    case 1
    then show ?thesis using resolve_inner_fix [OF assms(1)] by (simp add: display_cwd_def)
  next
    case 2
    then show ?thesis
      using amb normalize_jailed_fix [OF assms(1)]
      by (simp add: resolve_inner_def display_cwd_def starts_with_slash_def)
  next
    case 3
    then obtain s where "c = r @ slash # s" "s \<noteq> []" "display_cwd c r = slash # s"
      using display_below [OF assms(1)] by blast
    then show ?thesis
      using amb 3 normalize_jailed_fix [OF assms(1)]
      by (simp add: resolve_inner_def starts_with_slash_def)
  qed
qed

section \<open>A concrete run\<close>

text \<open>One privileged task on core 0; every path names a directory.\<close>

definition demo_boot :: fs_world where
  "demo_boot =
     \<lparr> tasks = [1 \<mapsto> \<lparr> euid = 0, egid = 0, task_cwd = ''/'', fs_ctx = 0 \<rparr>],
       ctxs = (\<lambda>_. new_initial 0), next_ctx = 1, nss = (\<lambda>_. \<lparr> ns_id = 1, mounts = Map.empty \<rparr>),
       next_ns = 1, next_ns_id = 2, initial_ns = 0, current_pid = (\<lambda>_. None),
       current_fs_ctx = (\<lambda>_. None) \<rparr>"

definition demo_run :: fs_world where
  "demo_run = switch_to 0 1 \<lparr> euid = 0, egid = 0, task_cwd = ''/'', fs_ctx = 0 \<rparr> demo_boot"

definition demo_jailed :: fs_world where
  "demo_jailed = snd (sys_chroot (\<lambda>_. Some (inode_new 2 Directory)) 0 (Some ''/srv/j'') demo_run)"

lemmas demo_defs = demo_run_def demo_boot_def switch_to_def set_current_fs_ctx_def new_initial_def

lemma demo_run_reach: "reach fs_init fs_step demo_run"
proof (rule reach_step)
  show "reach fs_init fs_step demo_boot" by (rule reach_init) (simp add: fs_init_def demo_boot_def)
  show "fs_step demo_boot demo_run"
    unfolding demo_run_def by (rule fs_step.switch) (simp add: demo_boot_def)
qed

lemma demo_jailed_reach: "reach fs_init fs_step demo_jailed"
proof (rule reach_step)
  show "reach fs_init fs_step demo_run" by (rule demo_run_reach)
  show "fs_step demo_run demo_jailed"
    unfolding demo_jailed_def by (rule fs_step.chroot) simp
qed

lemma demo_jailed_fields:
  "current_pid demo_jailed 0 = Some 1" "current_fs_ctx demo_jailed 0 = Some 0"
  "tasks demo_jailed 1 = Some \<lparr> euid = 0, egid = 0, task_cwd = ''/srv/j'', fs_ctx = 0 \<rparr>"
  "root (ctxs demo_jailed 0) = ''/srv/j''"
proof -
  have "is_normalized ''/srv/j''"
    by (simp add: is_normalized_components path_components_def starts_with_slash_def good_comp_def)
  then have "resolve_relative_path demo_run 0 ''/srv/j'' = ''/srv/j''"
    by (simp add: demo_defs resolve_relative_path_def resolve_inner_def starts_with_slash_def normalize_def)
  moreover have "current_pid demo_run 0 = Some 1" "current_fs_ctx demo_run 0 = Some 0"
    "tasks demo_run 1 = Some \<lparr> euid = 0, egid = 0, task_cwd = ''/'', fs_ctx = 0 \<rparr>"
    by (simp_all add: demo_defs)
  ultimately have eq: "demo_jailed =
      set_cwd 1 \<lparr> euid = 0, egid = 0, task_cwd = ''/'', fs_ctx = 0 \<rparr> ''/srv/j''
        (set_root \<lparr> euid = 0, egid = 0, task_cwd = ''/'', fs_ctx = 0 \<rparr> ''/srv/j'' demo_run)"
    by (simp add: demo_jailed_def sys_chroot_def get_task_def is_dir_def inode_new_def Let_def
        check_permission_def current_credentials_def check_permission_with_creds_def)
  show "current_pid demo_jailed 0 = Some 1" "current_fs_ctx demo_jailed 0 = Some 0"
    "tasks demo_jailed 1 = Some \<lparr> euid = 0, egid = 0, task_cwd = ''/srv/j'', fs_ctx = 0 \<rparr>"
    "root (ctxs demo_jailed 0) = ''/srv/j''"
    unfolding eq by (simp_all add: set_cwd_def set_root_def demo_defs)
qed

lemma demo_jail_root: "jail_of demo_jailed 0 = ''/srv/j''"
  by (simp add: jail_of_def demo_jailed_fields)

section \<open>Properties\<close>

text \<open>
  C14. Jail confinement: in every state reachable by \<open>chroot\<close>, \<open>chdir\<close>, \<open>pivot_root\<close>,
  \<open>unshare\<close>, \<open>fork\<close>, \<open>clone\<close> and context switches, whatever path a task passes on
  whatever core (relative, absolute, full of \<open>..\<close>), it resolves to the jail root of the
  current context or to a normalised path below it; and resolving the result again, as the
  VFS lookup does, changes nothing.
\<close>

theorem jail_confinement:
  assumes "reach fs_init fs_step w"
  shows "under (jail_of w core) (resolve_relative_path w core path) \<and>
         resolve_relative_path w core (resolve_relative_path w core path) =
         resolve_relative_path w core path"
proof -
  have u: "under (jail_of w core) (resolve_relative_path w core path)"
    using fs_sys.reach_inv [OF assms] resolve_relative_under by (simp add: fs_all_def)
  have "resolve_relative_path w core p = p" if "under (jail_of w core) p" for p
    using that by (auto simp: resolve_relative_path_def jail_of_def resolve_inner_fix split: option.splits)
  with u show ?thesis by simp
qed

theorem jail_confinement_witness:
  "jail_of demo_jailed 0 = ''/srv/j'' \<and>
   under ''/srv/j'' (resolve_relative_path demo_jailed 0 ''../../etc/passwd'')"
  using jail_confinement [OF demo_jailed_reach, of 0 "''../../etc/passwd''"]
  by (simp add: demo_jail_root)

text \<open>
  The path that \<open>getcwd\<close> shows to a jailed task names its working directory again:
  resolving it gives the working directory of the context, provided the shown path does not
  itself begin with the jail root (in which case resolution takes it as already translated).
\<close>

theorem getcwd_roundtrip:
  assumes "reach fs_init fs_step w"
    and "current_fs_ctx w (core mod 32) = Some a"
    and "jail_of w core = ''/'' \<or> \<not> is_prefixed (display_cwd (cwd (ctxs w a)) (jail_of w core)) (jail_of w core)"
    and "sys_getcwd True core buf n w = (r, Some out)"
  shows "resolve_relative_path w core (butlast out) = cwd (ctxs w a)"
proof -
  have "under (root (ctxs w a)) (cwd (ctxs w a))"
    using fs_sys.reach_inv [OF assms(1)] by (simp add: fs_all_def fs_inv_def)
  moreover have j: "jail_of w core = root (ctxs w a)" using assms(2) by (simp add: jail_of_def)
  moreover have "out = display_cwd (cwd (ctxs w a)) (root (ctxs w a)) @ [CHR 0x00]"
    using assms(2,4) by (auto simp: sys_getcwd_def Let_def split: if_splits)
  ultimately show ?thesis
    using display_resolves assms(2,3) by (simp add: resolve_relative_path_def)
qed

theorem getcwd_roundtrip_witness:
  "sys_getcwd True 0 64 100 demo_run = (64, Some [slash, CHR 0x00]) \<and>
   resolve_relative_path demo_run 0 ''/'' = ''/''"
proof -
  have s: "current_fs_ctx demo_run (0 mod 32) = Some 0" "cwd (ctxs demo_run 0) = ''/''"
    "jail_of demo_run 0 = ''/''"
    by (simp_all add: demo_defs jail_of_def)
  have g: "sys_getcwd True 0 64 100 demo_run = (64, Some [slash, CHR 0x00])"
    using s by (simp add: sys_getcwd_def jail_of_def display_cwd_def)
  show ?thesis using getcwd_roundtrip [OF demo_run_reach s(1) _ g] s g by simp
qed

text \<open>
  C32. \<open>fchdir\<close> is the exception: it stores the path of the descriptor without resolving it
  against the jail. A jailed task that holds a directory opened before \<open>chroot\<close> moves its
  working directory out of the jail, and relative paths then resolve outside the jail root.
\<close>

theorem fchdir_leaves_jail:
  "let w = snd (sys_fchdir (\<lambda>_. Some (inode_new 9 Directory, Some ''/etc/ssl'')) 0 3 demo_jailed)
   in jail_of w 0 = ''/srv/j'' \<and> resolve_relative_path w 0 ''key'' = ''/etc/ssl/key'' \<and>
      \<not> under (jail_of w 0) (resolve_relative_path w 0 ''key'')"
proof -
  define w where
    "w = snd (sys_fchdir (\<lambda>_. Some (inode_new 9 Directory, Some ''/etc/ssl'')) 0 3 demo_jailed)"
  have f: "current_fs_ctx w 0 = Some 0" "root (ctxs w 0) = ''/srv/j''" "cwd (ctxs w 0) = ''/etc/ssl''"
    using demo_jailed_fields
    by (simp_all add: w_def sys_fchdir_def is_dir_def inode_new_def get_task_def check_permission_def
        current_credentials_def check_permission_with_creds_def set_cwd_def)
  have r: "resolve_relative_path w 0 ''key'' = ''/etc/ssl/key''"
    by (simp add: resolve_relative_path_def f resolve_inner_def is_prefixed_def starts_with_def
        starts_with_slash_def join_path_def ends_with_slash_def normalize_jailed_def root_parts_def)
  have "\<not> under ''/srv/j'' ''/etc/ssl/key''" using under_prefix [of "''/srv/j''" "''/etc/ssl/key''"] by auto
  then show ?thesis using f r by (simp add: w_def [symmetric] jail_of_def)
qed

end
