(* ===== verification/Frame_Bitmap.thy ===== *)
theory Frame_Bitmap
  imports Kernel_Prelude
begin

text \<open>
  The bitmap allocator \<open>FrameAllocator\<close> of \<open>memory/physical.rs\<close>: one bit per 4 KiB frame,
  set when the frame is used, scanned 64 bits at a time from a hint. The theory relates every
  operation to the set of free frames: \<open>allocate\<close> takes a member of the set and fails only
  when it is empty, \<open>allocate_contiguous\<close> takes a run, \<open>deallocate\<close> gives a frame back, and
  \<open>init\<close> frees the usable regions except the frames of the active page tables.
\<close>

section \<open>Model\<close>

definition MAX_FRAMES :: nat where
  "MAX_FRAMES = 4 * 1024 * 1024"

definition BITMAP_SIZE :: nat where
  "BITMAP_SIZE = MAX_FRAMES div 8"

record frame_allocator =
  bitmap :: "u8 list"
  total_frames :: u64
  allocated_frames :: u64
  next_free_hint :: nat
  initialized :: bool

definition frame_allocator_new :: frame_allocator where
  "frame_allocator_new =
     \<lparr> bitmap = replicate BITMAP_SIZE 0xFF, total_frames = 0, allocated_frames = 0,
       next_free_hint = 0, initialized = False \<rparr>"

definition mark_free :: "nat \<Rightarrow> frame_allocator \<Rightarrow> frame_allocator" where
  "mark_free i fa =
     (if i < MAX_FRAMES then
        let byte_index = i div 8; bit_index = i mod 8
        in fa\<lparr> bitmap := (bitmap fa)[byte_index := bitmap fa ! byte_index AND NOT (push_bit bit_index 1)] \<rparr>
      else fa)"

definition mark_used :: "nat \<Rightarrow> frame_allocator \<Rightarrow> frame_allocator" where
  "mark_used i fa =
     (if i < MAX_FRAMES then
        let byte_index = i div 8; bit_index = i mod 8
        in fa\<lparr> bitmap := (bitmap fa)[byte_index := bitmap fa ! byte_index OR push_bit bit_index 1] \<rparr>
      else fa)"

definition is_free :: "frame_allocator \<Rightarrow> nat \<Rightarrow> bool" where
  "is_free fa i =
     (if i \<ge> MAX_FRAMES then False
      else bitmap fa ! (i div 8) AND push_bit (i mod 8) 1 = 0)"

text \<open>\<open>u64::from_ne_bytes(bitmap[b .. b + 8])\<close> on the little-endian target.\<close>

definition word_at :: "u8 list \<Rightarrow> nat \<Rightarrow> u64" where
  "word_at bm b = from_le_bytes (subslice b 8 bm)"

text \<open>\<open>u64::trailing_zeros\<close>.\<close>

definition trailing_zeros :: "u64 \<Rightarrow> nat" where
  "trailing_zeros v = length (takeWhile (\<lambda>n. \<not> bit v n) [0..<64])"

text \<open>The mask of the bits below the offset, which count as allocated.\<close>

definition low_mask :: "nat \<Rightarrow> u64" where
  "low_mask bit_offset = (if bit_offset = 0 then 0 else push_bit bit_offset 1 - 1)"

text \<open>Taking frame \<open>i\<close>: the common tail of the success paths of \<open>allocate\<close>.\<close>

definition take_frame :: "nat \<Rightarrow> frame_allocator \<Rightarrow> u64 option \<times> frame_allocator" where
  "take_frame i fa =
     (Some (of_nat i * of_nat PAGE_SIZE),
      (mark_used i fa)\<lparr> allocated_frames := allocated_frames fa + 1,
                        next_free_hint := (i + 1) mod MAX_FRAMES \<rparr>)"

text \<open>The search loop of \<open>allocate\<close>.\<close>

function alloc_loop :: "frame_allocator \<Rightarrow> nat \<Rightarrow> nat \<Rightarrow> u64 option \<times> frame_allocator" where
  "alloc_loop fa searched index =
     (if searched < MAX_FRAMES then
        let byte_idx = (index div 64) * 8 in
        if byte_idx + 8 \<le> length (bitmap fa) then
          let bit_offset = index mod 64;
              val = word_at (bitmap fa) byte_idx;
              masked_val = val OR low_mask bit_offset;
              advance = 64 - bit_offset
          in if masked_val = - 1 then alloc_loop fa (searched + advance) ((index + advance) mod MAX_FRAMES)
             else
               let free_bit = trailing_zeros (NOT masked_val);
                   free_frame_index = (index div 64) * 64 + free_bit
               in if free_frame_index < MAX_FRAMES then take_frame free_frame_index fa
                  else alloc_loop fa (searched + advance) ((index + advance) mod MAX_FRAMES)
        else if is_free fa index then take_frame index fa
        else alloc_loop fa (searched + 1) ((index + 1) mod MAX_FRAMES)
      else (None, fa))"
  by pat_completeness auto
termination
  by (relation "measure (\<lambda>(fa, searched, index). MAX_FRAMES - searched)")
    (auto simp: diff_less_mono2 less_Suc_eq_le)

declare alloc_loop.simps [simp del]

definition allocate :: "frame_allocator \<Rightarrow> u64 option \<times> frame_allocator" where
  "allocate fa =
     (if \<not> initialized fa then (None, fa) else alloc_loop fa 0 (next_free_hint fa))"

text \<open>
  The inner loop of \<open>allocate_contiguous\<close>: the first \<open>i\<close> in \<open>1..count\<close> at which the run that
  starts at \<open>index\<close> is broken.
\<close>

definition run_break :: "frame_allocator \<Rightarrow> nat \<Rightarrow> nat \<Rightarrow> nat option" where
  "run_break fa index count =
     find (\<lambda>i. index + i \<ge> MAX_FRAMES \<or> \<not> is_free fa (index + i)) [1..<count]"

definition mark_run :: "nat \<Rightarrow> nat \<Rightarrow> frame_allocator \<Rightarrow> frame_allocator" where
  "mark_run index count fa = fold (\<lambda>i. mark_used (index + i)) [0..<count] fa"

function contig_loop :: "frame_allocator \<Rightarrow> nat \<Rightarrow> nat \<Rightarrow> nat \<Rightarrow> u64 option \<times> frame_allocator" where
  "contig_loop fa count searched index =
     (if searched < MAX_FRAMES then
        let byte_idx = (index div 64) * 8;
            bit_offset = index mod 64
        in if byte_idx + 8 \<le> length (bitmap fa)
              \<and> word_at (bitmap fa) byte_idx OR low_mask bit_offset = - 1 then
             let advance = 64 - bit_offset
             in contig_loop fa count (searched + advance) ((index + advance) mod MAX_FRAMES)
           else if is_free fa index then
             (case run_break fa index count of
                Some i \<Rightarrow> contig_loop fa count (searched + (i + 1)) ((index + (i + 1)) mod MAX_FRAMES)
              | None \<Rightarrow>
                  (Some (of_nat index * of_nat PAGE_SIZE),
                   (mark_run index count fa)\<lparr> allocated_frames := allocated_frames fa + of_nat count,
                                              next_free_hint := (index + count) mod MAX_FRAMES \<rparr>))
           else contig_loop fa count (searched + 1) ((index + 1) mod MAX_FRAMES)
      else (None, fa))"
  by pat_completeness auto
termination
  by (relation "measure (\<lambda>(fa, count, searched, index). MAX_FRAMES - searched)")
    (auto simp: diff_less_mono2 less_Suc_eq_le)

declare contig_loop.simps [simp del]

definition allocate_contiguous :: "nat \<Rightarrow> frame_allocator \<Rightarrow> u64 option \<times> frame_allocator" where
  "allocate_contiguous count fa =
     (if \<not> initialized fa \<or> count = 0 then (None, fa)
      else if count = 1 then allocate fa
      else contig_loop fa (min count 32) 0 (next_free_hint fa))"

definition deallocate :: "u64 \<Rightarrow> frame_allocator \<Rightarrow> frame_allocator" where
  "deallocate phys_addr fa =
     (let i = unat (drop_bit 12 phys_addr) in
      if i < MAX_FRAMES \<and> \<not> is_free fa i then
        let fa' = (mark_free i fa)\<lparr> allocated_frames := allocated_frames fa - 1 \<rparr>
        in if i < next_free_hint fa then fa'\<lparr> next_free_hint := i \<rparr> else fa'
      else fa)"

section \<open>Initialisation\<close>

text \<open>
  A region of the boot loader's memory map, and a page table entry as the \<open>x86_64\<close> crate
  presents it. The page tables themselves are an argument: \<open>tab v k\<close> is entry \<open>k\<close> of the
  table at virtual address \<open>v\<close>.
\<close>

record memory_region =
  region_start :: u64
  region_end :: u64
  usable :: bool

record page_table_entry =
  present :: bool
  huge_page :: bool
  entry_frame :: "u64 option"

type_synonym page_tables = "u64 \<Rightarrow> nat \<Rightarrow> page_table_entry"

definition reserve_page_table_frame :: "u64 \<Rightarrow> frame_allocator \<Rightarrow> frame_allocator" where
  "reserve_page_table_frame paddr fa =
     (let i = unat (drop_bit 12 paddr) in if i < MAX_FRAMES then mark_used i fa else fa)"

definition walk_pd :: "page_tables \<Rightarrow> u64 \<Rightarrow> u64 \<Rightarrow> frame_allocator \<Rightarrow> frame_allocator" where
  "walk_pd tab off pd =
     fold (\<lambda>k fa.
       let e = tab (pd + off) k in
       if present e \<and> \<not> huge_page e then
         (case entry_frame e of Some pt \<Rightarrow> reserve_page_table_frame pt fa | None \<Rightarrow> fa)
       else fa) [0..<512]"

definition walk_pdpt :: "page_tables \<Rightarrow> u64 \<Rightarrow> u64 \<Rightarrow> frame_allocator \<Rightarrow> frame_allocator" where
  "walk_pdpt tab off pdpt =
     fold (\<lambda>j fa.
       let e = tab (pdpt + off) j in
       if present e \<and> \<not> huge_page e then
         (case entry_frame e of
            Some pd \<Rightarrow> walk_pd tab off pd (reserve_page_table_frame pd fa)
          | None \<Rightarrow> fa)
       else fa) [0..<512]"

definition walk_and_reserve_page_tables ::
  "page_tables \<Rightarrow> u64 \<Rightarrow> u64 \<Rightarrow> frame_allocator \<Rightarrow> frame_allocator" where
  "walk_and_reserve_page_tables tab off pml4 fa0 =
     fold (\<lambda>i fa.
       let e = tab (pml4 + off) i in
       if present e then
         (case entry_frame e of
            Some pdpt \<Rightarrow> walk_pdpt tab off pdpt (reserve_page_table_frame pdpt fa)
          | None \<Rightarrow> fa)
       else fa) [0..<512] (reserve_page_table_frame pml4 fa0)"

definition free_region :: "memory_region \<Rightarrow> frame_allocator \<Rightarrow> frame_allocator" where
  "free_region r fa =
     (if usable r then
        fold (\<lambda>frame fa. if frame < MAX_FRAMES then mark_free frame fa else fa)
          [unat (region_start r) div PAGE_SIZE ..< unat (region_end r) div PAGE_SIZE] fa
      else fa)"

definition frame_init :: "memory_region list \<Rightarrow> page_tables \<Rightarrow> u64 \<Rightarrow> u64 \<Rightarrow> frame_allocator \<Rightarrow> frame_allocator" where
  "frame_init regions tab off pml4 fa =
     (let fa = fold free_region regions fa;
          fa = walk_and_reserve_page_tables tab off pml4 fa;
          actual_free = length (filter (is_free fa) [0..<MAX_FRAMES])
      in fa\<lparr> total_frames := of_nat actual_free, allocated_frames := 0, initialized := True \<rparr>)"

section \<open>The free frames\<close>

definition bitmap_ok :: "frame_allocator \<Rightarrow> bool" where
  "bitmap_ok fa \<longleftrightarrow> length (bitmap fa) = BITMAP_SIZE"

definition free_set :: "frame_allocator \<Rightarrow> nat set" where
  "free_set fa = {i. is_free fa i}"

lemma MAX_FRAMES_facts:
  "0 < MAX_FRAMES" "64 dvd MAX_FRAMES" "BITMAP_SIZE * 8 = MAX_FRAMES" "MAX_FRAMES < 2 ^ 52"
  by (simp_all add: MAX_FRAMES_def BITMAP_SIZE_def)

lemma is_free_bit: "is_free fa i \<longleftrightarrow> i < MAX_FRAMES \<and> \<not> bit (bitmap fa ! (i div 8)) (i mod 8)"
  by (simp add: is_free_def push_bit_eq_mult and_exp_eq_0_iff_not_bit)

lemma byte_bound: "bitmap_ok fa \<Longrightarrow> i < MAX_FRAMES \<Longrightarrow> i div 8 < length (bitmap fa)"
  using MAX_FRAMES_facts(3) by (simp add: bitmap_ok_def less_mult_imp_div_less)

lemma mark_ok [simp]:
  "bitmap_ok (mark_used i fa) = bitmap_ok fa" "bitmap_ok (mark_free i fa) = bitmap_ok fa"
  by (simp_all add: bitmap_ok_def mark_used_def mark_free_def Let_def)

lemma free_mark_used:
  assumes "bitmap_ok fa"
  shows "is_free (mark_used i fa) j \<longleftrightarrow> j \<noteq> i \<and> is_free fa j"
proof (cases "i < MAX_FRAMES \<and> j < MAX_FRAMES \<and> j div 8 = i div 8")
  case True
  then have "j mod 8 = i mod 8 \<longleftrightarrow> j = i" by (metis div_mult_mod_eq)
  moreover have "j mod 8 < 8" by simp
  ultimately show ?thesis
    using True byte_bound [OF assms, of i]
    by (simp add: is_free_bit mark_used_def Let_def bit_simps) blast
qed (auto simp: is_free_bit mark_used_def Let_def)

lemma free_mark_free:
  assumes "bitmap_ok fa"
  shows "is_free (mark_free i fa) j \<longleftrightarrow> j = i \<and> i < MAX_FRAMES \<or> is_free fa j"
proof (cases "i < MAX_FRAMES \<and> j < MAX_FRAMES \<and> j div 8 = i div 8")
  case True
  then have "j mod 8 = i mod 8 \<longleftrightarrow> j = i" by (metis div_mult_mod_eq)
  moreover have "j mod 8 < 8" by simp
  ultimately show ?thesis
    using True byte_bound [OF assms, of i]
    by (simp add: is_free_bit mark_free_def Let_def bit_simps) blast
qed (auto simp: is_free_bit mark_free_def Let_def)

lemma free_set_mark [simp]:
  "bitmap_ok fa \<Longrightarrow> free_set (mark_used i fa) = free_set fa - {i}"
  "bitmap_ok fa \<Longrightarrow> free_set (mark_free i fa) = free_set fa \<union> ({i} \<inter> {..<MAX_FRAMES})"
  by (auto simp: free_set_def free_mark_used free_mark_free)

section \<open>The word scan\<close>

lemma word_at_bit:
  assumes "b + 8 \<le> length bm" "n < 64"
  shows "bit (word_at bm b) n = bit (bm ! (b + n div 8)) (n mod 8)"
proof -
  have "n div 8 < 8" using assms(2) by simp
  then show ?thesis using assms by (simp add: word_at_def from_le_bytes_bit array_simps)
qed

lemma low_mask_bit: "n < 64 \<Longrightarrow> k < 64 \<Longrightarrow> bit (low_mask k) n \<longleftrightarrow> n < k"
  by (auto simp: low_mask_def push_bit_eq_mult bit_mask_iff simp flip: mask_eq_exp_minus_1)

lemma all_ones_iff: "(v :: u64) = - 1 \<longleftrightarrow> (\<forall>n < 64. bit v n)"
  by (auto intro: bit_word_eqI)

text \<open>The frames of the word that holds \<open>index\<close>.\<close>

lemma word_in_bitmap:
  assumes "bitmap_ok fa" "index < MAX_FRAMES"
  shows "index div 64 * 8 + 8 \<le> length (bitmap fa)" "index div 64 * 64 + 64 \<le> MAX_FRAMES"
proof -
  obtain q where q: "MAX_FRAMES = 64 * q" using MAX_FRAMES_facts(2) by (rule dvdE)
  then have "index div 64 < q" using assms(2) by (simp add: less_mult_imp_div_less)
  then show "index div 64 * 64 + 64 \<le> MAX_FRAMES" using q by simp
  then show "index div 64 * 8 + 8 \<le> length (bitmap fa)"
    using assms(1) MAX_FRAMES_facts(3) by (simp add: bitmap_ok_def)
qed

lemma masked_bit:
  assumes ok: "bitmap_ok fa" and idx: "index < MAX_FRAMES" and n: "n < 64"
  shows "bit (word_at (bitmap fa) (index div 64 * 8) OR low_mask (index mod 64)) n \<longleftrightarrow>
    n < index mod 64 \<or> \<not> is_free fa (index div 64 * 64 + n)"
proof -
  let ?f = "index div 64 * 64 + n"
  have "?f < MAX_FRAMES" using word_in_bitmap(2) [OF ok idx] n by linarith
  moreover have f: "?f = n + (index div 64 * 8) * 8" by simp
  have "?f div 8 = index div 64 * 8 + n div 8" "?f mod 8 = n mod 8"
    unfolding f by (simp_all only: div_mult_self1 mod_mult_self1)
  with calculation show ?thesis
    using word_at_bit [OF word_in_bitmap(1) [OF ok idx] n] low_mask_bit [of n "index mod 64"] n
    by (auto simp: bit_or_iff is_free_bit)
qed

text \<open>A full word: no free frame from \<open>index\<close> to its end.\<close>

lemma word_full:
  assumes "bitmap_ok fa" "index < MAX_FRAMES"
  shows "word_at (bitmap fa) (index div 64 * 8) OR low_mask (index mod 64) = - 1 \<longleftrightarrow>
    (\<forall>k < 64 - index mod 64. \<not> is_free fa (index + k))" (is "?v = -1 \<longleftrightarrow> ?R")
proof -
  have "?v = - 1 \<longleftrightarrow> (\<forall>n < 64. n < index mod 64 \<or> \<not> is_free fa (index div 64 * 64 + n))"
    by (simp only: all_ones_iff masked_bit [OF assms] cong: all_cong)
  also have "\<dots> \<longleftrightarrow> ?R"
  proof
    assume L: "\<forall>n < 64. n < index mod 64 \<or> \<not> is_free fa (index div 64 * 64 + n)"
    show ?R
    proof (intro allI impI)
      fix k assume "k < 64 - index mod 64"
      then have "index mod 64 + k < 64" "index div 64 * 64 + (index mod 64 + k) = index + k" by auto
      with L show "\<not> is_free fa (index + k)" by (metis add.commute le_add2 linorder_not_less)
    qed
  next
    assume R: ?R
    show "\<forall>n < 64. n < index mod 64 \<or> \<not> is_free fa (index div 64 * 64 + n)"
    proof (intro allI impI)
      fix n :: nat assume n: "n < 64"
      show "n < index mod 64 \<or> \<not> is_free fa (index div 64 * 64 + n)"
      proof (cases "n < index mod 64")
        case False
        then have "n - index mod 64 < 64 - index mod 64"
          "index div 64 * 64 + n = index + (n - index mod 64)"
          using n div_mult_mod_eq [of index 64] by linarith+
        with R show ?thesis by simp
      qed simp
    qed
  qed
  finally show ?thesis .
qed

lemma trailing_zeros_bit:
  assumes "v \<noteq> 0"
  shows "trailing_zeros v < 64 \<and> bit v (trailing_zeros v)"
proof -
  obtain n where n: "n < 64" "bit v n" using assms bit_word_eqI [of v 0] by auto
  have "takeWhile (\<lambda>n. \<not> bit v n) [0..<64] \<noteq> [0..<64]"
    using n unfolding takeWhile_eq_all_conv by auto
  then have "trailing_zeros v < 64"
    using length_takeWhile_le [of "\<lambda>n. \<not> bit v n" "[0..<64]"] takeWhile_eq_take [of "\<lambda>n. \<not> bit v n" "[0..<64]"]
    by (cases "trailing_zeros v = 64") (auto simp: trailing_zeros_def)
  moreover from this have "\<not> \<not> bit v ([0..<64] ! trailing_zeros v)"
    unfolding trailing_zeros_def by (intro nth_length_takeWhile) simp
  ultimately show ?thesis by simp
qed

text \<open>Otherwise the lowest clear bit is a free frame of the word.\<close>

lemma word_free:
  assumes "bitmap_ok fa" "index < MAX_FRAMES"
    and "v = word_at (bitmap fa) (index div 64 * 8) OR low_mask (index mod 64)" "v \<noteq> - 1"
  shows "is_free fa (index div 64 * 64 + trailing_zeros (NOT v))"
proof -
  have "NOT v \<noteq> 0" using assms(4) by (metis bit.double_compl bit.compl_zero)
  then have "trailing_zeros (NOT v) < 64" "\<not> bit v (trailing_zeros (NOT v))"
    using trailing_zeros_bit [of "NOT v"] by (auto simp: bit_not_iff)
  then show ?thesis using masked_bit [OF assms(1,2)] assms(3) by blast
qed

section \<open>Allocation\<close>

text \<open>No free frame in a whole round from \<open>index\<close>, given one for the part after \<open>advance\<close>.\<close>

lemma round_advance:
  assumes "index + a \<le> MAX_FRAMES" "\<forall>k < a. \<not> is_free fa (index + k)"
    and "\<forall>k < MAX_FRAMES - (s + a). \<not> is_free fa (((index + a) mod MAX_FRAMES + k) mod MAX_FRAMES)"
  shows "\<forall>k < MAX_FRAMES - s. \<not> is_free fa ((index + k) mod MAX_FRAMES)"
proof (intro allI impI)
  fix k assume k: "k < MAX_FRAMES - s"
  show "\<not> is_free fa ((index + k) mod MAX_FRAMES)"
  proof (cases "k < a")
    case True
    then show ?thesis using assms(1,2) by simp
  next
    case False
    then have "k = a + (k - a)" by simp
    then have "((index + a) mod MAX_FRAMES + (k - a)) mod MAX_FRAMES = (index + k) mod MAX_FRAMES"
      by (metis add.assoc mod_add_left_eq)
    moreover have "k - a < MAX_FRAMES - (s + a)" using False k by linarith
    ultimately show ?thesis using assms(3) by metis
  qed
qed

text \<open>
  The loop either takes a free frame or has seen every position of the round that is left
  and found none free.
\<close>

lemma alloc_loop_spec:
  assumes "bitmap_ok fa" "index < MAX_FRAMES"
  shows "alloc_loop fa s index = (None, fa) \<and> (\<forall>k < MAX_FRAMES - s. \<not> is_free fa ((index + k) mod MAX_FRAMES)) \<or>
    (\<exists>i. is_free fa i \<and> alloc_loop fa s index = take_frame i fa)"
  using assms
proof (induction fa s index rule: alloc_loop.induct)
  case (1 fa s index)
  let ?v = "word_at (bitmap fa) (index div 64 * 8) OR low_mask (index mod 64)"
  let ?a = "64 - index mod 64"
  let ?next = "(index + ?a) mod MAX_FRAMES"
  have b: "index div 64 * 8 + 8 \<le> length (bitmap fa)"
    by (rule word_in_bitmap(1) [OF "1.prems"])
  show ?case
  proof (cases "s < MAX_FRAMES")
    case False
    then show ?thesis by (subst alloc_loop.simps) simp
  next
    case s: True
    show ?thesis
    proof (cases "?v = - 1")
      case True
      have eq: "alloc_loop fa s index = alloc_loop fa (s + ?a) ?next"
        using s b True by (subst alloc_loop.simps) (simp add: Let_def)
      have IH: "alloc_loop fa (s + ?a) ?next = (None, fa) \<and>
          (\<forall>k < MAX_FRAMES - (s + ?a). \<not> is_free fa ((?next + k) mod MAX_FRAMES)) \<or>
          (\<exists>i. is_free fa i \<and> alloc_loop fa (s + ?a) ?next = take_frame i fa)"
        by (rule "1.IH"(1) [OF s refl b refl refl refl refl True "1.prems"(1)])
          (simp add: MAX_FRAMES_facts)
      have "index + ?a \<le> MAX_FRAMES"
        using word_in_bitmap(2) [OF "1.prems"] div_mult_mod_eq [of index 64] by linarith
      then have "\<forall>k < MAX_FRAMES - s. \<not> is_free fa ((index + k) mod MAX_FRAMES)"
        if "\<forall>k < MAX_FRAMES - (s + ?a). \<not> is_free fa ((?next + k) mod MAX_FRAMES)"
        using round_advance word_full [OF "1.prems"] True that by blast
      then show ?thesis using IH unfolding eq by blast
    next
      case False
      have free: "is_free fa (index div 64 * 64 + trailing_zeros (NOT ?v))"
        by (rule word_free [OF "1.prems" refl False])
      then have "index div 64 * 64 + trailing_zeros (NOT ?v) < MAX_FRAMES" by (simp add: is_free_bit)
      then have "alloc_loop fa s index = take_frame (index div 64 * 64 + trailing_zeros (NOT ?v)) fa"
        using s b False by (subst alloc_loop.simps) (simp add: Let_def)
      then show ?thesis using free by blast
    qed
  qed
qed

definition hint_ok :: "frame_allocator \<Rightarrow> bool" where
  "hint_ok fa \<longleftrightarrow> bitmap_ok fa \<and> next_free_hint fa < MAX_FRAMES"

lemma allocate_cases:
  assumes "hint_ok fa" "initialized fa"
  shows "free_set fa = {} \<and> allocate fa = (None, fa) \<or>
    (\<exists>i \<in> free_set fa. allocate fa = take_frame i fa)"
proof -
  have "\<not> is_free fa j"
    if "\<forall>k < MAX_FRAMES. \<not> is_free fa ((next_free_hint fa + k) mod MAX_FRAMES)" for j
  proof (cases "j < MAX_FRAMES")
    case True
    let ?h = "next_free_hint fa"
    let ?k = "(j + (MAX_FRAMES - ?h)) mod MAX_FRAMES"
    have "(?h + ?k) mod MAX_FRAMES = (?h + (j + (MAX_FRAMES - ?h))) mod MAX_FRAMES"
      by (simp add: mod_add_right_eq)
    also have "?h + (j + (MAX_FRAMES - ?h)) = j + MAX_FRAMES" using assms(1) by (simp add: hint_ok_def)
    finally have "(?h + ?k) mod MAX_FRAMES = j" using True by simp
    then show ?thesis using that MAX_FRAMES_facts(1) by (metis mod_less_divisor)
  qed (simp add: is_free_bit)
  then show ?thesis
    using alloc_loop_spec [of fa "next_free_hint fa" 0] assms
    by (auto simp: allocate_def hint_ok_def free_set_def)
qed

text \<open>Taking a frame, seen on the set of free frames.\<close>

lemma counter_fields [simp]:
  "free_set (f\<lparr>allocated_frames := x\<rparr>) = free_set f" "free_set (f\<lparr>next_free_hint := y\<rparr>) = free_set f"
  "bitmap_ok (f\<lparr>allocated_frames := x\<rparr>) = bitmap_ok f" "bitmap_ok (f\<lparr>next_free_hint := y\<rparr>) = bitmap_ok f"
  "is_free (f\<lparr>allocated_frames := x\<rparr>) = is_free f" "is_free (f\<lparr>next_free_hint := y\<rparr>) = is_free f"
  by (simp_all add: free_set_def is_free_def [abs_def] bitmap_ok_def)

lemma mark_fields [simp]:
  "initialized (mark_used i fa) = initialized fa" "initialized (mark_free i fa) = initialized fa"
  "total_frames (mark_used i fa) = total_frames fa" "total_frames (mark_free i fa) = total_frames fa"
  "next_free_hint (mark_used i fa) = next_free_hint fa" "next_free_hint (mark_free i fa) = next_free_hint fa"
  by (simp_all add: mark_used_def mark_free_def Let_def)

lemma take_frame_props:
  assumes "hint_ok fa" "take_frame i fa = (p, fa')"
  shows "p = Some (of_nat i * of_nat PAGE_SIZE)" "free_set fa' = free_set fa - {i}"
    "hint_ok fa'" "initialized fa' = initialized fa"
proof -
  have p: "p = Some (of_nat i * of_nat PAGE_SIZE)"
    and fa': "fa' = (mark_used i fa)\<lparr> allocated_frames := allocated_frames fa + 1,
                                   next_free_hint := (i + 1) mod MAX_FRAMES \<rparr>"
    using assms(2) by (auto simp: take_frame_def)
  show "p = Some (of_nat i * of_nat PAGE_SIZE)" by (rule p)
  show "free_set fa' = free_set fa - {i}" "hint_ok fa'" "initialized fa' = initialized fa"
    using assms(1) MAX_FRAMES_facts(1) by (simp_all add: fa' hint_ok_def)
qed

subsection \<open>Runs\<close>

lemma mark_run_props:
  assumes "bitmap_ok fa"
  shows "bitmap_ok (mark_run i n fa) \<and> free_set (mark_run i n fa) = free_set fa - {i..<i + n} \<and>
    initialized (mark_run i n fa) = initialized fa"
proof (induction n)
  case (Suc n)
  have "mark_run i (Suc n) fa = mark_used (i + n) (mark_run i n fa)" by (simp add: mark_run_def)
  moreover have "free_set fa - {i..<i + Suc n} = free_set fa - {i..<i + n} - {i + n}" by auto
  ultimately show ?case using Suc by simp
qed (simp add: mark_run_def assms)

lemma run_break_None:
  assumes "run_break fa i n = None" "is_free fa i" "0 < n"
  shows "i + n \<le> MAX_FRAMES \<and> (\<forall>k < n. is_free fa (i + k))"
proof -
  have "i + k < MAX_FRAMES \<and> is_free fa (i + k)" if "k < n" for k
  proof (cases "k = 0")
    case True
    then show ?thesis using assms(2) by (simp add: is_free_bit)
  next
    case False
    then show ?thesis using assms(1) that by (auto simp: run_break_def find_None_iff not_le)
  qed
  from this this [of "n - 1"] assms(3) show ?thesis by auto
qed

definition run_taken :: "frame_allocator \<Rightarrow> nat \<Rightarrow> u64 option \<times> frame_allocator \<Rightarrow> bool" where
  "run_taken fa n r \<longleftrightarrow>
     r = (None, fa) \<or>
     (\<exists>i. i + n \<le> MAX_FRAMES \<and> {i..<i + n} \<subseteq> free_set fa \<and>
        r = (Some (of_nat i * of_nat PAGE_SIZE),
             (mark_run i n fa)\<lparr> allocated_frames := allocated_frames fa + of_nat n,
                                next_free_hint := (i + n) mod MAX_FRAMES \<rparr>))"

lemma contig_loop_spec:
  assumes "1 < count"
  shows "run_taken fa count (contig_loop fa count s index)"
  using assms
proof (induction fa count s index rule: contig_loop.induct)
  case (1 fa count s index)
  let ?full = "index div 64 * 8 + 8 \<le> length (bitmap fa) \<and>
    word_at (bitmap fa) (index div 64 * 8) OR low_mask (index mod 64) = - 1"
  consider "\<not> s < MAX_FRAMES" | "s < MAX_FRAMES" "?full"
    | i where "s < MAX_FRAMES" "\<not> ?full" "is_free fa index" "run_break fa index count = Some i"
    | "s < MAX_FRAMES" "\<not> ?full" "is_free fa index" "run_break fa index count = None"
    | "s < MAX_FRAMES" "\<not> ?full" "\<not> is_free fa index"
    by (cases "run_break fa index count") blast+
  then show ?case
  proof cases
    case 1
    then show ?thesis by (subst contig_loop.simps) (simp add: run_taken_def)
  next
    case 2
    then have eq: "contig_loop fa count s index =
        contig_loop fa count (s + (64 - index mod 64)) ((index + (64 - index mod 64)) mod MAX_FRAMES)"
      by (subst contig_loop.simps) (simp add: Let_def)
    show ?thesis unfolding eq by (rule "1.IH"(1) [OF 2(1) refl refl 2(2) refl "1.prems"])
  next
    case 3
    then have eq: "contig_loop fa count s index =
        contig_loop fa count (s + (i + 1)) ((index + (i + 1)) mod MAX_FRAMES)"
      by (subst contig_loop.simps) (simp only: Let_def if_True if_False option.case)
    show ?thesis unfolding eq by (rule "1.IH"(2) [OF 3(1) refl refl 3(2,3,4) "1.prems"])
  next
    case 4
    then have run: "index + count \<le> MAX_FRAMES" "{index..<index + count} \<subseteq> free_set fa"
      using run_break_None [OF 4(4,3)] "1.prems" by (auto simp: free_set_def subset_iff le_iff_add)
    have eq: "contig_loop fa count s index =
        (Some (of_nat index * of_nat PAGE_SIZE),
         (mark_run index count fa)\<lparr> allocated_frames := allocated_frames fa + of_nat count,
                                    next_free_hint := (index + count) mod MAX_FRAMES \<rparr>)"
      using 4 by (subst contig_loop.simps) (simp only: Let_def if_True if_False option.case)
    show ?thesis unfolding eq run_taken_def using run by blast
  next
    case 5
    then have eq: "contig_loop fa count s index =
        contig_loop fa count (s + 1) ((index + 1) mod MAX_FRAMES)"
      by (subst contig_loop.simps) (simp only: Let_def if_True if_False)
    show ?thesis unfolding eq by (rule "1.IH"(3) [OF 5(1) refl refl 5(2,3) "1.prems"])
  qed
qed

text \<open>
  What a run request of at least two frames takes: the run is free before, and exactly the
  clamped length of it is taken.
\<close>

lemma allocate_contiguous_cases:
  assumes "hint_ok fa" "1 < count" "allocate_contiguous count fa = (p, fa')"
  shows "p = None \<and> fa' = fa \<or>
    (\<exists>i. p = Some (of_nat i * of_nat PAGE_SIZE) \<and> i + min count 32 \<le> MAX_FRAMES \<and>
       {i..<i + min count 32} \<subseteq> free_set fa \<and> free_set fa' = free_set fa - {i..<i + min count 32} \<and>
       hint_ok fa' \<and> initialized fa' = initialized fa)"
proof -
  have ok: "bitmap_ok fa" using assms(1) by (simp add: hint_ok_def)
  have "run_taken fa (min count 32) (p, fa')"
    using assms(2,3) contig_loop_spec [of "min count 32" fa 0 "next_free_hint fa"]
    by (auto simp: allocate_contiguous_def run_taken_def split: if_splits)
  then consider "p = None" "fa' = fa"
    | i where "i + min count 32 \<le> MAX_FRAMES" "{i..<i + min count 32} \<subseteq> free_set fa"
      "p = Some (of_nat i * of_nat PAGE_SIZE)"
      "fa' = (mark_run i (min count 32) fa)\<lparr> allocated_frames := allocated_frames fa + of_nat (min count 32),
                                next_free_hint := (i + min count 32) mod MAX_FRAMES \<rparr>"
    by (simp only: run_taken_def prod.inject) blast
  then show ?thesis
  proof cases
    case 2
    have "hint_ok fa'" "free_set fa' = free_set fa - {i..<i + min count 32}" "initialized fa' = initialized fa"
      using mark_run_props [OF ok, of i "min count 32"] MAX_FRAMES_facts(1)
      unfolding hint_ok_def 2(4) by simp_all
    then show ?thesis using 2(1-3) by blast
  qed simp
qed

subsection \<open>Frames and addresses\<close>

definition frame_of :: "u64 \<Rightarrow> nat" where
  "frame_of p = unat (drop_bit 12 p)"

lemma frame_of_addr:
  assumes "i < MAX_FRAMES"
  shows "frame_of (of_nat i * of_nat PAGE_SIZE) = i"
proof -
  have "i * 4096 < 2 ^ 64" using assms MAX_FRAMES_facts(4) by simp
  then have "unat (of_nat i * of_nat PAGE_SIZE :: u64) = i * 4096"
    using unat_of_nat_small [of "i * 4096", where 'a = 64] by (simp add: PAGE_SIZE_def)
  then show ?thesis unfolding frame_of_def unat_drop_bit_eq by (simp add: drop_bit_eq_div)
qed

lemma deallocate_props:
  assumes "hint_ok fa"
  shows "free_set (deallocate p fa) = free_set fa \<union> ({frame_of p} \<inter> {..<MAX_FRAMES})"
    "hint_ok (deallocate p fa)" "initialized (deallocate p fa) = initialized fa"
  using assms by (auto simp: deallocate_def Let_def hint_ok_def frame_of_def free_set_def free_mark_free)

subsection \<open>Accounting\<close>

text \<open>The free frames are those that are not counted as allocated.\<close>

definition acct :: "frame_allocator \<Rightarrow> bool" where
  "acct fa \<longleftrightarrow> total_frames fa = allocated_frames fa + of_nat (card (free_set fa))"

lemma free_bound: "free_set fa \<subseteq> {..<MAX_FRAMES}"
  by (auto simp: free_set_def is_free_bit)

lemma finite_free [simp]: "finite (free_set fa)"
  using free_bound finite_subset by blast

lemma take_frame_acct:
  assumes "hint_ok fa" "acct fa" "i \<in> free_set fa"
  shows "acct (snd (take_frame i fa))"
proof -
  have "card (free_set fa) = Suc (card (free_set fa - {i}))" by (rule card.remove) (use assms in simp_all)
  then obtain c where c: "card (free_set fa - {i}) = c" "card (free_set fa) = Suc c" by blast
  have "free_set (snd (take_frame i fa)) = free_set fa - {i}"
    using assms(1) by (simp add: take_frame_def hint_ok_def)
  then show ?thesis using assms(2) c by (simp add: acct_def) (simp add: take_frame_def)
qed

lemma run_acct:
  assumes "bitmap_ok fa" "acct fa" "{i..<i + n} \<subseteq> free_set fa"
  shows "acct ((mark_run i n fa)\<lparr> allocated_frames := allocated_frames fa + of_nat n, next_free_hint := h \<rparr>)"
proof -
  have "n \<le> card (free_set fa)" using card_mono [OF finite_free assms(3)] by simp
  moreover have "card (free_set fa - {i..<i + n}) = card (free_set fa) - n"
    using assms(3) by (simp add: card_Diff_subset)
  ultimately have c: "\<exists>c. card (free_set fa - {i..<i + n}) = c \<and> card (free_set fa) = n + c"
    by (intro exI [of _ "card (free_set fa) - n"]) simp
  have t: "total_frames (mark_run i n fa) = total_frames fa"
    by (induction n) (simp_all add: mark_run_def)
  have "free_set (mark_run i n fa) = free_set fa - {i..<i + n}" using mark_run_props [OF assms(1)] by blast
  then show ?thesis using assms(2) c t by (elim exE conjE) (simp add: acct_def)
qed

lemma deallocate_counts:
  "total_frames (deallocate p fa) = total_frames fa"
  "allocated_frames (deallocate p fa) =
     (if frame_of p < MAX_FRAMES \<and> \<not> is_free fa (frame_of p) then allocated_frames fa - 1
      else allocated_frames fa)"
  unfolding deallocate_def Let_def frame_of_def [symmetric] by (auto split: if_split)

lemma deallocate_acct:
  assumes "hint_ok fa" "acct fa"
  shows "acct (deallocate p fa)"
proof (cases "frame_of p < MAX_FRAMES \<and> \<not> is_free fa (frame_of p)")
  case True
  then have "frame_of p \<notin> free_set fa" by (simp add: free_set_def)
  moreover have "free_set (deallocate p fa) = insert (frame_of p) (free_set fa)"
    using True deallocate_props(1) [OF assms(1), of p] by auto
  ultimately have "card (free_set (deallocate p fa)) = Suc (card (free_set fa))" by simp
  then show ?thesis using assms(2) True by (simp add: acct_def deallocate_counts)
next
  case False
  then have "deallocate p fa = fa"
    unfolding deallocate_def Let_def frame_of_def [symmetric] by auto
  then show ?thesis using assms by simp
qed

section \<open>Initialisation, on sets\<close>

text \<open>A loop whose steps remove, or add, known sets of free frames.\<close>

lemma fold_remove:
  assumes "\<And>k fa. hint_ok fa \<Longrightarrow> hint_ok (f k fa) \<and> free_set (f k fa) = free_set fa - S k"
  shows "hint_ok fa \<Longrightarrow> hint_ok (fold f ks fa) \<and> free_set (fold f ks fa) = free_set fa - (\<Union>k \<in> set ks. S k)"
proof (induction ks arbitrary: fa)
  case (Cons k ks)
  then show ?case using assms [OF Cons.prems, of k] by (auto simp: Cons.IH)
qed simp

lemma fold_add:
  assumes "\<And>k fa. hint_ok fa \<Longrightarrow> hint_ok (f k fa) \<and> free_set (f k fa) = free_set fa \<union> S k"
  shows "hint_ok fa \<Longrightarrow> hint_ok (fold f ks fa) \<and> free_set (fold f ks fa) = free_set fa \<union> (\<Union>k \<in> set ks. S k)"
proof (induction ks arbitrary: fa)
  case (Cons k ks)
  then show ?case using assms [OF Cons.prems, of k] by (auto simp: Cons.IH)
qed simp

lemma hint_ok_mark [simp]:
  "hint_ok (mark_used i fa) = hint_ok fa" "hint_ok (mark_free i fa) = hint_ok fa"
  "hint_ok fa \<Longrightarrow> free_set (mark_used i fa) = free_set fa - {i}"
  "hint_ok fa \<Longrightarrow> free_set (mark_free i fa) = free_set fa \<union> ({i} \<inter> {..<MAX_FRAMES})"
  by (simp_all add: hint_ok_def)

text \<open>The frames that hold the active page tables.\<close>

definition pd_frames :: "page_tables \<Rightarrow> u64 \<Rightarrow> u64 \<Rightarrow> nat set" where
  "pd_frames tab off pd =
     (\<Union>k \<in> {0..<512}. let e = tab (pd + off) k in
        if present e \<and> \<not> huge_page e then frame_of ` set_option (entry_frame e) else {})"

definition pdpt_frames :: "page_tables \<Rightarrow> u64 \<Rightarrow> u64 \<Rightarrow> nat set" where
  "pdpt_frames tab off pdpt =
     (\<Union>j \<in> {0..<512}. let e = tab (pdpt + off) j in
        if present e \<and> \<not> huge_page e
        then \<Union>pd \<in> set_option (entry_frame e). {frame_of pd} \<union> pd_frames tab off pd else {})"

definition pml4_frames :: "page_tables \<Rightarrow> u64 \<Rightarrow> u64 \<Rightarrow> nat set" where
  "pml4_frames tab off pml4 =
     {frame_of pml4} \<union>
     (\<Union>i \<in> {0..<512}. let e = tab (pml4 + off) i in
        if present e
        then \<Union>pdpt \<in> set_option (entry_frame e). {frame_of pdpt} \<union> pdpt_frames tab off pdpt else {})"

lemma reserve_props:
  assumes "hint_ok fa"
  shows "hint_ok (reserve_page_table_frame p fa) \<and>
    free_set (reserve_page_table_frame p fa) = free_set fa - {frame_of p}"
  using assms free_bound [of fa] by (auto simp: reserve_page_table_frame_def Let_def frame_of_def)

lemma walk_pd_props:
  assumes "hint_ok fa"
  shows "hint_ok (walk_pd tab off pd fa) \<and> free_set (walk_pd tab off pd fa) = free_set fa - pd_frames tab off pd"
  unfolding walk_pd_def pd_frames_def set_upt [symmetric]
  by (rule fold_remove [OF _ assms]) (auto simp: Let_def reserve_props split: option.split)

lemma walk_pdpt_props:
  assumes "hint_ok fa"
  shows "hint_ok (walk_pdpt tab off p fa) \<and> free_set (walk_pdpt tab off p fa) = free_set fa - pdpt_frames tab off p"
  unfolding walk_pdpt_def pdpt_frames_def set_upt [symmetric]
  by (rule fold_remove [OF _ assms]) (auto simp: Let_def reserve_props walk_pd_props split: option.split)

lemma walk_props:
  assumes "hint_ok fa"
  shows "hint_ok (walk_and_reserve_page_tables tab off p fa) \<and>
    free_set (walk_and_reserve_page_tables tab off p fa) = free_set fa - pml4_frames tab off p"
proof -
  have ok: "hint_ok (reserve_page_table_frame p fa)" using reserve_props [OF assms] by blast
  have "hint_ok (walk_and_reserve_page_tables tab off p fa) \<and>
    free_set (walk_and_reserve_page_tables tab off p fa) =
      free_set (reserve_page_table_frame p fa) -
      (\<Union>i \<in> set [0..<512]. let e = tab (p + off) i in
        if present e
        then \<Union>q \<in> set_option (entry_frame e). {frame_of q} \<union> pdpt_frames tab off q else {})"
    unfolding walk_and_reserve_page_tables_def
    by (rule fold_remove [OF _ ok]) (auto simp: Let_def reserve_props walk_pdpt_props split: option.split)
  then show ?thesis using reserve_props [OF assms, of p] unfolding pml4_frames_def set_upt by blast
qed

definition region_frames :: "memory_region \<Rightarrow> nat set" where
  "region_frames r =
     (if usable r then {unat (region_start r) div PAGE_SIZE ..< unat (region_end r) div PAGE_SIZE} else {})
     \<inter> {..<MAX_FRAMES}"

lemma free_region_props:
  assumes "hint_ok fa"
  shows "hint_ok (free_region r fa) \<and> free_set (free_region r fa) = free_set fa \<union> region_frames r"
proof (cases "usable r")
  case True
  let ?ks = "[unat (region_start r) div PAGE_SIZE ..< unat (region_end r) div PAGE_SIZE]"
  have "hint_ok (fold (\<lambda>k fa. if k < MAX_FRAMES then mark_free k fa else fa) ?ks fa) \<and>
    free_set (fold (\<lambda>k fa. if k < MAX_FRAMES then mark_free k fa else fa) ?ks fa) =
      free_set fa \<union> (\<Union>k \<in> set ?ks. {k} \<inter> {..<MAX_FRAMES})"
    by (rule fold_add [OF _ assms]) auto
  moreover have "(\<Union>k \<in> set ?ks. {k} \<inter> {..<MAX_FRAMES}) = set ?ks \<inter> {..<MAX_FRAMES}" by auto
  ultimately show ?thesis using True by (simp add: free_region_def region_frames_def)
qed (simp add: free_region_def region_frames_def assms)

lemma new_props: "hint_ok frame_allocator_new" "free_set frame_allocator_new = {}"
proof -
  have ok: "bitmap_ok frame_allocator_new" by (simp add: bitmap_ok_def frame_allocator_new_def)
  then show "hint_ok frame_allocator_new"
    using MAX_FRAMES_facts(1) by (simp add: hint_ok_def frame_allocator_new_def)
  have "bit (0xFF :: u8) (i mod 8)" for i :: nat
    using bit_mask_iff [of 8 "i mod 8", where 'a = u8] by (simp add: mask_eq_exp_minus_1)
  then show "free_set frame_allocator_new = {}"
    using byte_bound [OF ok] by (auto simp: free_set_def is_free_bit frame_allocator_new_def)
qed

lemma count_free: "length (filter (is_free fa) [0..<MAX_FRAMES]) = card (free_set fa)"
proof -
  have "card (set (filter (is_free fa) [0..<MAX_FRAMES])) = length (filter (is_free fa) [0..<MAX_FRAMES])"
    by (rule distinct_card) simp
  moreover have "set (filter (is_free fa) [0..<MAX_FRAMES]) = free_set fa"
    using free_bound [of fa] by (auto simp: free_set_def)
  ultimately show ?thesis by simp
qed

text \<open>Nothing in the initialisation moves the hint.\<close>

lemma fold_hint:
  assumes "\<And>k fa. next_free_hint (f k fa) = next_free_hint fa"
  shows "next_free_hint (fold f ks fa) = next_free_hint fa"
  by (induction ks arbitrary: fa) (simp_all add: assms)

lemma init_hint: "next_free_hint (frame_init regions tab off pml4 fa) = next_free_hint fa"
proof -
  have r: "next_free_hint (reserve_page_table_frame p fa) = next_free_hint fa" for p fa
    by (simp add: reserve_page_table_frame_def Let_def)
  have pd: "next_free_hint (walk_pd tab off p fa) = next_free_hint fa" for p fa
    unfolding walk_pd_def by (rule fold_hint) (simp add: Let_def r split: option.split)
  have pdpt: "next_free_hint (walk_pdpt tab off p fa) = next_free_hint fa" for p fa
    unfolding walk_pdpt_def by (rule fold_hint) (simp add: Let_def r pd split: option.split)
  have walk: "next_free_hint (walk_and_reserve_page_tables tab off p fa) = next_free_hint fa" for p fa
    unfolding walk_and_reserve_page_tables_def
    by (subst fold_hint) (simp_all add: Let_def r pdpt split: option.split)
  have "next_free_hint (free_region reg fa) = next_free_hint fa" for reg fa
    by (simp add: free_region_def fold_hint)
  then show ?thesis by (simp add: frame_init_def Let_def walk fold_hint)
qed

lemma init_props:
  "let fa = frame_init regions tab off pml4 frame_allocator_new
   in free_set fa = (\<Union>r \<in> set regions. region_frames r) - pml4_frames tab off pml4 \<and>
      total_frames fa = of_nat (card (free_set fa)) \<and> allocated_frames fa = 0 \<and>
      hint_ok fa \<and> initialized fa"
proof -
  define fa1 where "fa1 = fold free_region regions frame_allocator_new"
  define fa2 where "fa2 = walk_and_reserve_page_tables tab off pml4 fa1"
  have 1: "hint_ok fa1 \<and> free_set fa1 = (\<Union>r \<in> set regions. region_frames r)"
    using fold_add [of free_region, OF free_region_props new_props(1)] new_props(2) by (simp add: fa1_def)
  then have 2: "hint_ok fa2 \<and> free_set fa2 = free_set fa1 - pml4_frames tab off pml4"
    using walk_props by (simp add: fa2_def)
  have fields: "free_set (fa2\<lparr> total_frames := x, allocated_frames := y, initialized := z \<rparr>) = free_set fa2"
    for x y z by (simp add: free_set_def is_free_def)
  show ?thesis
    using 1 2
    by (simp add: frame_init_def Let_def fa1_def [symmetric] fa2_def [symmetric] fields count_free
        hint_ok_def bitmap_ok_def)
qed

section \<open>Properties\<close>

text \<open>
  C22. The word-wise search with hint is exact: on an initialised allocator \<open>allocate\<close>
  fails only when no frame at all is free and then changes nothing; otherwise it returns the
  page address of a frame that was free and removes exactly this frame from the free set.
\<close>

theorem allocate_exact:
  assumes "hint_ok fa" "initialized fa"
  shows "case allocate fa of
      (None, fa') \<Rightarrow> free_set fa = {} \<and> fa' = fa
    | (Some p, fa') \<Rightarrow> frame_of p \<in> free_set fa \<and> p = of_nat (frame_of p) * of_nat PAGE_SIZE \<and>
        free_set fa' = free_set fa - {frame_of p} \<and> hint_ok fa'"
proof (cases "free_set fa = {}")
  case True
  then show ?thesis using allocate_cases [OF assms] by auto
next
  case False
  then obtain i where i: "i \<in> free_set fa" "allocate fa = take_frame i fa"
    using allocate_cases [OF assms] by blast
  obtain p fa' where t: "take_frame i fa = (p, fa')" by fastforce
  have "frame_of (of_nat i * of_nat PAGE_SIZE) = i"
    using frame_of_addr free_bound [of fa] i(1) by blast
  then show ?thesis using take_frame_props [OF assms(1) t] i t by simp
qed

definition demo_frames :: frame_allocator where
  "demo_frames = frame_allocator_new\<lparr> bitmap := replicate BITMAP_SIZE 0, initialized := True \<rparr>"

lemma demo_frames_ok: "hint_ok demo_frames" "initialized demo_frames" "free_set demo_frames = {..<MAX_FRAMES}"
  using byte_bound [of demo_frames] MAX_FRAMES_facts(1)
  by (auto simp: demo_frames_def frame_allocator_new_def hint_ok_def bitmap_ok_def free_set_def is_free_bit)

theorem allocate_exact_witness:
  "\<exists>p fa'. allocate demo_frames = (Some p, fa') \<and> frame_of p < MAX_FRAMES \<and>
     free_set fa' = {..<MAX_FRAMES} - {frame_of p}"
  using allocate_exact [OF demo_frames_ok(1,2)] MAX_FRAMES_facts(1)
  by (auto simp: demo_frames_ok(3) split: prod.splits option.splits)

text \<open>
  After \<open>init\<close> the free frames are exactly the frames of the usable regions that the
  bitmap covers, without every frame that holds a page table of the active hierarchy (the
  PML4, the PDPTs, the page directories and the page tables, huge pages not followed); the
  total is their number, nothing is counted as allocated, and the allocator is ready.
\<close>

theorem init_free_frames:
  "let fa = frame_init regions tab off pml4 frame_allocator_new
   in free_set fa = (\<Union>r \<in> set regions. region_frames r) - pml4_frames tab off pml4 \<and>
      total_frames fa = of_nat (card (free_set fa)) \<and> allocated_frames fa = 0 \<and>
      hint_ok fa \<and> initialized fa"
  by (rule init_props)

end
