(* ===== verification/Frame_Cache.thy ===== *)
theory Frame_Cache
  imports Frame_Bitmap
begin

text \<open>
  The frame interface of \<open>memory/physical.rs\<close> above the bitmap: the per-core caches of up to
  16 frames, the reference counts \<open>FRAME_REFS\<close>, and \<open>allocate_frame\<close>,
  \<open>allocate_contiguous_frames\<close>, \<open>deallocate_frame\<close>, \<open>increment_ref\<close>, \<open>decrement_ref\<close>,
  \<open>stats\<close> and \<open>drain_local_cache\<close>. Each function is one step; a compare-exchange loop is
  its successful iteration. The theory shows that no frame with a holder is ever handed out
  again, on any core and through any mix of the operations.
\<close>

section \<open>Model\<close>

record core_frame_cache =
  frames :: "u64 list"
  count :: nat

definition core_frame_cache_new :: core_frame_cache where
  "core_frame_cache_new = \<lparr> frames = replicate 16 0, count = 0 \<rparr>"

record frame_state =
  galloc :: frame_allocator                  \<comment> \<open>\<open>FRAME_ALLOCATOR\<close>\<close>
  caches :: "nat \<Rightarrow> core_frame_cache"         \<comment> \<open>\<open>CORE_CACHES\<close>\<close>
  refs :: "nat \<Rightarrow> u8"                         \<comment> \<open>\<open>FRAME_REFS\<close>\<close>

definition cache_push :: "u64 \<Rightarrow> core_frame_cache \<Rightarrow> core_frame_cache" where
  "cache_push f c = c\<lparr> frames := (frames c)[count c := f], count := count c + 1 \<rparr>"

definition cache_pop :: "core_frame_cache \<Rightarrow> u64 \<times> core_frame_cache" where
  "cache_pop c = (frames c ! (count c - 1), c\<lparr> count := count c - 1 \<rparr>)"

definition set_cache :: "nat \<Rightarrow> core_frame_cache \<Rightarrow> frame_state \<Rightarrow> frame_state" where
  "set_cache core c s = s\<lparr> caches := (caches s)(core := c) \<rparr>"

definition increment_ref :: "u64 \<Rightarrow> frame_state \<Rightarrow> frame_state" where
  "increment_ref phys_addr s =
     (let index = unat (drop_bit 12 phys_addr)
      in if index < MAX_FRAMES then s\<lparr> refs := (refs s)(index := refs s index + 1) \<rparr> else s)"

definition decrement_ref :: "u64 \<Rightarrow> frame_state \<Rightarrow> u8 \<times> frame_state" where
  "decrement_ref phys_addr s =
     (let index = unat (drop_bit 12 phys_addr)
      in if index < MAX_FRAMES then
           let old = refs s index
           in if old = 0 then (0, s) else (old - 1, s\<lparr> refs := (refs s)(index := old - 1) \<rparr>)
         else (0, s))"

text \<open>The refill loop of \<open>allocate_frame\<close>, \<open>n\<close> rounds left.\<close>

fun bulk_fill ::
  "nat \<Rightarrow> u64 option \<Rightarrow> core_frame_cache \<Rightarrow> frame_allocator \<Rightarrow>
   u64 option \<times> core_frame_cache \<times> frame_allocator" where
  "bulk_fill 0 first c fa = (first, c, fa)"
| "bulk_fill (Suc n) first c fa =
     (case allocate fa of
        (Some f, fa') \<Rightarrow>
          if first = None then bulk_fill n (Some f) c fa'
          else if count c < 15 then bulk_fill n first (cache_push f c) fa'
          else bulk_fill n first c (deallocate f fa')
      | (None, fa') \<Rightarrow> (first, c, fa'))"

text \<open>The frame that \<open>allocate_frame\<close> takes, before its reference count is set.\<close>

definition grab_frame :: "nat \<Rightarrow> frame_state \<Rightarrow> u64 option \<times> frame_state" where
  "grab_frame apic_id s =
     (if apic_id < 32 then
        let cache = caches s apic_id in
        if count cache > 0 then
          let (frame, cache') = cache_pop cache in (Some frame, set_cache apic_id cache' s)
        else
          let (first_frame, cache', fa') = bulk_fill 8 None cache (galloc s)
          in (first_frame, set_cache apic_id cache' (s\<lparr> galloc := fa' \<rparr>))
      else let (f, fa') = allocate (galloc s) in (f, s\<lparr> galloc := fa' \<rparr>))"

definition set_ref :: "nat \<Rightarrow> u8 \<Rightarrow> frame_state \<Rightarrow> frame_state" where
  "set_ref idx v s = (if idx < MAX_FRAMES then s\<lparr> refs := (refs s)(idx := v) \<rparr> else s)"

definition allocate_frame :: "nat \<Rightarrow> frame_state \<Rightarrow> u64 option \<times> frame_state" where
  "allocate_frame apic_id s =
     (case grab_frame apic_id s of
        (Some f, s') \<Rightarrow> (Some f, set_ref (unat (drop_bit 12 f)) 1 s')
      | (None, s') \<Rightarrow> (None, s'))"

definition allocate_contiguous_frames :: "nat \<Rightarrow> nat \<Rightarrow> frame_state \<Rightarrow> u64 option \<times> frame_state" where
  "allocate_contiguous_frames apic_id n s =
     (if n = 0 then (None, s)
      else if n = 1 then allocate_frame apic_id s
      else case allocate_contiguous n (galloc s) of
        (Some start_phys, fa') \<Rightarrow>
          (Some start_phys,
           fold (\<lambda>i. set_ref (unat (drop_bit 12 start_phys + of_nat i)) 1) [0..<n] (s\<lparr> galloc := fa' \<rparr>))
      | (None, fa') \<Rightarrow> (None, s\<lparr> galloc := fa' \<rparr>))"

text \<open>The loop that gives \<open>n\<close> cached frames back to the bitmap.\<close>

fun flush_cache :: "nat \<Rightarrow> core_frame_cache \<Rightarrow> frame_allocator \<Rightarrow> core_frame_cache \<times> frame_allocator" where
  "flush_cache 0 c fa = (c, fa)"
| "flush_cache (Suc n) c fa =
     (let (f, c') = cache_pop c in flush_cache n c' (deallocate f fa))"

text \<open>The part of \<open>deallocate_frame\<close> after the reference count has dropped to zero.\<close>

definition reclaim_frame :: "nat \<Rightarrow> u64 \<Rightarrow> frame_state \<Rightarrow> frame_state" where
  "reclaim_frame apic_id phys_addr s =
     (if apic_id < 32 then
        let cache = caches s apic_id in
        if count cache < 16 then set_cache apic_id (cache_push phys_addr cache) s
        else
          let (cache', fa') = flush_cache 8 cache (galloc s)
          in set_cache apic_id (cache_push phys_addr cache') (s\<lparr> galloc := fa' \<rparr>)
      else s\<lparr> galloc := deallocate phys_addr (galloc s) \<rparr>)"

definition deallocate_frame :: "nat \<Rightarrow> u64 \<Rightarrow> frame_state \<Rightarrow> frame_state" where
  "deallocate_frame apic_id phys_addr s =
     (let frame_index = unat (drop_bit 12 phys_addr) in
      if frame_index < MAX_FRAMES then
        let old = refs s frame_index in
        if old = 0 then s
        else
          let new_val = old - 1; s' = s\<lparr> refs := (refs s)(frame_index := new_val) \<rparr>
          in if new_val > 0 then s' else reclaim_frame apic_id phys_addr s'
      else reclaim_frame apic_id phys_addr s)"

definition frame_stats :: "frame_state \<Rightarrow> u64 \<times> u64 \<times> u64" where
  "frame_stats s =
     (total_frames (galloc s), allocated_frames (galloc s), total_frames (galloc s) - allocated_frames (galloc s))"

definition drain_local_cache :: "nat \<Rightarrow> frame_state \<Rightarrow> frame_state" where
  "drain_local_cache apic_id s =
     (if apic_id < 32 then
        let cache = caches s apic_id;
            (cache', fa') = flush_cache (count cache) cache (galloc s)
        in set_cache apic_id cache' (s\<lparr> galloc := fa' \<rparr>)
      else s)"

section \<open>Ownership\<close>

text \<open>
  The frames a core's cache holds, and the invariant: every cached frame is marked used in
  the bitmap, has no reference and is cached once; a free frame has no reference either.
\<close>

definition page_addr :: "u64 \<Rightarrow> bool" where
  "page_addr p \<longleftrightarrow> frame_of p < MAX_FRAMES \<and> p = of_nat (frame_of p) * of_nat PAGE_SIZE"

definition cached :: "core_frame_cache \<Rightarrow> u64 list" where
  "cached c = take (count c) (frames c)"

definition cache_set :: "core_frame_cache \<Rightarrow> nat set" where
  "cache_set c = frame_of ` set (cached c)"

definition pool_ok :: "core_frame_cache \<Rightarrow> frame_allocator \<Rightarrow> bool" where
  "pool_ok c fa \<longleftrightarrow>
     length (frames c) = 16 \<and> count c \<le> 16 \<and> distinct (cached c) \<and> list_all page_addr (cached c) \<and>
     hint_ok fa \<and> initialized fa \<and> acct fa \<and> cache_set c \<inter> free_set fa = {}"

definition frame_inv :: "frame_state \<Rightarrow> bool" where
  "frame_inv s \<longleftrightarrow>
     (\<forall>core. pool_ok (caches s core) (galloc s)) \<and>
     (\<forall>core core'. core \<noteq> core' \<longrightarrow> cache_set (caches s core) \<inter> cache_set (caches s core') = {}) \<and>
     (\<forall>core. \<forall>i \<in> free_set (galloc s) \<union> cache_set (caches s core). refs s i = 0)"

lemma page_addr_inj: "page_addr p \<Longrightarrow> page_addr q \<Longrightarrow> frame_of p = frame_of q \<Longrightarrow> p = q"
  by (simp add: page_addr_def)

lemma page_addr_of: "i < MAX_FRAMES \<Longrightarrow> page_addr (of_nat i * of_nat PAGE_SIZE)"
  by (simp add: page_addr_def frame_of_addr)

lemma pool_okD:
  assumes "pool_ok c fa"
  shows "hint_ok fa" "initialized fa" "acct fa" "count c \<le> 16" "cache_set c \<inter> free_set fa = {}"
  using assms by (simp_all add: pool_ok_def)

lemma pool_ok_galloc:
  "pool_ok c fa \<Longrightarrow> hint_ok fa' \<Longrightarrow> initialized fa' \<Longrightarrow> acct fa' \<Longrightarrow> cache_set c \<inter> free_set fa' = {} \<Longrightarrow>
   pool_ok c fa'"
  by (simp add: pool_ok_def)

subsection \<open>One cache and the bitmap\<close>

lemma cached_push: "length (frames c) = 16 \<Longrightarrow> count c < 16 \<Longrightarrow> cached (cache_push p c) = cached c @ [p]"
  by (simp add: cached_def cache_push_def take_Suc_conv_app_nth take_update_cancel)

lemma push_pool:
  assumes "pool_ok c fa" "count c < 16" "page_addr p" "frame_of p \<notin> cache_set c \<union> free_set fa"
  shows "pool_ok (cache_push p c) fa \<and> cache_set (cache_push p c) = insert (frame_of p) (cache_set c)"
proof -
  have "p \<notin> set (cached c)" using assms(4) by (auto simp: cache_set_def)
  moreover have "cached (cache_push p c) = cached c @ [p]"
    using assms(1,2) by (simp add: cached_push pool_ok_def)
  ultimately show ?thesis
    using assms by (auto simp: pool_ok_def cache_set_def) (simp_all add: cache_push_def)
qed

lemma pop_pool:
  assumes "pool_ok c fa" "0 < count c" "cache_pop c = (p, c')"
  shows "pool_ok c' fa" "page_addr p" "cache_set c = insert (frame_of p) (cache_set c')"
    "frame_of p \<notin> cache_set c'" "count c' = count c - 1"
proof -
  have "length (frames c) = 16" "count c \<le> 16" using assms(1) by (simp_all add: pool_ok_def)
  then have k: "count c - 1 < length (frames c)" using assms(2) by linarith
  have c: "cached c = cached c' @ [p]" and n: "count c' = count c - 1" and f: "frames c' = frames c"
    using assms(2,3) k take_Suc_conv_app_nth [OF k] by (auto simp: cache_pop_def cached_def)
  have d: "distinct (cached c' @ [p])" "list_all page_addr (cached c' @ [p])"
    using assms(1) c by (simp_all add: pool_ok_def)
  then show "page_addr p" by simp
  show s: "cache_set c = insert (frame_of p) (cache_set c')" using c by (simp add: cache_set_def)
  show "frame_of p \<notin> cache_set c'"
    using d page_addr_inj [of p] by (auto simp: cache_set_def list_all_iff)
  show "count c' = count c - 1" by (rule n)
  show "pool_ok c' fa" using assms(1) d f n s by (auto simp: pool_ok_def)
qed

text \<open>Frames move between the cache and the bitmap, none is lost or duplicated.\<close>

lemma flush_pool:
  assumes "pool_ok c fa" "n \<le> count c" "flush_cache n c fa = (c', fa')"
  shows "pool_ok c' fa' \<and> cache_set c' \<union> free_set fa' = cache_set c \<union> free_set fa \<and> count c' = count c - n"
  using assms
proof (induction n arbitrary: c fa)
  case (Suc n)
  obtain p c1 where pop: "cache_pop c = (p, c1)" by fastforce
  have c: "0 < count c" using Suc.prems(2) by simp
  note pool = pop_pool [OF Suc.prems(1) c pop]
  have h: "hint_ok fa" "acct fa" "initialized fa" using Suc.prems(1) by (simp_all add: pool_ok_def)
  have free: "free_set (deallocate p fa) = insert (frame_of p) (free_set fa)"
    using deallocate_props(1) [OF h(1), of p] pool(2) by (auto simp: page_addr_def)
  have "pool_ok c1 (deallocate p fa)"
    using deallocate_props [OF h(1), of p] deallocate_acct [OF h(1,2)] h(3) pool free
    by (intro pool_ok_galloc [OF pool(1)]) (auto dest: pool_okD)
  then have "pool_ok c' fa' \<and> cache_set c' \<union> free_set fa' = cache_set c1 \<union> free_set (deallocate p fa) \<and>
      count c' = count c1 - n"
    using Suc.IH Suc.prems(2,3) pop pool(5) by simp
  then show ?case using free pool(3,5) by auto
qed auto

definition frame_opt :: "u64 option \<Rightarrow> nat set" where
  "frame_opt r = frame_of ` set_option r"

lemma allocate_pool:
  assumes "pool_ok c fa" "allocate fa = (r, fa')"
  shows "pool_ok c fa' \<and> (case r of None \<Rightarrow> free_set fa = {} \<and> fa' = fa
    | Some f \<Rightarrow> page_addr f \<and> frame_of f \<in> free_set fa \<and> free_set fa' = free_set fa - {frame_of f})"
proof -
  note ok = pool_okD [OF assms(1)]
  show ?thesis
  proof (cases "free_set fa = {}")
    case True
    then show ?thesis using allocate_cases [OF ok(1,2)] assms by auto
  next
    case False
    then obtain i where i: "i \<in> free_set fa" and t: "take_frame i fa = (r, fa')"
      using allocate_cases [OF ok(1,2)] unfolding assms(2) by (metis (no_types))
    have f: "frame_of (of_nat i * of_nat PAGE_SIZE) = i" "i < MAX_FRAMES"
      using frame_of_addr free_bound [of fa] i by blast+
    have "acct fa'" using take_frame_acct [OF ok(1,3) i] t by simp
    then have "pool_ok c fa'"
      using take_frame_props [OF ok(1) t] ok by (intro pool_ok_galloc [OF assms(1)]) auto
    then show ?thesis using take_frame_props(1,2) [OF ok(1) t] f i page_addr_of by simp
  qed
qed

text \<open>The refill: the first frame goes to the caller, the others to the cache or back.\<close>

lemma bulk_fill_rest:
  assumes "pool_ok c fa" "bulk_fill n (Some g) c fa = (r, c', fa')"
  shows "r = Some g \<and> pool_ok c' fa' \<and> cache_set c' \<union> free_set fa' = cache_set c \<union> free_set fa"
  using assms
proof (induction n arbitrary: c fa)
  case (Suc n)
  obtain q fa1 where al: "allocate fa = (q, fa1)" by fastforce
  note pool = allocate_pool [OF Suc.prems(1) al]
  show ?case
  proof (cases q)
    case None
    then show ?thesis using Suc.prems al pool by simp
  next
    case (Some f)
    then have f: "page_addr f" "frame_of f \<in> free_set fa" "free_set fa1 = free_set fa - {frame_of f}"
      "pool_ok c fa1" "frame_of f \<notin> cache_set c"
      using pool pool_okD(5) [OF Suc.prems(1)] by auto
    have step: "bulk_fill n (Some g) (if count c < 15 then cache_push f c else c)
        (if count c < 15 then fa1 else deallocate f fa1) = (r, c', fa')"
      using Suc.prems(2) al Some by (simp split: if_splits)
    show ?thesis
    proof (cases "count c < 15")
      case True
      have "pool_ok (cache_push f c) fa1 \<and> cache_set (cache_push f c) = insert (frame_of f) (cache_set c)"
        by (rule push_pool [OF f(4) _ f(1)]) (use True f in auto)
      then show ?thesis using Suc.IH [of "cache_push f c" fa1] step f True by auto
    next
      case False
      note h = pool_okD [OF f(4)]
      have free: "free_set (deallocate f fa1) = free_set fa"
        using deallocate_props(1) [OF h(1), of f] f by (auto simp: page_addr_def)
      then have "pool_ok c (deallocate f fa1)"
        using deallocate_props(2,3) [OF h(1), of f] deallocate_acct [OF h(1,3)] h(2) pool_okD(5) [OF Suc.prems(1)]
        by (intro pool_ok_galloc [OF f(4)]) simp_all
      then show ?thesis using Suc.IH [of c "deallocate f fa1"] step f False free by auto
    qed
  qed
qed auto

lemma bulk_fill_pool:
  assumes "pool_ok c fa" "bulk_fill (Suc n) None c fa = (r, c', fa')"
  shows "pool_ok c' fa' \<and>
    (case r of None \<Rightarrow> c' = c \<and> fa' = fa \<and> free_set fa = {}
     | Some f \<Rightarrow> page_addr f \<and> frame_of f \<in> free_set fa \<and>
         cache_set c' \<union> free_set fa' = cache_set c \<union> free_set fa - {frame_of f})"
proof -
  obtain q fa1 where al: "allocate fa = (q, fa1)" by fastforce
  note pool = allocate_pool [OF assms(1) al]
  show ?thesis
  proof (cases q)
    case None
    then show ?thesis using assms al pool by auto
  next
    case (Some f)
    then have "bulk_fill n (Some f) c fa1 = (r, c', fa')" using assms(2) al by simp
    from bulk_fill_rest [OF _ this] pool Some pool_okD(5) [OF assms(1)]
    show ?thesis by auto
  qed
qed

subsection \<open>Preservation\<close>

lemma frame_invD:
  assumes "frame_inv s"
  shows "pool_ok (caches s core) (galloc s)" "i \<in> free_set (galloc s) \<Longrightarrow> refs s i = 0"
    "i \<in> cache_set (caches s core) \<Longrightarrow> refs s i = 0"
    "core \<noteq> core' \<Longrightarrow> cache_set (caches s core) \<inter> cache_set (caches s core') = {}"
  using assms unfolding frame_inv_def by blast+

text \<open>
  Replacing one core's cache and the bitmap keeps the invariant when the frames they hold
  together are unreferenced and not cached elsewhere.
\<close>

lemma frame_inv_update:
  assumes inv: "frame_inv s" and ok: "pool_ok c fa"
    and mem: "\<And>i. i \<in> cache_set c \<union> free_set fa \<Longrightarrow> r i = 0 \<and>
      (i \<in> cache_set (caches s core) \<union> free_set (galloc s) \<or> (\<forall>k. i \<notin> cache_set (caches s k)))"
    and refs: "\<And>k i. k \<noteq> core \<Longrightarrow> i \<in> cache_set (caches s k) \<Longrightarrow> r i = 0"
  shows "frame_inv (set_cache core c (s\<lparr> galloc := fa, refs := r \<rparr>))"
proof -
  have apart: "i \<notin> cache_set c \<union> free_set fa" if "k \<noteq> core" "i \<in> cache_set (caches s k)" for k i
  proof
    assume "i \<in> cache_set c \<union> free_set fa"
    then have "i \<in> cache_set (caches s core) \<union> free_set (galloc s)" using mem that(2) by blast
    then show False
      using that frame_invD(4) [OF inv that(1)] pool_okD(5) [OF frame_invD(1) [OF inv, of k]] by blast
  qed
  have "pool_ok (caches s k) fa" if "k \<noteq> core" for k
    using pool_okD [OF ok] apart [OF that] by (intro pool_ok_galloc [OF frame_invD(1) [OF inv]]) blast+
  moreover have "i \<notin> cache_set c" if "core \<noteq> k" "i \<in> cache_set (caches s k)" for k i
    using apart [OF not_sym [OF that(1)] that(2)] by blast
  ultimately show ?thesis
    using ok apart mem refs frame_invD(4) [OF inv]
    unfolding frame_inv_def set_cache_def by (auto simp: disjoint_iff)
qed

lemma set_cache_same [simp]: "set_cache core (caches s core) s = s"
  by (simp add: set_cache_def)

lemma set_ref_eq: "i < MAX_FRAMES \<Longrightarrow> set_ref i v s = s\<lparr> refs := (refs s)(i := v) \<rparr>"
  by (simp add: set_ref_def)

text \<open>
  An allocation takes a frame that is free or cached, and the remaining frames of the cache
  and the bitmap are the others.
\<close>

lemma grab_frame_props:
  assumes inv: "frame_inv s" and g: "grab_frame apic_id s = (r, s')"
  shows "\<exists>core c fa. s' = set_cache core c (s\<lparr> galloc := fa \<rparr>) \<and> pool_ok c fa \<and>
    (case r of
       None \<Rightarrow> c = caches s core \<and> fa = galloc s \<and> free_set (galloc s) = {} \<and>
         (apic_id < 32 \<longrightarrow> count (caches s apic_id) = 0)
     | Some f \<Rightarrow> page_addr f \<and> frame_of f \<in> cache_set (caches s core) \<union> free_set (galloc s) \<and>
         cache_set c \<union> free_set fa = cache_set (caches s core) \<union> free_set (galloc s) - {frame_of f})"
proof (cases "apic_id < 32")
  case core: True
  let ?c = "caches s apic_id"
  have ok: "pool_ok ?c (galloc s)" by (rule frame_invD(1) [OF inv])
  show ?thesis
  proof (cases "count ?c > 0")
    case True
    obtain f c where p: "cache_pop ?c = (f, c)" by fastforce
    have "r = Some f" "s' = set_cache apic_id c (s\<lparr> galloc := galloc s \<rparr>)"
      using g core True p by (auto simp: grab_frame_def)
    moreover have "cache_set c \<union> free_set (galloc s) = cache_set ?c \<union> free_set (galloc s) - {frame_of f}"
      using pop_pool [OF ok True p] pool_okD(5) [OF ok] by blast
    ultimately show ?thesis using pop_pool [OF ok True p] by fastforce
  next
    case False
    obtain q c fa where b: "bulk_fill 8 None ?c (galloc s) = (q, c, fa)" by (metis prod_cases3)
    have "r = q" "s' = set_cache apic_id c (s\<lparr> galloc := fa \<rparr>)"
      using g core False b by (auto simp: grab_frame_def)
    moreover have "bulk_fill (Suc 7) None ?c (galloc s) = (q, c, fa)" using b by (simp add: eval_nat_numeral)
    ultimately show ?thesis
      using bulk_fill_pool [OF ok, of 7 q c fa] False by (cases q) (auto intro!: exI [of _ apic_id])
  qed
next
  case False
  obtain q fa where a: "allocate (galloc s) = (q, fa)" by fastforce
  have ok: "pool_ok (caches s 0) (galloc s)" by (rule frame_invD(1) [OF inv])
  have "r = q" "s' = set_cache 0 (caches s 0) (s\<lparr> galloc := fa \<rparr>)"
    using g False a by (auto simp: grab_frame_def set_cache_def)
  then show ?thesis
    using allocate_pool [OF ok a] pool_okD(5) [OF ok] False 
    by (cases q) (auto intro!: exI [of _ 0] exI [of _ "caches s 0"] exI [of _ fa])
qed

lemma allocate_frame_props:
  assumes inv: "frame_inv s" and a: "allocate_frame apic_id s = (r, s')"
  shows "frame_inv s'"
    and "case r of None \<Rightarrow> s' = s \<and> free_set (galloc s) = {} \<and> (apic_id < 32 \<longrightarrow> count (caches s apic_id) = 0)
      | Some f \<Rightarrow> page_addr f \<and> refs s (frame_of f) = 0 \<and> refs s' = (refs s)(frame_of f := 1)"
proof -
  obtain q s1 where g: "grab_frame apic_id s = (q, s1)" by fastforce
  obtain core c fa where s1: "s1 = set_cache core c (s\<lparr> galloc := fa \<rparr>)" and ok: "pool_ok c fa"
    and q: "case q of
       None \<Rightarrow> c = caches s core \<and> fa = galloc s \<and> free_set (galloc s) = {} \<and>
         (apic_id < 32 \<longrightarrow> count (caches s apic_id) = 0)
     | Some f \<Rightarrow> page_addr f \<and> frame_of f \<in> cache_set (caches s core) \<union> free_set (galloc s) \<and>
         cache_set c \<union> free_set fa = cache_set (caches s core) \<union> free_set (galloc s) - {frame_of f}"
    using grab_frame_props [OF inv g] by blast
  have "frame_inv s' \<and> (case r of None \<Rightarrow> s' = s \<and> free_set (galloc s) = {} \<and> (apic_id < 32 \<longrightarrow> count (caches s apic_id) = 0)
      | Some f \<Rightarrow> page_addr f \<and> refs s (frame_of f) = 0 \<and> refs s' = (refs s)(frame_of f := 1))"
  proof (cases q)
    case None
    then show ?thesis using a g q s1 inv by (simp add: allocate_frame_def)
  next
    case (Some f)
    then have f: "page_addr f" "frame_of f \<in> cache_set (caches s core) \<union> free_set (galloc s)"
      "cache_set c \<union> free_set fa = cache_set (caches s core) \<union> free_set (galloc s) - {frame_of f}"
      using q by simp_all
    then have zero: "refs s (frame_of f) = 0" using frame_invD(2,3) [OF inv] by blast
    have r: "r = Some f" "s' = set_cache core c (s\<lparr> galloc := fa, refs := (refs s)(frame_of f := 1) \<rparr>)"
      using a g Some s1 f(1) set_ref_eq [of "frame_of f"]
      by (auto simp: allocate_frame_def frame_of_def [symmetric] set_cache_def page_addr_def)
    have other: "frame_of f \<notin> cache_set (caches s k)" if "k \<noteq> core" for k
      using f(2) that frame_invD(4) [OF inv that] pool_okD(5) [OF frame_invD(1) [OF inv, of k]] by blast
    have "frame_inv s'"
      unfolding r(2)
    proof (rule frame_inv_update [OF inv ok])
      fix i assume "i \<in> cache_set c \<union> free_set fa"
      then have "i \<in> cache_set (caches s core) \<union> free_set (galloc s)" "i \<noteq> frame_of f" using f(3) by blast+
      then show "((refs s)(frame_of f := 1)) i = 0 \<and> (i \<in> cache_set (caches s core) \<union> free_set (galloc s) \<or>
          (\<forall>k. i \<notin> cache_set (caches s k)))"
        using frame_invD(2,3) [OF inv] by auto
    next
      fix k i assume "k \<noteq> core" "i \<in> cache_set (caches s k)"
      then show "((refs s)(frame_of f := 1)) i = 0" using other frame_invD(3) [OF inv] by auto
    qed
    then show ?thesis using r f zero by (simp add: set_cache_def)
  qed
  then show "frame_inv s'"
    and "case r of None \<Rightarrow> s' = s \<and> free_set (galloc s) = {} \<and> (apic_id < 32 \<longrightarrow> count (caches s apic_id) = 0)
      | Some f \<Rightarrow> page_addr f \<and> refs s (frame_of f) = 0 \<and> refs s' = (refs s)(frame_of f := 1)"
    by blast+
qed

text \<open>Putting an unreferenced frame back into one core's cache or the bitmap.\<close>

lemma give_back:
  assumes inv: "frame_inv s" and nowhere: "\<And>k. i \<notin> cache_set (caches s k) \<union> free_set (galloc s)"
    and ok: "pool_ok c fa"
    and eq: "cache_set c \<union> free_set fa = insert i (cache_set (caches s core) \<union> free_set (galloc s))"
  shows "frame_inv (set_cache core c (s\<lparr> galloc := fa, refs := (refs s)(i := 0) \<rparr>))"
proof (rule frame_inv_update [OF inv ok])
  fix j assume "j \<in> cache_set c \<union> free_set fa"
  then consider "j = i" | "j \<in> cache_set (caches s core) \<union> free_set (galloc s)" using eq by blast
  then show "((refs s)(i := 0)) j = 0 \<and>
      (j \<in> cache_set (caches s core) \<union> free_set (galloc s) \<or> (\<forall>k. j \<notin> cache_set (caches s k)))"
    using nowhere frame_invD(2,3) [OF inv] by cases auto
qed (use frame_invD(3) [OF inv] in auto)

lemma reclaim_props:
  assumes inv: "frame_inv s" and p: "page_addr p" "refs s (frame_of p) = 1"
  shows "frame_inv (reclaim_frame apic_id p (s\<lparr> refs := (refs s)(frame_of p := 0) \<rparr>)) \<and>
    refs (reclaim_frame apic_id p (s\<lparr> refs := (refs s)(frame_of p := 0) \<rparr>)) = (refs s)(frame_of p := 0)"
proof -
  let ?r = "(refs s)(frame_of p := 0)" let ?s = "s\<lparr> refs := ?r \<rparr>" let ?c = "caches s apic_id"
  have nowhere: "frame_of p \<notin> cache_set (caches s k) \<union> free_set (galloc s)" for k
    using frame_invD(2,3) [OF inv] p(2) by fastforce
  note upd = give_back [OF inv nowhere]
  have ok: "pool_ok ?c (galloc s)" by (rule frame_invD(1) [OF inv])
  show ?thesis
  proof (cases "apic_id < 32")
    case core: True
    show ?thesis
    proof (cases "count ?c < 16")
      case True
      have "reclaim_frame apic_id p ?s = set_cache apic_id (cache_push p ?c) (s\<lparr> galloc := galloc s, refs := ?r \<rparr>)"
        using core True by (simp add: reclaim_frame_def)
      then show ?thesis
        using upd [of "cache_push p ?c" "galloc s"] push_pool [OF ok True p(1) nowhere] by (simp add: set_cache_def)
    next
      case False
      obtain c fa where f: "flush_cache 8 ?c (galloc s) = (c, fa)" by fastforce
      have e: "reclaim_frame apic_id p ?s = set_cache apic_id (cache_push p c) (s\<lparr> galloc := fa, refs := ?r \<rparr>)"
        using core False f by (simp add: reclaim_frame_def set_cache_def)
      have fl: "pool_ok c fa" "cache_set c \<union> free_set fa = cache_set ?c \<union> free_set (galloc s)" "count c < 16"
        using flush_pool [OF ok _ f] False pool_okD(4) [OF ok] by auto
      have "pool_ok (cache_push p c) fa \<and> cache_set (cache_push p c) = insert (frame_of p) (cache_set c)"
        by (rule push_pool [OF fl(1,3) p(1)]) (use nowhere fl(2) in blast)
      then have "pool_ok (cache_push p c) fa" "cache_set (cache_push p c) \<union> free_set fa =
          insert (frame_of p) (cache_set ?c \<union> free_set (galloc s))"
        using fl(2) by auto
      from upd [OF this] show ?thesis unfolding e by (simp add: set_cache_def)
    qed
  next
    case False
    let ?fa = "deallocate p (galloc s)"
    have h: "hint_ok (galloc s)" "acct (galloc s)" "initialized (galloc s)" using pool_okD [OF ok] by blast+
    have "free_set ?fa = insert (frame_of p) (free_set (galloc s))"
      using deallocate_props(1) [OF h(1), of p] p(1) by (auto simp: page_addr_def)
    moreover from this have "pool_ok ?c ?fa"
      using deallocate_props(2,3) [OF h(1), of p] deallocate_acct [OF h(1,2)] h(3) nowhere pool_okD(5) [OF ok]
      by (intro pool_ok_galloc [OF ok]) auto
    moreover have "reclaim_frame apic_id p ?s = set_cache apic_id ?c (s\<lparr> galloc := ?fa, refs := ?r \<rparr>)"
      using False by (simp add: reclaim_frame_def set_cache_def)
    ultimately show ?thesis using upd [of ?c ?fa apic_id] by (simp add: set_cache_def)
  qed
qed

lemma frame_inv_refs:
  assumes "frame_inv s" "\<And>i. refs s i = 0 \<Longrightarrow> r i = 0"
  shows "frame_inv (s\<lparr> refs := r \<rparr>)"
  using assms by (simp add: frame_inv_def)

lemma deallocate_frame_props:
  assumes inv: "frame_inv s" and p: "page_addr p"
  shows "frame_inv (deallocate_frame apic_id p s) \<and>
    refs (deallocate_frame apic_id p s) =
      (refs s)(frame_of p := (if refs s (frame_of p) = 0 then 0 else refs s (frame_of p) - 1))"
proof -
  let ?old = "refs s (frame_of p)"
  have i: "frame_of p < MAX_FRAMES" using p by (simp add: page_addr_def)
  consider "?old = 0" | "?old = 1" | "?old \<noteq> 0" "?old \<noteq> 1" by blast
  then show ?thesis
  proof cases
    case 1
    then have "deallocate_frame apic_id p s = s" "(refs s)(frame_of p := 0) = refs s"
      using i by (auto simp: deallocate_frame_def Let_def frame_of_def [symmetric])
    then show ?thesis using inv 1 by simp
  next
    case 2
    then have "deallocate_frame apic_id p s = reclaim_frame apic_id p (s\<lparr> refs := (refs s)(frame_of p := 0) \<rparr>)"
      using i by (simp add: deallocate_frame_def Let_def frame_of_def [symmetric])
    then show ?thesis using reclaim_props [OF inv p 2, of apic_id] 2 by simp
  next
    case 3
    then have "?old - 1 > 0" by (simp add: word_gt_0)
    then have "deallocate_frame apic_id p s = s\<lparr> refs := (refs s)(frame_of p := ?old - 1) \<rparr>"
      using i 3 by (simp add: deallocate_frame_def Let_def frame_of_def [symmetric])
    moreover have "frame_inv (s\<lparr> refs := (refs s)(frame_of p := ?old - 1) \<rparr>)"
      by (rule frame_inv_refs [OF inv]) (use 3 in auto)
    ultimately show ?thesis using 3 by simp
  qed
qed

lemma drain_props:
  assumes inv: "frame_inv s"
  shows "frame_inv (drain_local_cache apic_id s) \<and> refs (drain_local_cache apic_id s) = refs s"
proof (cases "apic_id < 32")
  case True
  let ?c = "caches s apic_id"
  have ok: "pool_ok ?c (galloc s)" by (rule frame_invD(1) [OF inv])
  obtain c fa where f: "flush_cache (count ?c) ?c (galloc s) = (c, fa)" by fastforce
  have e: "drain_local_cache apic_id s = set_cache apic_id c (s\<lparr> galloc := fa, refs := refs s \<rparr>)"
    using True f by (simp add: drain_local_cache_def)
  have fl: "pool_ok c fa" "cache_set c \<union> free_set fa = cache_set ?c \<union> free_set (galloc s)"
    using flush_pool [OF ok _ f] by auto
  have "frame_inv (set_cache apic_id c (s\<lparr> galloc := fa, refs := refs s \<rparr>))"
    by (rule frame_inv_update [OF inv fl(1)]) (use fl(2) frame_invD(2,3) [OF inv] in blast)+
  then show ?thesis unfolding e by (simp add: set_cache_def)
qed (simp add: drain_local_cache_def inv)

lemma fold_set_ref:
  assumes "i + n \<le> MAX_FRAMES"
  shows "fold (\<lambda>k. set_ref (unat (drop_bit 12 (of_nat i * of_nat PAGE_SIZE :: u64) + of_nat k)) 1) [0..<n] s =
    s\<lparr> refs := (\<lambda>j. if j \<in> {i..<i + n} then 1 else refs s j) \<rparr>"
  using assms
proof (induction n)
  case (Suc n)
  have "frame_of (of_nat i * of_nat PAGE_SIZE) = i" using Suc.prems by (simp add: frame_of_addr)
  then have "drop_bit 12 (of_nat i * of_nat PAGE_SIZE :: u64) = of_nat i"
    using unat_of_nat_small [of i, where 'a = 64] Suc.prems MAX_FRAMES_facts(4)
    by (simp add: frame_of_def word_unat_eq_iff)
  moreover have "unat (of_nat (i + n) :: u64) = i + n"
    using Suc.prems MAX_FRAMES_facts(4) by (intro unat_of_nat_small) simp
  ultimately have u: "unat (drop_bit 12 (of_nat i * of_nat PAGE_SIZE :: u64) + of_nat n) = i + n" by simp
  have "i + n < MAX_FRAMES" using Suc.prems by simp
  then show ?case using Suc by (auto simp: u set_ref_eq fun_eq_iff)
qed simp

lemma contiguous_props:
  assumes inv: "frame_inv s" and n: "1 < n" "n \<le> 32"
    and a: "allocate_contiguous_frames apic_id n s = (r, s')"
  shows "frame_inv s' \<and> (case r of None \<Rightarrow> s' = s
    | Some p \<Rightarrow> page_addr p \<and> frame_of p + n \<le> MAX_FRAMES \<and> {frame_of p..<frame_of p + n} \<subseteq> free_set (galloc s) \<and>
        (\<forall>j \<in> {frame_of p..<frame_of p + n}. refs s j = 0) \<and>
        refs s' = (\<lambda>j. if j \<in> {frame_of p..<frame_of p + n} then 1 else refs s j))"
proof -
  obtain q fa where c: "allocate_contiguous n (galloc s) = (q, fa)" by fastforce
  have ok: "pool_ok (caches s k) (galloc s)" for k by (rule frame_invD(1) [OF inv])
  note h = pool_okD [OF ok [of 0]]
  have "run_taken (galloc s) n (q, fa)"
    using c n contig_loop_spec [of n "galloc s" 0 "next_free_hint (galloc s)"] h(2)
    by (simp add: allocate_contiguous_def min_absorb1)
  then consider "q = None" "fa = galloc s"
    | i where "i + n \<le> MAX_FRAMES" "{i..<i + n} \<subseteq> free_set (galloc s)" "q = Some (of_nat i * of_nat PAGE_SIZE)"
      "fa = (mark_run i n (galloc s))\<lparr> allocated_frames := allocated_frames (galloc s) + of_nat n,
                                       next_free_hint := (i + n) mod MAX_FRAMES \<rparr>"
    by (simp only: run_taken_def prod.inject) blast
  then show ?thesis
  proof cases
    case 1
    then show ?thesis using a c n inv by (simp add: allocate_contiguous_frames_def)
  next
    case 2
    let ?r = "\<lambda>j. if j \<in> {i..<i + n} then 1 else refs s j"
    have b: "bitmap_ok (galloc s)" using h(1) by (simp add: hint_ok_def)
    have fa: "hint_ok fa" "free_set fa = free_set (galloc s) - {i..<i + n}" "initialized fa" "acct fa"
      using mark_run_props [OF b, of i n] run_acct [OF b h(3) 2(2)] MAX_FRAMES_facts(1) h(2)
      by (simp_all add: 2(4) hint_ok_def)
    have f: "frame_of (of_nat i * of_nat PAGE_SIZE) = i" "page_addr (of_nat i * of_nat PAGE_SIZE)"
      using 2(1) n(1) by (simp_all add: frame_of_addr page_addr_of)
    have "set_cache 0 (caches s 0) (s\<lparr> galloc := fa, refs := ?r \<rparr>) = s\<lparr> galloc := fa, refs := ?r \<rparr>"
      by (simp add: set_cache_def)
    moreover have "r = q \<and> s' = s\<lparr> galloc := fa, refs := ?r \<rparr>"
      using a c 2(3) n by (auto simp: allocate_contiguous_frames_def fold_set_ref [OF 2(1)] cong: if_cong)
    ultimately have r: "r = q" "s' = set_cache 0 (caches s 0) (s\<lparr> galloc := fa, refs := ?r \<rparr>)" by simp_all
    have "pool_ok (caches s 0) fa"
      using fa h(5) by (intro pool_ok_galloc [OF ok]) auto
    moreover have "j \<notin> {i..<i + n}" if "j \<in> cache_set (caches s k)" for j k
      using that pool_okD(5) [OF ok, of k] 2(2) by blast
    ultimately have "frame_inv s'"
      unfolding r(2) using fa(2) frame_invD(2,3) [OF inv] by (intro frame_inv_update [OF inv]) auto
    then show ?thesis using r 2 f frame_invD(2) [OF inv] by (auto simp: set_cache_def)
  qed
qed

section \<open>Holders\<close>

text \<open>
  The users of the allocator as a step relation: \<open>h\<close> counts, for every frame, the references
  that are held. A user frees page addresses, and shares a frame only while it is held and
  fewer than 255 references exist.
\<close>

type_synonym holders = "nat \<Rightarrow> nat"

inductive frame_step :: "frame_state \<times> holders \<Rightarrow> frame_state \<times> holders \<Rightarrow> bool" where
  alloc: "allocate_frame core s = (Some p, s') \<Longrightarrow>
    frame_step (s, h) (s', h(frame_of p := h (frame_of p) + 1))"
| alloc_fail: "allocate_frame core s = (None, s') \<Longrightarrow> frame_step (s, h) (s', h)"
| contig: "1 < n \<Longrightarrow> n \<le> 32 \<Longrightarrow> allocate_contiguous_frames core n s = (Some p, s') \<Longrightarrow>
    frame_step (s, h) (s', \<lambda>j. if j \<in> {frame_of p..<frame_of p + n} then h j + 1 else h j)"
| contig_fail: "1 < n \<Longrightarrow> n \<le> 32 \<Longrightarrow> allocate_contiguous_frames core n s = (None, s') \<Longrightarrow>
    frame_step (s, h) (s', h)"
| share: "page_addr p \<Longrightarrow> 0 < h (frame_of p) \<Longrightarrow> h (frame_of p) < 255 \<Longrightarrow>
    frame_step (s, h) (increment_ref p s, h(frame_of p := h (frame_of p) + 1))"
| unshare: "page_addr p \<Longrightarrow>
    frame_step (s, h) (snd (decrement_ref p s), h(frame_of p := h (frame_of p) - 1))"
| free: "page_addr p \<Longrightarrow>
    frame_step (s, h) (deallocate_frame core p s, h(frame_of p := h (frame_of p) - 1))"
| drain: "frame_step (s, h) (drain_local_cache core s, h)"

definition frame_start :: "frame_state \<times> holders \<Rightarrow> bool" where
  "frame_start = (\<lambda>(s, h). (\<exists>regions tab off pml4. galloc s = frame_init regions tab off pml4 frame_allocator_new) \<and>
     caches s = (\<lambda>_. core_frame_cache_new) \<and> refs s = (\<lambda>_. 0) \<and> h = (\<lambda>_. 0))"

definition holders_ok :: "frame_state \<times> holders \<Rightarrow> bool" where
  "holders_ok = (\<lambda>(s, h). frame_inv s \<and> (\<forall>i. refs s i = of_nat (h i) \<and> h i < 256))"

lemma of_nat_u8_zero: "n < 256 \<Longrightarrow> (of_nat n = (0 :: u8)) = (n = 0)"
  using unat_of_nat_small [of n, where 'a = 8] by (auto simp: word_unat_eq_iff)

lemma frame_start_inv:
  assumes "frame_start (s, h)"
  shows "holders_ok (s, h)"
proof -
  obtain regions tab off pml4 where g: "galloc s = frame_init regions tab off pml4 frame_allocator_new"
    and s: "caches s = (\<lambda>_. core_frame_cache_new)" "refs s = (\<lambda>_. 0)" "h = (\<lambda>_. 0)"
    using assms by (auto simp: frame_start_def)
  have "hint_ok (galloc s)" "initialized (galloc s)" "acct (galloc s)"
    unfolding g using init_props [of regions tab off pml4] by (simp_all add: acct_def Let_def)
  moreover have "cached core_frame_cache_new = []" by (simp add: cached_def core_frame_cache_new_def)
  ultimately have "pool_ok core_frame_cache_new (galloc s)"
    by (simp add: pool_ok_def cache_set_def) (simp add: core_frame_cache_new_def)
  then show ?thesis
    using s \<open>cached core_frame_cache_new = []\<close> by (simp add: holders_ok_def frame_inv_def cache_set_def)
qed

lemma share_inv:
  assumes "holders_ok (s, h)" "page_addr p" "0 < h (frame_of p)" "h (frame_of p) < 255"
  shows "holders_ok (increment_ref p s, h(frame_of p := h (frame_of p) + 1))"
proof -
  have inv: "frame_inv s" and r: "\<And>i. refs s i = of_nat (h i)" "\<And>i. h i < 256"
    using assms(1) by (simp_all add: holders_ok_def)
  have e: "increment_ref p s = s\<lparr> refs := (refs s)(frame_of p := refs s (frame_of p) + 1) \<rparr>"
    using assms(2) by (simp add: increment_ref_def Let_def page_addr_def frame_of_def)
  have "refs s (frame_of p) \<noteq> 0" using assms(3) r of_nat_u8_zero [of "h (frame_of p)"] by simp
  then have "frame_inv (increment_ref p s)" unfolding e by (intro frame_inv_refs [OF inv]) auto
  then show ?thesis using r assms(4) by (simp add: holders_ok_def e)
qed

lemma drop_ref:
  assumes "refs s i = of_nat (h i)" "h i < 256"
  shows "(if refs s i = 0 then 0 else refs s i - 1 :: u8) = of_nat (h i - 1)"
  using assms of_nat_u8_zero [of "h i"] by (cases "h i") simp_all

lemma unshare_inv:
  assumes "holders_ok (s, h)" "page_addr p"
  shows "holders_ok (snd (decrement_ref p s), h(frame_of p := h (frame_of p) - 1))"
proof -
  have inv: "frame_inv s" and r: "\<And>i. refs s i = of_nat (h i)" "\<And>i. h i < 256"
    using assms(1) by (simp_all add: holders_ok_def)
  let ?v = "if refs s (frame_of p) = 0 then 0 else refs s (frame_of p) - 1"
  have e: "snd (decrement_ref p s) = s\<lparr> refs := (refs s)(frame_of p := ?v) \<rparr>"
    using assms(2) by (auto simp: decrement_ref_def Let_def page_addr_def frame_of_def fun_upd_idem)
  have "frame_inv (snd (decrement_ref p s))" unfolding e by (intro frame_inv_refs [OF inv]) auto
  moreover have "?v = of_nat (h (frame_of p) - 1)" by (rule drop_ref) (simp_all add: r)
  moreover have "h (frame_of p) - 1 < 256" using r(2) [of "frame_of p"] by simp
  ultimately show ?thesis using r by (simp only: holders_ok_def e) auto
qed

lemma free_inv:
  assumes "holders_ok (s, h)" "page_addr p"
  shows "holders_ok (deallocate_frame core p s, h(frame_of p := h (frame_of p) - 1))"
proof -
  have inv: "frame_inv s" and r: "\<And>i. refs s i = of_nat (h i)" "\<And>i. h i < 256"
    using assms(1) by (simp_all add: holders_ok_def)
  note d = deallocate_frame_props [OF inv assms(2), of core]
  moreover note drop_ref [of s "frame_of p" h, OF r]
  moreover have "h (frame_of p) - 1 < 256" using r(2) [of "frame_of p"] by simp
  ultimately show ?thesis using r by (simp add: holders_ok_def)
qed

lemma alloc_inv:
  assumes "holders_ok (s, h)" "allocate_frame core s = (r, s')"
  shows "case r of None \<Rightarrow> holders_ok (s', h)
    | Some p \<Rightarrow> h (frame_of p) = 0 \<and> holders_ok (s', h(frame_of p := h (frame_of p) + 1))"
proof -
  have inv: "frame_inv s" and r: "\<And>i. refs s i = of_nat (h i)" "\<And>i. h i < 256"
    using assms(1) by (simp_all add: holders_ok_def)
  note a = allocate_frame_props [OF inv assms(2)]
  show ?thesis
  proof (cases r)
    case None
    then show ?thesis using a assms(1) by simp
  next
    case (Some p)
    then have "h (frame_of p) = 0" using a(2) r of_nat_u8_zero [of "h (frame_of p)"] by simp
    then show ?thesis using a Some r by (simp add: holders_ok_def)
  qed
qed

lemma contig_inv:
  assumes "holders_ok (s, h)" "1 < n" "n \<le> 32" "allocate_contiguous_frames core n s = (r, s')"
  shows "case r of None \<Rightarrow> holders_ok (s', h)
    | Some p \<Rightarrow> (\<forall>j \<in> {frame_of p..<frame_of p + n}. h j = 0) \<and>
        holders_ok (s', \<lambda>j. if j \<in> {frame_of p..<frame_of p + n} then h j + 1 else h j)"
proof -
  have inv: "frame_inv s" and r: "\<And>i. refs s i = of_nat (h i)" "\<And>i. h i < 256"
    using assms(1) by (simp_all add: holders_ok_def)
  note a = contiguous_props [OF inv assms(2-4)]
  show ?thesis
  proof (cases r)
    case None
    then show ?thesis using a assms(1) by simp
  next
    case (Some p)
    then have z: "\<forall>j \<in> {frame_of p..<frame_of p + n}. h j = 0"
      using a r of_nat_u8_zero by auto
    have "frame_inv s'" "refs s' = (\<lambda>j. if j \<in> {frame_of p..<frame_of p + n} then 1 else refs s j)"
      using a Some by simp_all
    then have "holders_ok (s', \<lambda>j. if j \<in> {frame_of p..<frame_of p + n} then h j + 1 else h j)"
      using z r by (auto simp: holders_ok_def)
    with Some z show ?thesis by simp
  qed
qed

interpretation frame_sys: invariant_system frame_start frame_step holders_ok
proof unfold_locales
  show "holders_ok x" if "frame_start x" for x
    using that frame_start_inv by (cases x) blast
  show "holders_ok y" if inv: "holders_ok x" and step: "frame_step x y" for x y
    using step inv
  proof cases
    case (alloc core s p s' h)
    then show ?thesis using alloc_inv [of s h core "Some p" s'] inv by auto
  next
    case (alloc_fail core s s' h)
    then show ?thesis using alloc_inv [of s h core None s'] inv by simp
  next
    case (contig n core s p s' h)
    then show ?thesis using contig_inv [of s h n core "Some p" s'] inv by simp
  next
    case (contig_fail n core s s' h)
    then show ?thesis using contig_inv [of s h n core None s'] inv by simp
  next
    case (drain s h core)
    then show ?thesis using drain_props [of s core] inv by (simp add: holders_ok_def)
  qed (use inv share_inv unshare_inv free_inv in auto)
qed

section \<open>A concrete machine\<close>

text \<open>512 KiB of memory from address 0, one empty PML4 outside it.\<close>

definition demo_frame_state :: frame_state where
  "demo_frame_state =
     \<lparr> galloc = frame_init [\<lparr> region_start = 0, region_end = 0x80000, usable = True \<rparr>]
         (\<lambda>_ _. \<lparr> present = False, huge_page = False, entry_frame = None \<rparr>) 0 0x1000000 frame_allocator_new,
       caches = (\<lambda>_. core_frame_cache_new), refs = (\<lambda>_. 0) \<rparr>"

lemma demo_frame_reach: "reach frame_start frame_step (demo_frame_state, \<lambda>_. 0)"
  by (rule reach_init) (auto simp: frame_start_def demo_frame_state_def)

lemma demo_frame_free: "free_set (galloc demo_frame_state) = {0..<128}" "hint_ok (galloc demo_frame_state)"
  "initialized (galloc demo_frame_state)"
proof -
  note init = init_props [of "[\<lparr> region_start = 0, region_end = 0x80000, usable = True \<rparr>]"
        "\<lambda>_ _. \<lparr> present = False, huge_page = False, entry_frame = None \<rparr>" "0" "0x1000000"]
  then show "hint_ok (galloc demo_frame_state)" "initialized (galloc demo_frame_state)"
    by (simp_all add: demo_frame_state_def Let_def)
  have "free_set (galloc demo_frame_state) = {0..<128} \<inter> {..<MAX_FRAMES} - {4096}"
    using init
    by (simp add: demo_frame_state_def Let_def region_frames_def pml4_frames_def frame_of_def PAGE_SIZE_def)
  also have "\<dots> = {0..<128}" by (auto simp: MAX_FRAMES_def)
  finally show "free_set (galloc demo_frame_state) = {0..<128}" .
qed

lemma demo_frame_hint: "next_free_hint (galloc demo_frame_state) = 0"
  by (simp add: demo_frame_state_def init_hint frame_allocator_new_def)

lemma demo_contig:
  assumes "1 < n" "n \<le> 32"
  shows "\<exists>fa. contig_loop (galloc demo_frame_state) n 0 0 = (Some 0, fa)"
proof -
  let ?fa = "galloc demo_frame_state"
  have ok: "bitmap_ok ?fa" using demo_frame_free(2) by (simp add: hint_ok_def)
  have free: "is_free ?fa i" if "i < 128" for i
    using that demo_frame_free(1) by (auto simp: free_set_def)
  have "word_at (bitmap ?fa) (0 div 64 * 8) OR low_mask (0 mod 64) \<noteq> - 1"
    using word_full [OF ok, of 0] MAX_FRAMES_facts(1) free [of 0] by auto
  moreover have "run_break ?fa 0 n = None"
    using assms free MAX_FRAMES_facts by (auto simp: run_break_def find_None_iff not_le MAX_FRAMES_def)
  ultimately show ?thesis
    using free [of 0] MAX_FRAMES_facts(1) by (subst contig_loop.simps) (simp add: Let_def)
qed

text \<open>Held, cached and free frames are apart.\<close>

lemma held_unused:
  assumes "holders_ok (s, h)"
  shows "i \<in> free_set (galloc s) \<Longrightarrow> h i = 0" "i \<in> cache_set (caches s c) \<Longrightarrow> h i = 0"
proof -
  have r: "refs s i = of_nat (h i)" "h i < 256" "frame_inv s" using assms by (simp_all add: holders_ok_def)
  show "i \<in> free_set (galloc s) \<Longrightarrow> h i = 0" using frame_invD(2) [OF r(3)] r of_nat_u8_zero by metis
  show "i \<in> cache_set (caches s c) \<Longrightarrow> h i = 0" using frame_invD(3) [OF r(3)] r of_nat_u8_zero by metis
qed

lemma pools_apart:
  assumes "holders_ok (s, h)"
  shows "(\<forall>i \<in> free_set (galloc s). h i = 0) \<and>
    (\<forall>c. distinct (map frame_of (cached (caches s c))) \<and>
      (\<forall>i \<in> cache_set (caches s c). h i = 0 \<and> i \<notin> free_set (galloc s) \<and>
        (\<forall>c'. c' \<noteq> c \<longrightarrow> i \<notin> cache_set (caches s c'))))"
proof -
  have inv: "frame_inv s" using assms by (simp add: holders_ok_def)
  have "distinct (map frame_of (cached (caches s c)))" for c
    using frame_invD(1) [OF inv, of c] page_addr_inj by (auto simp: pool_ok_def distinct_map list_all_iff intro!: inj_onI)
  then show ?thesis
    using held_unused [OF assms] pool_okD(5) [OF frame_invD(1) [OF inv]] frame_invD(4) [OF inv] by blast
qed

lemma referenced_unused:
  assumes "frame_inv s" "refs s i \<noteq> 0"
  shows "i \<notin> free_set (galloc s)" "i \<notin> cache_set (caches s c)"
  using assms frame_invD(2,3) [OF assms(1)] by blast+

section \<open>Properties\<close>

text \<open>
  C5. Exclusive frames: after any sequence of allocations, run allocations of at most 32
  frames, sharing, releases (double frees included) and cache drains on any cores, no frame
  that somebody holds is free in the bitmap or waits in the cache of a core, no frame is in
  a cache twice, in two caches, or both in a cache and free in the bitmap. So a frame
  returned by \<open>allocate_frame\<close> is page aligned, inside the managed memory, and held by nobody;
  the call fails only when the caller's cache is empty and the bitmap has no free frame.
\<close>

theorem frames_exclusive:
  assumes "reach frame_start frame_step (s, h)"
  shows "(\<forall>i \<in> free_set (galloc s). h i = 0) \<and>
    (\<forall>c. distinct (map frame_of (cached (caches s c))) \<and>
      (\<forall>i \<in> cache_set (caches s c). h i = 0 \<and> i \<notin> free_set (galloc s) \<and>
        (\<forall>c'. c' \<noteq> c \<longrightarrow> i \<notin> cache_set (caches s c')))) \<and>
    (case allocate_frame core s of
      (None, s') \<Rightarrow> free_set (galloc s) = {} \<and> (core < 32 \<longrightarrow> count (caches s core) = 0)
    | (Some p, s') \<Rightarrow> h (frame_of p) = 0 \<and> page_addr p \<and> refs s' (frame_of p) = 1)"
proof -
  have ok: "holders_ok (s, h)" by (rule frame_sys.reach_inv [OF assms])
  then have inv: "frame_inv s" by (simp add: holders_ok_def)
  obtain r s' where a: "allocate_frame core s = (r, s')" by fastforce
  have "case allocate_frame core s of
      (None, s') \<Rightarrow> free_set (galloc s) = {} \<and> (core < 32 \<longrightarrow> count (caches s core) = 0)
    | (Some p, s') \<Rightarrow> h (frame_of p) = 0 \<and> page_addr p \<and> refs s' (frame_of p) = 1"
    using alloc_inv [OF ok a] allocate_frame_props [OF inv a] a by (cases r) simp_all
  then show ?thesis using pools_apart [OF ok] by blast
qed

theorem frames_exclusive_witness:
  "\<exists>p s'. allocate_frame 3 demo_frame_state = (Some p, s') \<and> page_addr p \<and> refs s' (frame_of p) = 1"
  using frames_exclusive [OF demo_frame_reach, of 3]
  by (auto simp: demo_frame_free split: prod.splits option.splits)

text \<open>
  C23. A run of 1 to 32 frames handed out by \<open>allocate_contiguous_frames\<close> lies inside the
  managed memory, none of its frames is held by anybody, each gets one reference, and none is
  left free in the bitmap or in a cache of a core. A run of more than one frame was free in
  the bitmap as a whole, so no cache held a frame of it.
\<close>

theorem contiguous_exclusive:
  assumes "reach frame_start frame_step (s, h)" "0 < n" "n \<le> 32"
    and "allocate_contiguous_frames core n s = (Some p, s')" and run: "R = {frame_of p..<frame_of p + n}"
  shows "page_addr p \<and> frame_of p + n \<le> MAX_FRAMES \<and>
    (\<forall>j \<in> R. h j = 0 \<and> refs s' j = 1 \<and> j \<notin> free_set (galloc s') \<and> (\<forall>c. j \<notin> cache_set (caches s' c))) \<and>
    (1 < n \<longrightarrow> R \<subseteq> free_set (galloc s) \<and> (\<forall>c. R \<inter> cache_set (caches s c) = {}))"
proof -
  have ok: "holders_ok (s, h)" by (rule frame_sys.reach_inv [OF assms(1)])
  then have inv: "frame_inv s" by (simp add: holders_ok_def)
  have "frame_inv s' \<and> page_addr p \<and> frame_of p + n \<le> MAX_FRAMES \<and> (\<forall>j \<in> R. h j = 0 \<and> refs s' j = 1) \<and>
    (1 < n \<longrightarrow> R \<subseteq> free_set (galloc s))"
  proof (cases "n = 1")
    case True
    then have a: "allocate_frame core s = (Some p, s')" using assms(4) by (simp add: allocate_contiguous_frames_def)
    show ?thesis
      using True alloc_inv [OF ok a] allocate_frame_props [OF inv a] by (simp add: run page_addr_def)
  next
    case False
    then have n: "1 < n" using assms(2) by simp
    show ?thesis
      using contig_inv [OF ok n assms(3,4)] contiguous_props [OF inv n assms(3,4)] by (simp add: run)
  qed
  moreover have "j \<notin> free_set (galloc s') \<and> j \<notin> cache_set (caches s' c)" if "frame_inv s'" "refs s' j = 1" for j c
    using referenced_unused [OF that(1), of j] that(2) by simp
  ultimately show ?thesis using pool_okD(5) [OF frame_invD(1) [OF inv]] by blast
qed

theorem contiguous_exclusive_witness:
  "\<exists>p s'. allocate_contiguous_frames 0 8 demo_frame_state = (Some p, s') \<and>
     (\<forall>j \<in> {frame_of p..<frame_of p + 8}. refs s' j = 1)"
proof -
  obtain fa where "contig_loop (galloc demo_frame_state) 8 0 0 = (Some 0, fa)" using demo_contig [of 8] by auto
  then obtain s' where "allocate_contiguous_frames 0 8 demo_frame_state = (Some 0, s')"
    by (simp add: allocate_contiguous_frames_def allocate_contiguous_def demo_frame_free demo_frame_hint)
  then show ?thesis using contiguous_exclusive [OF demo_frame_reach, of 8 0 0 s'] by auto
qed

text \<open>
  C36. A request for more than 32 frames is not refused: 40 frames are requested, only the
  first 32 of the run are taken from the bitmap, yet all 40 get a reference, so a frame of
  the returned run is still free for the next caller.
\<close>

theorem contiguous_overclaim:
  "\<exists>s'. allocate_contiguous_frames 0 40 demo_frame_state = (Some 0, s') \<and>
     35 \<in> free_set (galloc s') \<and> refs s' 35 = 1"
proof -
  obtain fa where l: "contig_loop (galloc demo_frame_state) 32 0 0 = (Some 0, fa)" using demo_contig [of 32] by auto
  then have c: "allocate_contiguous 40 (galloc demo_frame_state) = (Some 0, fa)"
    by (simp add: allocate_contiguous_def demo_frame_free demo_frame_hint)
  obtain i where i: "(0 :: u64) = of_nat i * of_nat PAGE_SIZE" "i + 32 \<le> MAX_FRAMES"
    "free_set fa = {0..<128} - {i..<i + 32}"
    using allocate_contiguous_cases [OF demo_frame_free(2) _ c] by (auto simp: demo_frame_free(1))
  have "i = frame_of 0" using frame_of_addr [of i] i(1,2) by simp
  then have "free_set fa = {0..<128} - {0..<32}" using i(3) by (simp add: frame_of_def)
  moreover have "fold (\<lambda>k. set_ref (unat (drop_bit 12 (of_nat 0 * of_nat PAGE_SIZE :: u64) + of_nat k)) 1) [0..<40] s =
      s\<lparr> refs := (\<lambda>j. if j \<in> {0..<0 + 40} then 1 else refs s j) \<rparr>" for s
    by (rule fold_set_ref) (simp add: MAX_FRAMES_def)
  ultimately show ?thesis using c by (simp add: allocate_contiguous_frames_def)
qed

text \<open>
  The statistics are exact: whatever sequence of operations ran, the free count that
  \<open>stats\<close> reports is the number of frames that are free in the bitmap.
\<close>

theorem stats_exact:
  assumes "reach frame_start frame_step (s, h)"
  shows "frame_stats s = (total_frames (galloc s), allocated_frames (galloc s), of_nat (card (free_set (galloc s))))"
proof -
  have "frame_inv s" using frame_sys.reach_inv [OF assms] by (simp add: holders_ok_def)
  then have "acct (galloc s)" using pool_okD(3) [OF frame_invD(1)] by blast
  then show ?thesis by (simp add: frame_stats_def acct_def)
qed

theorem stats_exact_witness: "snd (snd (frame_stats demo_frame_state)) = 128"
  using stats_exact [OF demo_frame_reach] by (simp add: demo_frame_free(1))

end
