(* ===== verification/Fd_Table.thy ===== *)
theory Fd_Table
  imports Inode
begin

text \<open>
  File descriptors: the open file description of \<open>fs/file.rs\<close> (flags, offset, \<open>read\<close>,
  \<open>write\<close>, \<open>seek\<close>), the descriptor table of a task in \<open>process/fd.rs\<close> with its
  \<open>next_free_fd\<close> hint (\<open>alloc\<close>, \<open>close\<close>, \<open>dup\<close>, \<open>dup2\<close>, \<open>dup3\<close>), the descriptor
  commands of \<open>fcntl\<close> and the close-on-exec pass of \<open>execve\<close>, and the fixed-size table of
  \<open>fs/file.rs\<close>. Descriptions are shared, so they live in a store and table slots hold their
  addresses. The theory shows that the hinted search returns the lowest free descriptor and
  that the reference count of a description is the number of slots that hold it.
\<close>

section \<open>Open file descriptions\<close>

definition O_RDONLY :: u32 where "O_RDONLY = 0"

definition O_WRONLY :: u32 where "O_WRONLY = 1"

definition O_RDWR :: u32 where "O_RDWR = 2"

definition O_APPEND :: u32 where "O_APPEND = 0x400"  \<comment> \<open>0o2000\<close>

definition O_CLOEXEC :: u32 where "O_CLOEXEC = 0x80000"

definition is_readable :: "u32 \<Rightarrow> bool" where
  "is_readable flags = (let access = flags AND 3 in access = O_RDONLY \<or> access = O_RDWR)"

definition is_writable :: "u32 \<Rightarrow> bool" where
  "is_writable flags = (let access = flags AND 3 in access = O_WRONLY \<or> access = O_RDWR)"

record file_description =
  fd_inode :: inode
  offset :: u64
  fd_flags :: u32
  ref_count :: u32
  fd_path :: "string option"

definition file_description_new :: "inode \<Rightarrow> u32 \<Rightarrow> string option \<Rightarrow> file_description" where
  "file_description_new i flags path =
     \<lparr> fd_inode = i, offset = 0, fd_flags = flags, ref_count = 1, fd_path = path \<rparr>"

definition saturating_add :: "u64 \<Rightarrow> u64 \<Rightarrow> u64" where
  "saturating_add a b = (if unat a + unat b \<ge> 2 ^ 64 then - 1 else a + b)"

text \<open>
  \<open>read\<close> and \<open>write\<close>: the inode operation is an argument that gets the offset and returns a
  byte count or a negative error number.
\<close>

definition fd_read :: "(u64 \<Rightarrow> int + u64) \<Rightarrow> file_description \<Rightarrow> (int + u64) \<times> file_description" where
  "fd_read inode_read d =
     (if \<not> is_readable (fd_flags d) then (Inl (-9), d)
      else if ftype (fd_inode d) = Regular then
        (case inode_read (offset d) of
           Inl e \<Rightarrow> (Inl e, d)
         | Inr n \<Rightarrow> (Inr n, d\<lparr> offset := saturating_add (offset d) n \<rparr>))
      else (inode_read 0, d))"

definition fd_write :: "(u64 \<Rightarrow> int + u64) \<Rightarrow> file_description \<Rightarrow> (int + u64) \<times> file_description" where
  "fd_write inode_write d =
     (if \<not> is_writable (fd_flags d) then (Inl (-9), d)
      else if ftype (fd_inode d) = Regular then
        (let d' = (if fd_flags d AND O_APPEND \<noteq> 0 then d\<lparr> offset := isize (fd_inode d) \<rparr> else d) in
         case inode_write (offset d') of
           Inl e \<Rightarrow> (Inl e, d')
         | Inr n \<Rightarrow> (Inr n, d'\<lparr> offset := saturating_add (offset d') n \<rparr>))
      else (inode_write 0, d))"

definition fd_seek :: "u64 \<Rightarrow> int \<Rightarrow> file_description \<Rightarrow> (int + u64) \<times> file_description" where
  "fd_seek off whence d =
     (if ftype (fd_inode d) = Pipe \<or> ftype (fd_inode d) = Socket then (Inl (-29), d)
      else
        let target = (if whence = 0 then Some off
                      else if whence = 1 then Some (offset d + off)
                      else if whence = 2 then Some (isize (fd_inode d) + off)
                      else None)
        in case target of
             None \<Rightarrow> (Inl (-22), d)
           | Some new_offset \<Rightarrow>
               if sint new_offset < 0 then (Inl (-22), d)
               else (Inr new_offset, d\<lparr> offset := new_offset \<rparr>))"

section \<open>The table of a task\<close>

record fd_table =
  entries :: "nat option list"
  cloexec :: "bool list"
  next_free_fd :: nat
  descs :: "nat \<Rightarrow> file_description"  \<comment> \<open>the shared descriptions\<close>
  next_desc :: nat
  rlimit :: nat                        \<comment> \<open>\<open>task.rlimit_nofile_cur\<close>\<close>

text \<open>\<open>Vec::resize(n, v)\<close>.\<close>

definition resize :: "nat \<Rightarrow> 'a \<Rightarrow> 'a list \<Rightarrow> 'a list" where
  "resize n v xs = take n xs @ replicate (n - length xs) v"

text \<open>\<open>if i >= xs.len() { xs.resize(i + 1, v) }\<close>.\<close>

definition ensure_len :: "nat \<Rightarrow> 'a \<Rightarrow> 'a list \<Rightarrow> 'a list" where
  "ensure_len i v xs = (if i \<ge> length xs then resize (i + 1) v xs else xs)"

text \<open>\<open>entries.get(i)?.as_ref()\<close>.\<close>

definition fd_get :: "fd_table \<Rightarrow> nat \<Rightarrow> nat option" where
  "fd_get t i = (if i < length (entries t) then entries t ! i else None)"

definition map_desc :: "nat \<Rightarrow> (file_description \<Rightarrow> file_description) \<Rightarrow> fd_table \<Rightarrow> fd_table" where
  "map_desc a f t = t\<lparr> descs := (descs t)(a := f (descs t a)) \<rparr>"

definition get_fd_offset :: "int \<Rightarrow> fd_table \<Rightarrow> u64 option" where
  "get_fd_offset fd t =
     (if fd < 0 then None else map_option (\<lambda>a. offset (descs t a)) (fd_get t (nat fd)))"

definition set_fd_offset :: "int \<Rightarrow> u64 \<Rightarrow> fd_table \<Rightarrow> unit option \<times> fd_table" where
  "set_fd_offset fd off t =
     (if fd < 0 then (None, t)
      else case fd_get t (nat fd) of
        None \<Rightarrow> (None, t)
      | Some a \<Rightarrow> (Some (), map_desc a (\<lambda>d. d\<lparr> offset := off \<rparr>) t))"

definition current_task_get_file_desc :: "int \<Rightarrow> fd_table \<Rightarrow> nat option" where
  "current_task_get_file_desc fd t = (if fd < 0 then None else fd_get t (nat fd))"

definition current_task_read_fd :: "int \<Rightarrow> fd_table \<Rightarrow> inode option" where
  "current_task_read_fd fd t =
     (if fd < 0 then None else map_option (\<lambda>a. fd_inode (descs t a)) (fd_get t (nat fd)))"

text \<open>The slot loops: a free slot, the resource limit, or the end of the range.\<close>

datatype scan = Found nat | Limit | End

fun scan_slots :: "nat \<Rightarrow> nat option list \<Rightarrow> nat list \<Rightarrow> scan" where
  "scan_slots lim es [] = End"
| "scan_slots lim es (i # is) =
     (if i \<ge> lim then Limit else if es ! i = None then Found i else scan_slots lim es is)"

text \<open>
  The search that \<open>alloc\<close> and \<open>dup\<close> share: from the hint, then below it, then one past the
  end.
\<close>

definition find_slot :: "fd_table \<Rightarrow> nat option" where
  "find_slot t =
     (let start_idx = next_free_fd t; len = length (entries t);
          extend = (if len < rlimit t then Some len else None)
      in case scan_slots (rlimit t) (entries t) [start_idx..<len] of
           Found i \<Rightarrow> Some i
         | Limit \<Rightarrow> None
         | End \<Rightarrow>
             if start_idx > 0 then
               (case scan_slots (rlimit t) (entries t) [0..<min start_idx len] of
                  Found i \<Rightarrow> Some i | Limit \<Rightarrow> None | End \<Rightarrow> extend)
             else extend)"

text \<open>Storing a description in the slot found: in place, or pushed when the table grows.\<close>

definition place :: "nat \<Rightarrow> nat \<Rightarrow> bool \<Rightarrow> fd_table \<Rightarrow> fd_table" where
  "place i a ce t =
     (if i < length (entries t) then
        t\<lparr> entries := (entries t)[i := Some a],
           cloexec := (ensure_len i False (cloexec t))[i := ce],
           next_free_fd := i + 1 \<rparr>
      else
        t\<lparr> entries := entries t @ [Some a],
           cloexec := (resize (i + 1) False (cloexec t))[i := ce],
           next_free_fd := i + 1 \<rparr>)"

definition alloc_fd :: "inode \<Rightarrow> u32 \<Rightarrow> string option \<Rightarrow> fd_table \<Rightarrow> int option \<times> fd_table" where
  "alloc_fd i flags path t =
     (case find_slot t of
        None \<Rightarrow> (None, t)
      | Some n \<Rightarrow>
          let a = next_desc t;
              t' = t\<lparr> descs := (descs t)(a := file_description_new i flags path), next_desc := a + 1 \<rparr>
          in (Some (int n), place n a (flags AND O_CLOEXEC \<noteq> 0) t'))"

text \<open>Dropping one reference: the tail of \<open>close\<close>, \<open>dup2\<close> and \<open>dup3\<close>.\<close>

definition drop_rc :: "nat \<Rightarrow> fd_table \<Rightarrow> fd_table" where
  "drop_rc a = map_desc a (\<lambda>d. if ref_count d > 0 then d\<lparr> ref_count := ref_count d - 1 \<rparr> else d)"

definition add_rc :: "nat \<Rightarrow> fd_table \<Rightarrow> fd_table" where
  "add_rc a = map_desc a (\<lambda>d. d\<lparr> ref_count := ref_count d + 1 \<rparr>)"

definition close_fd :: "int \<Rightarrow> fd_table \<Rightarrow> bool \<times> fd_table" where
  "close_fd fd t =
     (if fd < 0 then (False, t)
      else let i = nat fd in
        case fd_get t i of
          None \<Rightarrow> (False, t)
        | Some a \<Rightarrow>
            (True, drop_rc a
               (t\<lparr> cloexec := (if i < length (cloexec t) then (cloexec t)[i := False] else cloexec t),
                   next_free_fd := (if i < next_free_fd t then i else next_free_fd t),
                   entries := (entries t)[i := None] \<rparr>)))"

definition dup_fd :: "int \<Rightarrow> fd_table \<Rightarrow> int option \<times> fd_table" where
  "dup_fd fd t =
     (if fd < 0 then (None, t)
      else case fd_get t (nat fd) of
        None \<Rightarrow> (None, t)
      | Some a \<Rightarrow>
          let t' = add_rc a t in
          case find_slot t' of
            None \<Rightarrow> (None, t')
          | Some n \<Rightarrow> (Some (int n), place n a False t'))"

text \<open>The part of \<open>dup2\<close> and \<open>dup3\<close> that puts a description into a given slot.\<close>

definition put_fd :: "nat \<Rightarrow> nat \<Rightarrow> bool \<Rightarrow> fd_table \<Rightarrow> fd_table" where
  "put_fd a n ce t =
     (let t1 = add_rc a t;
          es = ensure_len n None (entries t1);
          cs = ensure_len n False (cloexec t1);
          old_desc = es ! n;
          t2 = t1\<lparr> entries := es[n := Some a], cloexec := cs[n := ce] \<rparr>
      in case old_desc of Some b \<Rightarrow> drop_rc b t2 | None \<Rightarrow> t2)"

definition dup2_fd :: "int \<Rightarrow> int \<Rightarrow> fd_table \<Rightarrow> int option \<times> fd_table" where
  "dup2_fd oldfd newfd t =
     (if oldfd < 0 \<or> newfd < 0 then (None, t)
      else if nat newfd \<ge> rlimit t then (None, t)
      else if oldfd = newfd then
        (if fd_get t (nat oldfd) \<noteq> None then (Some newfd, t) else (None, t))
      else case fd_get t (nat oldfd) of
        None \<Rightarrow> (None, t)
      | Some a \<Rightarrow> (Some newfd, put_fd a (nat newfd) False t))"

definition dup3_fd :: "int \<Rightarrow> int \<Rightarrow> bool \<Rightarrow> fd_table \<Rightarrow> int option \<times> fd_table" where
  "dup3_fd oldfd newfd ce t =
     (if oldfd < 0 \<or> newfd < 0 \<or> oldfd = newfd then (None, t)
      else if nat newfd \<ge> rlimit t then (None, t)
      else case fd_get t (nat oldfd) of
        None \<Rightarrow> (None, t)
      | Some a \<Rightarrow> (Some newfd, put_fd a (nat newfd) ce t))"

section \<open>\<open>fcntl\<close>, \<open>fork\<close> and \<open>execve\<close>\<close>

text \<open>The first free slot at or above \<open>start_fd\<close>, the end of the table included.\<close>

definition first_free_from :: "nat option list \<Rightarrow> nat \<Rightarrow> nat" where
  "first_free_from es start_fd = start_fd + length (takeWhile (\<lambda>e. e \<noteq> None) (drop start_fd es))"

definition fcntl_dupfd :: "bool \<Rightarrow> int \<Rightarrow> int \<Rightarrow> fd_table \<Rightarrow> syscall_result \<times> fd_table" where
  "fcntl_dupfd ce fd start_fd t =
     (if start_fd < 0 then (errno_code EINVAL, t)
      else case (if fd < 0 then None else fd_get t (nat fd)) of
        None \<Rightarrow> (errno_code EBADF, t)
      | Some a \<Rightarrow>
          let t1 = add_rc a t;
              n = first_free_from (entries t1) (nat start_fd);
              es = ensure_len n None (entries t1);
              cs = ensure_len n False (cloexec t1)
          in (int n, t1\<lparr> entries := es[n := Some a], cloexec := cs[n := ce] \<rparr>))"

definition fcntl_getfd :: "int \<Rightarrow> fd_table \<Rightarrow> syscall_result" where
  "fcntl_getfd fd t =
     (if 0 \<le> fd \<and> fd_get t (nat fd) \<noteq> None
      then if nat fd < length (cloexec t) \<and> cloexec t ! nat fd then 1 else 0
      else errno_code EBADF)"

definition fcntl_setfd :: "int \<Rightarrow> u64 \<Rightarrow> fd_table \<Rightarrow> syscall_result \<times> fd_table" where
  "fcntl_setfd fd arg t =
     (if 0 \<le> fd \<and> fd_get t (nat fd) \<noteq> None then
        let cs = ensure_len (nat fd) False (cloexec t)
        in (0, t\<lparr> cloexec := cs[nat fd := (arg AND 1 \<noteq> 0)] \<rparr>)
      else (errno_code EBADF, t))"

text \<open>The close-on-exec pass of \<open>execve\<close>, one slot and the whole table.\<close>

definition exec_slot :: "nat \<Rightarrow> fd_table \<Rightarrow> fd_table" where
  "exec_slot i t =
     (if i < length (cloexec t) \<and> cloexec t ! i then
        let t1 = t\<lparr> entries := (entries t)[i := None], cloexec := (cloexec t)[i := False] \<rparr>
        in case entries t ! i of Some a \<Rightarrow> drop_rc a t1 | None \<Rightarrow> t1
      else t)"

definition exec_cloexec :: "fd_table \<Rightarrow> fd_table" where
  "exec_cloexec t = fold exec_slot [0..<length (entries t)] t"

text \<open>
  The copy of the table for a child of \<open>fork\<close>: one more reference for every used slot. A
  new task starts with the hint at 0.
\<close>

definition fork_fds :: "fd_table \<Rightarrow> fd_table" where
  "fork_fds t =
     fold (\<lambda>slot t. case slot of Some a \<Rightarrow> add_rc a t | None \<Rightarrow> t) (entries t) (t\<lparr> next_free_fd := 0 \<rparr>)"

section \<open>The fixed-size table of \<open>fs/file.rs\<close>\<close>

definition MAX_FDS :: nat where "MAX_FDS = 256"

record fixed_table =
  fds :: "nat option list"
  fdescs :: "nat \<Rightarrow> file_description"

definition fixed_new :: "(nat \<Rightarrow> file_description) \<Rightarrow> fixed_table" where
  "fixed_new ds = \<lparr> fds = replicate MAX_FDS None, fdescs = ds \<rparr>"

definition fixed_alloc :: "nat \<Rightarrow> fixed_table \<Rightarrow> int option \<times> fixed_table" where
  "fixed_alloc a t =
     (case find (\<lambda>i. fds t ! i = None) [0..<length (fds t)] of
        Some i \<Rightarrow> (Some (int i), t\<lparr> fds := (fds t)[i := Some a] \<rparr>)
      | None \<Rightarrow> (None, t))"

definition fixed_get :: "fixed_table \<Rightarrow> int \<Rightarrow> nat option" where
  "fixed_get t fd = (if fd < 0 \<or> nat fd \<ge> length (fds t) then None else fds t ! nat fd)"

definition fixed_close :: "int \<Rightarrow> fixed_table \<Rightarrow> bool \<times> fixed_table" where
  "fixed_close fd t =
     (if fd < 0 \<or> nat fd \<ge> length (fds t) then (False, t)
      else (fds t ! nat fd \<noteq> None, t\<lparr> fds := (fds t)[nat fd := None] \<rparr>))"

definition fixed_addref :: "nat \<Rightarrow> fixed_table \<Rightarrow> fixed_table" where
  "fixed_addref a t =
     t\<lparr> fdescs := (fdescs t)(a := (fdescs t a)\<lparr> ref_count := ref_count (fdescs t a) + 1 \<rparr>) \<rparr>"

definition fixed_dup :: "int \<Rightarrow> fixed_table \<Rightarrow> int option \<times> fixed_table" where
  "fixed_dup oldfd t =
     (case fixed_get t oldfd of
        None \<Rightarrow> (None, t)
      | Some a \<Rightarrow> fixed_alloc a (fixed_addref a t))"

definition fixed_dup2 :: "int \<Rightarrow> int \<Rightarrow> fixed_table \<Rightarrow> int option \<times> fixed_table" where
  "fixed_dup2 oldfd newfd t =
     (if newfd < 0 \<or> nat newfd \<ge> length (fds t) then (None, t)
      else
        let t1 = snd (fixed_close newfd t) in
        case fixed_get t1 oldfd of
          None \<Rightarrow> (None, t1)
        | Some a \<Rightarrow>
            let t2 = fixed_addref a t1
            in (Some newfd, t2\<lparr> fds := (fds t2)[nat newfd := Some a] \<rparr>))"

section \<open>The lowest free descriptor\<close>

text \<open>All slots below the hint are taken.\<close>

definition hint_inv :: "fd_table \<Rightarrow> bool" where
  "hint_inv t \<longleftrightarrow> next_free_fd t \<le> length (entries t) \<and> (\<forall>i < next_free_fd t. entries t ! i \<noteq> None)"

text \<open>The lowest slot without a description; the slot past the end is always one.\<close>

definition lowest_free :: "fd_table \<Rightarrow> nat" where
  "lowest_free t = first_free_from (entries t) 0"

lemma first_free_from_props:
  "fd_get t (first_free_from (entries t) s) = None" "s \<le> first_free_from (entries t) s"
  "s \<le> i \<Longrightarrow> i < first_free_from (entries t) s \<Longrightarrow> fd_get t i \<noteq> None"
proof -
  let ?l = "takeWhile (\<lambda>e. e \<noteq> None) (drop s (entries t))"
  show "s \<le> first_free_from (entries t) s" by (simp add: first_free_from_def)
  show "fd_get t (first_free_from (entries t) s) = None"
  proof (cases "first_free_from (entries t) s < length (entries t)")
    case True
    then have "length ?l < length (drop s (entries t))" by (simp add: first_free_from_def)
    from nth_length_takeWhile [OF this] True show ?thesis
      by (simp add: fd_get_def first_free_from_def)
  qed (simp add: fd_get_def)
  assume i: "s \<le> i" "i < first_free_from (entries t) s"
  have len: "length ?l \<le> length (entries t) - s" using length_takeWhile_le [of _ "drop s (entries t)"] by simp
  have k: "i - s < length ?l" using i by (simp add: first_free_from_def)
  then have "?l ! (i - s) = entries t ! i" "?l ! (i - s) \<noteq> None"
    using i(1) len takeWhile_nth [OF k] set_takeWhileD nth_mem [OF k] by (auto dest: set_takeWhileD)
  moreover have "i < length (entries t)" using k len i(1) by linarith
  ultimately show "fd_get t i \<noteq> None" by (simp add: fd_get_def)
qed

lemma first_free_unique:
  assumes "fd_get t n = None" "\<And>i. i < n \<Longrightarrow> fd_get t i \<noteq> None"
  shows "lowest_free t = n"
  using first_free_from_props(1) [of t 0] first_free_from_props(3) [where t = t and s = 0 and i = n] assms
  unfolding lowest_free_def by (metis linorder_neqE_nat zero_le)

text \<open>The scan over an interval.\<close>

lemma scan_slots_spec:
  assumes "b \<le> length es"
  shows "case scan_slots lim es [a..<b] of
      Found i \<Rightarrow> a \<le> i \<and> i < b \<and> i < lim \<and> es ! i = None \<and> (\<forall>j. a \<le> j \<and> j < i \<longrightarrow> es ! j \<noteq> None)
    | Limit \<Rightarrow> \<exists>i. a \<le> i \<and> i < b \<and> lim \<le> i \<and> (\<forall>j. a \<le> j \<and> j < i \<longrightarrow> es ! j \<noteq> None)
    | End \<Rightarrow> \<forall>j. a \<le> j \<and> j < b \<longrightarrow> es ! j \<noteq> None"
proof (induction "b - a" arbitrary: a)
  case (Suc k)
  then have ab: "a < b" "[a..<b] = a # [Suc a..<b]" by (simp_all add: upt_rec)
  have IH: "case scan_slots lim es [Suc a..<b] of
      Found i \<Rightarrow> Suc a \<le> i \<and> i < b \<and> i < lim \<and> es ! i = None \<and> (\<forall>j. Suc a \<le> j \<and> j < i \<longrightarrow> es ! j \<noteq> None)
    | Limit \<Rightarrow> \<exists>i. Suc a \<le> i \<and> i < b \<and> lim \<le> i \<and> (\<forall>j. Suc a \<le> j \<and> j < i \<longrightarrow> es ! j \<noteq> None)
    | End \<Rightarrow> \<forall>j. Suc a \<le> j \<and> j < b \<longrightarrow> es ! j \<noteq> None"
    using Suc by simp
  have split: "(\<forall>j. a \<le> j \<and> j < i \<longrightarrow> es ! j \<noteq> None)"
    if "es ! a \<noteq> None" "\<forall>j. Suc a \<le> j \<and> j < i \<longrightarrow> es ! j \<noteq> None" for i
    using that by (metis Suc_leI le_neq_implies_less)
  consider "lim \<le> a" | "a < lim" "es ! a = None" | "a < lim" "es ! a \<noteq> None" by linarith
  then show ?case
  proof cases
    case 3
    then show ?thesis using IH ab split [OF 3(2)]
      by (cases "scan_slots lim es [Suc a..<b]") (auto dest: Suc_leD)
  qed (use ab in auto)
qed auto

lemma lowest_free_at:
  assumes "\<forall>j < i. entries t ! j \<noteq> None" "i \<le> length (entries t)"
  shows "i < length (entries t) \<longrightarrow> entries t ! i = None \<Longrightarrow> lowest_free t = i" "i \<le> lowest_free t"
proof -
  show "lowest_free t = i" if "i < length (entries t) \<longrightarrow> entries t ! i = None"
    by (rule first_free_unique) (use assms that in \<open>auto simp: fd_get_def\<close>)
  show "i \<le> lowest_free t"
  proof (rule ccontr)
    assume "\<not> i \<le> lowest_free t"
    then have "fd_get t (lowest_free t) \<noteq> None" using assms by (auto simp: fd_get_def)
    then show False using first_free_from_props(1) [of t 0] by (simp add: lowest_free_def)
  qed
qed

lemma find_slot_lowest:
  assumes "hint_inv t"
  shows "find_slot t = (if lowest_free t < rlimit t then Some (lowest_free t) else None)"
proof -
  let ?s = "next_free_fd t" and ?n = "length (entries t)" and ?l = "rlimit t"
  have below: "\<forall>i < ?s. entries t ! i \<noteq> None" "?s \<le> ?n" using assms by (auto simp: hint_inv_def)
  have ext: "\<forall>j < i. entries t ! j \<noteq> None" if "\<forall>j. ?s \<le> j \<and> j < i \<longrightarrow> entries t ! j \<noteq> None" for i
    using below(1) that by (meson not_less)
  have low: "case scan_slots ?l (entries t) [0..<min ?s ?n] of Found _ \<Rightarrow> False | Limit \<Rightarrow> ?l < ?n | End \<Rightarrow> True"
    using scan_slots_spec [of "min ?s ?n" "entries t" 0 ?l] below by (auto split: scan.splits)
  note sp = scan_slots_spec [of ?n "entries t" ?s ?l, OF order_refl]
  show ?thesis
  proof (cases "scan_slots ?l (entries t) [?s..<?n]")
    case (Found i)
    then have "i < ?n" "i < ?l" "entries t ! i = None" "\<forall>j < i. entries t ! j \<noteq> None"
      using sp ext [of i] by auto
    then show ?thesis using Found lowest_free_at(1) [of i t] by (simp add: find_slot_def Let_def)
  next
    case Limit
    then obtain i where "?l \<le> i" "i < ?n" "\<forall>j < i. entries t ! j \<noteq> None"
      using sp ext by auto
    then have "\<not> lowest_free t < ?l" using lowest_free_at(2) [of i t] by simp
    then show ?thesis using Limit by (simp add: find_slot_def Let_def)
  next
    case End
    then have l: "lowest_free t = ?n" using sp ext [of ?n] lowest_free_at(1) [of ?n t] by simp
    then show ?thesis
      using End low
      by (cases "scan_slots ?l (entries t) [0..<min ?s ?n]") (simp_all add: find_slot_def Let_def)
  qed
qed

subsection \<open>Every table operation keeps the hint\<close>

lemma map_desc_fields [simp]:
  "entries (map_desc a f t) = entries t" "cloexec (map_desc a f t) = cloexec t"
  "next_free_fd (map_desc a f t) = next_free_fd t" "rlimit (map_desc a f t) = rlimit t"
  "next_desc (map_desc a f t) = next_desc t"
  by (simp_all add: map_desc_def)

lemma rc_fields [simp]:
  "entries (add_rc a t) = entries t" "cloexec (add_rc a t) = cloexec t"
  "next_free_fd (add_rc a t) = next_free_fd t" "rlimit (add_rc a t) = rlimit t" "next_desc (add_rc a t) = next_desc t"
  "entries (drop_rc a t) = entries t" "cloexec (drop_rc a t) = cloexec t"
  "next_free_fd (drop_rc a t) = next_free_fd t" "rlimit (drop_rc a t) = rlimit t" "next_desc (drop_rc a t) = next_desc t"
  by (simp_all add: add_rc_def drop_rc_def)

lemma hint_inv_desc [simp]:
  "hint_inv (map_desc a f t) = hint_inv t" "hint_inv (add_rc a t) = hint_inv t"
  "hint_inv (drop_rc a t) = hint_inv t" "hint_inv (t\<lparr> descs := d, next_desc := n \<rparr>) = hint_inv t"
  "hint_inv (t\<lparr> cloexec := c \<rparr>) = hint_inv t"
  by (simp_all add: hint_inv_def)

lemma lowest_free_below: "\<forall>i < lowest_free t. i < length (entries t) \<and> entries t ! i \<noteq> None"
  using first_free_from_props(3) [where t = t and s = 0] unfolding lowest_free_def fd_get_def
  by (metis zero_le)

lemma lowest_free_le: "lowest_free t \<le> length (entries t)"
  using lowest_free_below [of t] by (metis linorder_not_less order_less_irrefl)

lemma hint_inv_place:
  assumes "n = lowest_free t"
  shows "hint_inv (place n a ce t)"
  using assms lowest_free_below [of t] lowest_free_le [of t]
  by (auto simp: hint_inv_def place_def nth_append nth_list_update less_Suc_eq)

lemma hint_inv_close: "hint_inv t \<Longrightarrow> hint_inv (snd (close_fd fd t))"
  by (auto simp: close_fd_def hint_inv_def Let_def split: option.split)

lemma length_ensure [simp]: "length (ensure_len n v xs) = max (n + 1) (length xs)"
  by (simp add: ensure_len_def resize_def)

lemma nth_ensure: "i < max (n + 1) (length xs) \<Longrightarrow> ensure_len n v xs ! i = (if i < length xs then xs ! i else v)"
  by (auto simp: ensure_len_def resize_def nth_append)

lemma hint_inv_grow:
  "hint_inv t \<Longrightarrow> hint_inv (t\<lparr> entries := (ensure_len n None (entries t))[n := Some a] \<rparr>)"
  by (auto simp: hint_inv_def nth_ensure nth_list_update)

lemma hint_inv_put: "hint_inv t \<Longrightarrow> hint_inv (put_fd a n ce t)"
  using hint_inv_grow [of "add_rc a t" n a] by (simp add: put_fd_def Let_def split: option.split)

text \<open>The operations on one task's table; all but \<open>Exec\<close> keep the hint correct.\<close>

datatype fd_op =
    Alloc inode u32 "string option" | Close int | Dup int | Dup2 int int | Dup3 int int bool
  | DupFd bool int int | SetFd int u64 | SetOffset int u64 | Exec

fun fd_apply :: "fd_op \<Rightarrow> fd_table \<Rightarrow> fd_table" where
  "fd_apply (Alloc i fl p) t = snd (alloc_fd i fl p t)"
| "fd_apply (Close fd) t = snd (close_fd fd t)"
| "fd_apply (Dup fd) t = snd (dup_fd fd t)"
| "fd_apply (Dup2 a b) t = snd (dup2_fd a b t)"
| "fd_apply (Dup3 a b ce) t = snd (dup3_fd a b ce t)"
| "fd_apply (DupFd ce fd s) t = snd (fcntl_dupfd ce fd s t)"
| "fd_apply (SetFd fd arg) t = snd (fcntl_setfd fd arg t)"
| "fd_apply (SetOffset fd off) t = snd (set_fd_offset fd off t)"
| "fd_apply Exec t = exec_cloexec t"

lemma fd_apply_hint:
  assumes "hint_inv t" "op \<noteq> Exec"
  shows "hint_inv (fd_apply op t)"
proof (cases op)
  case (Alloc i fl p)
  then show ?thesis
    using assms find_slot_lowest [OF assms(1)] hint_inv_place [of _ "t\<lparr>descs := _, next_desc := _\<rparr>"]
    by (auto simp: alloc_fd_def Let_def lowest_free_def)
next
  case (Dup fd)
  then show ?thesis
    using assms find_slot_lowest [of "add_rc _ t"] hint_inv_place [of _ "add_rc _ t"]
    by (auto simp: dup_fd_def Let_def lowest_free_def split: option.split)
next
  case (DupFd ce fd s)
  then show ?thesis
    using assms hint_inv_grow [of "add_rc _ t"] by (simp add: fcntl_dupfd_def Let_def split: option.split)
qed (use assms hint_inv_close hint_inv_put in
    \<open>auto simp: dup2_fd_def dup3_fd_def fcntl_setfd_def set_fd_offset_def Let_def split: option.split\<close>)

lemma fd_run_hint: "hint_inv t \<Longrightarrow> Exec \<notin> set ops \<Longrightarrow> hint_inv (fold fd_apply ops t)"
  by (induction ops arbitrary: t) (auto simp: fd_apply_hint)

section \<open>Reference counts\<close>

text \<open>How many slots hold the description at \<open>a\<close>.\<close>

definition holds :: "fd_table \<Rightarrow> nat \<Rightarrow> nat" where
  "holds t a = count_list (entries t) (Some a)"

definition rc_inv :: "fd_table \<Rightarrow> bool" where
  "rc_inv t \<longleftrightarrow> length (entries t) \<le> 2 ^ 31 \<and> (\<forall>a. Some a \<in> set (entries t) \<longrightarrow> a < next_desc t) \<and>
     (\<forall>a < next_desc t. ref_count (descs t a) = of_nat (holds t a))"

lemma count_list_update:
  "i < length xs \<Longrightarrow> count_list (xs[i := v]) x + (if xs ! i = x then 1 else 0) =
     count_list xs x + (if v = x then 1 else 0)"
proof (induction xs arbitrary: i)
  case (Cons y xs)
  show ?case
  proof (cases i)
    case (Suc k)
    then show ?thesis using Cons.IH [of k] Cons.prems by (auto split: if_splits)
  qed auto
qed simp

lemma count_list_ensure: "v \<noteq> x \<Longrightarrow> count_list (ensure_len n v xs) x = count_list xs x"
proof -
  assume "v \<noteq> x"
  then have "count_list (replicate k v) x = 0" for k by (induction k) simp_all
  then show ?thesis by (simp add: ensure_len_def resize_def)
qed

lemma count_update_word:
  assumes "i < length es"
  shows "(of_nat (count_list (es[i := v]) x) :: u32) =
    of_nat (count_list es x) + (if v = x then 1 else 0) - (if es ! i = x then 1 else 0)"
proof -
  have "(of_nat (count_list (es[i := v]) x + (if es ! i = x then 1 else 0)) :: u32) =
      of_nat (count_list es x + (if v = x then 1 else 0))"
    using count_list_update [OF assms] by metis
  then show ?thesis by (auto simp: algebra_simps split: if_splits)
qed

lemma rc_values [simp]:
  "ref_count (descs (add_rc b t) a) = ref_count (descs t a) + (if a = b then 1 else 0)"
  "ref_count (descs (drop_rc b t) a) =
     (if a = b \<and> ref_count (descs t a) > 0 then ref_count (descs t a) - 1 else ref_count (descs t a))"
  by (simp_all add: add_rc_def drop_rc_def map_desc_def)

lemma holds_pos:
  assumes "rc_inv t" "i < length (entries t)" "entries t ! i = Some a"
  shows "a < next_desc t" "ref_count (descs t a) \<noteq> 0" "ref_count (descs t a) + 1 \<noteq> 0"
proof -
  have mem: "Some a \<in> set (entries t)" using assms(2,3) by (metis nth_mem)
  then show a: "a < next_desc t" using assms(1) by (simp add: rc_inv_def)
  have "holds t a \<noteq> 0" using mem by (simp add: holds_def count_list_0_iff)
  moreover have "holds t a \<le> 2 ^ 31"
    using assms(1) count_le_length [of "entries t" "Some a"] by (simp add: rc_inv_def holds_def)
  ultimately have "unat (of_nat (holds t a) :: u32) \<noteq> 0" "unat (of_nat (holds t a + 1) :: u32) \<noteq> 0"
    using unat_of_nat_small [of "holds t a", where 'a = 32] unat_of_nat_small [of "holds t a + 1", where 'a = 32]
    by simp_all
  moreover have "ref_count (descs t a) = of_nat (holds t a)" using assms(1) a by (simp add: rc_inv_def)
  ultimately show "ref_count (descs t a) \<noteq> 0" "ref_count (descs t a) + 1 \<noteq> 0"
    by (auto simp: unat_eq_0 add.commute)
qed

text \<open>Placing a description in the slot that \<open>find_slot\<close> returned.\<close>

lemma place_rc:
  assumes "n \<le> length (entries t)" "n < length (entries t) \<Longrightarrow> entries t ! n = None"
  shows "(of_nat (holds (place n a ce t) x) :: u32) = of_nat (holds t x) + (if x = a then 1 else 0)"
    "set (entries (place n a ce t)) \<subseteq> insert (Some a) (set (entries t))"
    "length (entries (place n a ce t)) = max (n + 1) (length (entries t))"
    "descs (place n a ce t) = descs t" "next_desc (place n a ce t) = next_desc t"
  using assms count_update_word [of n "entries t" "Some a" "Some x"] set_update_subset_insert [of "entries t" n "Some a"]
  by (auto simp: place_def holds_def)

lemma scan_slots_Found:
  "scan_slots lim es is = Found i \<Longrightarrow> i \<in> set is \<and> i < lim \<and> es ! i = None"
  by (induction lim es "is" rule: scan_slots.induct) (auto split: if_splits)

lemma find_slot_Some:
  "find_slot t = Some n \<Longrightarrow> n \<le> length (entries t) \<and> n < rlimit t \<and> (n < length (entries t) \<longrightarrow> entries t ! n = None)"
  by (auto simp: find_slot_def Let_def split: scan.splits if_splits dest!: scan_slots_Found)

text \<open>Writing slot \<open>n\<close>, grown if needed.\<close>

lemma grow_rc:
  "(of_nat (count_list ((ensure_len n None es)[n := Some a]) (Some x)) :: u32) =
     of_nat (count_list es (Some x)) + (if x = a then 1 else 0) - (if ensure_len n None es ! n = Some x then 1 else 0)"
  by (subst count_update_word) (auto simp: count_list_ensure)

lemma grow_set: "set ((ensure_len n None es)[n := Some a]) \<subseteq> insert (Some a) (insert None (set es))"
proof -
  have "set (ensure_len n None es) \<subseteq> insert None (set es)"
    by (auto simp: ensure_len_def resize_def dest: in_set_takeD split: if_splits)
  then show ?thesis using set_update_subset_insert [of "ensure_len n None es" n "Some a"] by blast
qed

lemma rc_inv_put:
  assumes inv: "rc_inv t" and a: "fd_get t m = Some a" and n: "n < 2 ^ 31"
  shows "rc_inv (put_fd a n ce t)"
proof -
  let ?es = "(ensure_len n None (entries t))[n := Some a]"
  let ?t = "put_fd a n ce t"
  have m: "m < length (entries t)" "entries t ! m = Some a" using a by (auto simp: fd_get_def split: if_splits)
  note pa = holds_pos [OF inv m]
  have e: "entries ?t = ?es" "next_desc ?t = next_desc t"
    by (auto simp: put_fd_def Let_def split: option.split)
  have "b < next_desc t" if "Some b \<in> set ?es" for b
    using that grow_set [of n "entries t" a] inv pa(1) by (auto simp: rc_inv_def)
  moreover have "length ?es \<le> 2 ^ 31" using inv n by (simp add: rc_inv_def)
  moreover have "ref_count (descs ?t b) = of_nat (count_list ?es (Some b))" if b: "b < next_desc t" for b
  proof (cases "ensure_len n None (entries t) ! n")
    case None
    then show ?thesis
      using b inv unfolding grow_rc by (simp add: put_fd_def Let_def rc_inv_def holds_def)
  next
    case (Some c)
    then have c: "n < length (entries t)" "entries t ! n = Some c" by (auto simp: nth_ensure split: if_splits)
    show ?thesis
      using b inv holds_pos(2,3) [OF inv c] Some unfolding grow_rc
      by (auto simp: put_fd_def Let_def rc_inv_def holds_def word_gt_0)
  qed
  ultimately show ?thesis by (simp add: rc_inv_def e holds_def)
qed

lemma rc_inv_clear:
  assumes inv: "rc_inv t" and a: "i < length (entries t)" "entries t ! i = Some a"
    and t': "entries t' = (entries t)[i := None]" "next_desc t' = next_desc t" "descs t' = descs t"
  shows "rc_inv (drop_rc a t')"
proof -
  note pa = holds_pos [OF inv a]
  have "b < next_desc t" if "Some b \<in> set ((entries t)[i := None])" for b
    using that set_update_subset_insert [of "entries t" i None] inv by (auto simp: rc_inv_def)
  moreover have "ref_count (descs (drop_rc a t') b) = of_nat (count_list ((entries t)[i := None]) (Some b))"
    if "b < next_desc t" for b
    using that inv pa a t' by (auto simp: count_update_word rc_inv_def holds_def word_gt_0)
  ultimately show ?thesis using inv t' by (simp add: rc_inv_def holds_def)
qed

lemma rc_inv_close:
  assumes "rc_inv t"
  shows "rc_inv (snd (close_fd fd t))"
proof (cases "fd < 0 \<or> fd_get t (nat fd) = None")
  case True
  then show ?thesis using assms by (auto simp: close_fd_def)
next
  case False
  then obtain a where a: "fd_get t (nat fd) = Some a" by blast
  then have i: "nat fd < length (entries t)" "entries t ! nat fd = Some a" by (auto simp: fd_get_def split: if_splits)
  show ?thesis using False a rc_inv_clear [OF assms i] by (simp add: close_fd_def Let_def)
qed

lemma rc_inv_exec_slot:
  assumes "rc_inv t" "i < length (entries t)"
  shows "rc_inv (exec_slot i t)" "length (entries (exec_slot i t)) = length (entries t)"
proof -
  show "length (entries (exec_slot i t)) = length (entries t)"
    by (auto simp: exec_slot_def Let_def split: option.split)
  show "rc_inv (exec_slot i t)"
  proof (cases "entries t ! i")
    case None
    then have "(entries t)[i := None] = entries t" by (metis list_update_id)
    then show ?thesis using assms None by (simp add: exec_slot_def Let_def rc_inv_def holds_def)
  next
    case (Some a)
    then show ?thesis
      using assms rc_inv_clear [OF assms Some] by (simp add: exec_slot_def Let_def)
  qed
qed

lemma rc_inv_exec: "rc_inv t \<Longrightarrow> rc_inv (exec_cloexec t)"
proof -
  have "rc_inv (fold exec_slot is t) \<and> length (entries (fold exec_slot is t)) = length (entries t)"
    if "rc_inv t" "\<forall>i \<in> set is. i < length (entries t)" for "is" t
    using that by (induction "is" arbitrary: t) (simp_all add: rc_inv_exec_slot)
  then show "rc_inv t \<Longrightarrow> ?thesis" by (simp add: exec_cloexec_def)
qed

lemma rc_inv_place:
  assumes inv: "rc_inv t" and n: "find_slot t = Some n" "n < 2 ^ 31"
    and t': "entries t' = entries t" "next_desc t \<le> next_desc t'" "a < next_desc t'"
    and rc: "\<And>b. b < next_desc t' \<Longrightarrow>
      ref_count (descs t' b) = of_nat (holds t b) + (if b = a then 1 else 0)"
  shows "rc_inv (place n a ce t')"
proof -
  have s: "n \<le> length (entries t')" "n < length (entries t') \<Longrightarrow> entries t' ! n = None"
    using find_slot_Some [OF n(1)] t'(1) by auto
  have h: "holds t' b = holds t b" for b using t'(1) by (simp add: holds_def)
  have "b < next_desc t'" if "Some b \<in> set (entries (place n a ce t'))" for b
    using that place_rc(2) [OF s, of a ce] inv t' by (fastforce simp: rc_inv_def)
  then show ?thesis
    using place_rc(1,3,4,5) [OF s, of a ce] rc inv n(2) t'(1) h by (simp add: rc_inv_def)
qed

lemma rc_inv_alloc:
  assumes "rc_inv t" "rlimit t \<le> 2 ^ 31"
  shows "rc_inv (snd (alloc_fd i fl p t))"
proof (cases "find_slot t")
  case (Some n)
  have "holds t (next_desc t) = 0"
    using assms(1) by (auto simp: holds_def rc_inv_def count_list_0_iff)
  then have "rc_inv (place n (next_desc t) c
      (t\<lparr> descs := (descs t)(next_desc t := file_description_new i fl p), next_desc := next_desc t + 1 \<rparr>))" for c
    using assms find_slot_Some [OF Some]
    by (intro rc_inv_place [OF assms(1) Some])
      (auto simp: file_description_new_def rc_inv_def less_Suc_eq)
  then show ?thesis using Some by (simp add: alloc_fd_def Let_def)
qed (simp add: alloc_fd_def assms)

lemma find_slot_add_rc [simp]: "find_slot (add_rc a t) = find_slot t"
  by (simp only: find_slot_def rc_fields)

lemma rc_inv_dup:
  assumes "rc_inv t" "rlimit t \<le> 2 ^ 31" "dup_fd fd t = (Some n, t')"
  shows "rc_inv t'"
proof -
  obtain a k where a: "fd_get t (nat fd) = Some a" and k: "find_slot t = Some k" and t': "t' = place k a False (add_rc a t)"
    using assms(3) by (auto simp: dup_fd_def Let_def split: if_splits option.splits)
  have i: "nat fd < length (entries t)" "entries t ! nat fd = Some a" using a by (auto simp: fd_get_def split: if_splits)
  show ?thesis
    unfolding t' using assms(1,2) find_slot_Some [OF k] holds_pos(1) [OF assms(1) i]
    by (intro rc_inv_place [OF assms(1) k]) (auto simp: rc_inv_def)
qed

text \<open>\<open>F_DUPFD\<close> fills a free slot, so it acts like \<open>dup3\<close> onto that slot.\<close>

lemma first_free_from_None: "ensure_len (first_free_from es s) None es ! first_free_from es s = None"
proof (cases "first_free_from es s < length es")
  case True
  then have "length (takeWhile (\<lambda>e. e \<noteq> None) (drop s es)) < length (drop s es)" by (simp add: first_free_from_def)
  from nth_length_takeWhile [OF this] True show ?thesis by (simp add: nth_ensure first_free_from_def)
qed (simp add: nth_ensure)

lemma dupfd_put:
  assumes "fcntl_dupfd ce fd s t = (r, t')" "0 \<le> r"
  shows "\<exists>a. fd_get t (nat fd) = Some a \<and> t' = put_fd a (nat r) ce t"
  using assms by (auto simp: fcntl_dupfd_def put_fd_def Let_def first_free_from_None split: if_splits option.splits)

text \<open>
  The calls that change the table; \<open>dup\<close> when it succeeds, and \<open>F_DUPFD\<close> and \<open>F_DUPFD_CLOEXEC\<close> when
  they succeed with a descriptor that fits the \<open>i32\<close> it is returned in.
\<close>

inductive fd_step :: "fd_table \<Rightarrow> fd_table \<Rightarrow> bool" where
  alloc: "fd_step t (snd (alloc_fd i fl p t))"
| close: "fd_step t (snd (close_fd fd t))"
| dup: "dup_fd fd t = (Some n, t') \<Longrightarrow> fd_step t t'"
| dup2: "fd_step t (snd (dup2_fd a b t))"
| dup3: "fd_step t (snd (dup3_fd a b ce t))"
| dupfd: "fcntl_dupfd ce fd s t = (r, t') \<Longrightarrow> 0 \<le> r \<Longrightarrow> r < 2 ^ 31 \<Longrightarrow> fd_step t t'"
| setfd: "fd_step t (snd (fcntl_setfd fd arg t))"
| exec: "fd_step t (exec_cloexec t)"

definition fd_start :: "fd_table \<Rightarrow> bool" where
  "fd_start t \<longleftrightarrow> entries t = [] \<and> next_desc t = 0 \<and> rlimit t \<le> 2 ^ 31"

definition rc_ok :: "fd_table \<Rightarrow> bool" where
  "rc_ok t \<longleftrightarrow> rc_inv t \<and> rlimit t \<le> 2 ^ 31"

lemma rlimit_kept [simp]:
  "rlimit (place n a ce t) = rlimit t" "rlimit (put_fd a n ce t) = rlimit t"
  "rlimit (snd (alloc_fd i fl p t)) = rlimit t" "rlimit (snd (close_fd fd t)) = rlimit t"
  "rlimit (exec_slot j t) = rlimit t" "rlimit (exec_cloexec t) = rlimit t"
proof -
  show p: "rlimit (place n a ce t) = rlimit t" for n a ce t by (simp add: place_def)
  show "rlimit (put_fd a n ce t) = rlimit t" by (simp add: put_fd_def Let_def split: option.split)
  show "rlimit (snd (alloc_fd i fl p t)) = rlimit t" by (simp add: alloc_fd_def Let_def p split: option.split)
  show "rlimit (snd (close_fd fd t)) = rlimit t" by (simp add: close_fd_def Let_def split: option.split)
  show e: "rlimit (exec_slot j t) = rlimit t" for j t by (simp add: exec_slot_def Let_def split: option.split)
  have "rlimit (fold exec_slot is t) = rlimit t" for "is" t by (induction "is" arbitrary: t) (simp_all add: e)
  then show "rlimit (exec_cloexec t) = rlimit t" by (simp add: exec_cloexec_def)
qed

interpretation fd_sys: invariant_system fd_start fd_step rc_ok
proof unfold_locales
  show "rc_ok t" if "fd_start t" for t
    using that by (simp add: fd_start_def rc_ok_def rc_inv_def)
  show "rc_ok t'" if inv: "rc_ok t" and step: "fd_step t t'" for t t'
    using step
  proof cases
    case (dup fd n)
    moreover have "rlimit t' = rlimit t"
      using dup by (auto simp: dup_fd_def Let_def split: if_splits option.splits)
    ultimately show ?thesis using inv rc_inv_dup by (auto simp: rc_ok_def)
  next
    case (dup2 a b)
    then show ?thesis
      using inv rc_inv_put [of t "nat a" _ "nat b" False] by (auto simp: rc_ok_def dup2_fd_def split: option.split)
  next
    case (dup3 a b ce)
    then show ?thesis
      using inv rc_inv_put [of t "nat a" _ "nat b" ce] by (auto simp: rc_ok_def dup3_fd_def split: option.split)
  next
    case (dupfd ce fd s r)
    then obtain a where "fd_get t (nat fd) = Some a" "t' = put_fd a (nat r) ce t" using dupfd_put by blast
    then show ?thesis using inv rc_inv_put [of t "nat fd" a "nat r" ce] dupfd by (simp add: rc_ok_def)
  next
    case (setfd fd arg)
    then show ?thesis using inv by (simp add: rc_ok_def fcntl_setfd_def Let_def rc_inv_def holds_def)
  qed (use inv rc_inv_alloc rc_inv_close rc_inv_exec in \<open>auto simp: rc_ok_def\<close>)
qed

section \<open>Properties\<close>

text \<open>
  C26. Lowest descriptor: after any sequence of opens, closes, duplications and descriptor
  flag changes on a fresh table, the hinted search of \<open>alloc\<close> and \<open>dup\<close> returns the lowest
  descriptor that is not in use, and fails exactly when that descriptor is not below the
  resource limit.
\<close>

theorem fd_alloc_lowest:
  assumes "next_free_fd t0 = 0" "Exec \<notin> set ops" "t = fold fd_apply ops t0"
  shows "fst (alloc_fd i fl p t) = (if lowest_free t < rlimit t then Some (int (lowest_free t)) else None) \<and>
    (0 \<le> fd \<and> fd_get t (nat fd) \<noteq> None \<longrightarrow>
      fst (dup_fd fd t) = (if lowest_free t < rlimit t then Some (int (lowest_free t)) else None))"
proof -
  have "hint_inv t" using assms fd_run_hint [of t0 ops] by (simp add: hint_inv_def)
  then show ?thesis by (auto simp: alloc_fd_def dup_fd_def find_slot_lowest Let_def)
qed

definition demo_table :: fd_table where
  "demo_table = \<lparr> entries = [], cloexec = [], next_free_fd = 0,
     descs = (\<lambda>_. file_description_new (inode_new 1 Regular) 0 None), next_desc = 0, rlimit = 64 \<rparr>"

definition demo_open :: "u32 \<Rightarrow> fd_op" where
  "demo_open fl = Alloc (inode_new 1 Regular) fl None"

lemmas demo_run = demo_table_def demo_open_def alloc_fd_def close_fd_def dup2_fd_def put_fd_def Let_def
  find_slot_def place_def fd_get_def ensure_len_def resize_def lowest_free_def first_free_from_def
  O_CLOEXEC_def add_rc_def drop_rc_def map_desc_def upt_rec exec_cloexec_def exec_slot_def

theorem fd_alloc_lowest_witness:
  "let t = fold fd_apply [demo_open 0, demo_open 0, demo_open 0, Close 1] demo_table
   in fst (alloc_fd (inode_new 2 Regular) 0 None t) = Some 1 \<and> fst (dup_fd 2 t) = Some 1"
  using fd_alloc_lowest [of demo_table "[demo_open 0, demo_open 0, demo_open 0, Close 1]" _ "inode_new 2 Regular" 0 None 2]
  by (simp add: demo_run)

text \<open>
  C8. Reference counts: after any sequence of opens, closes, successful \<open>dup\<close>, \<open>dup2\<close>,
  \<open>dup3\<close> and \<open>F_DUPFD\<close>, flag changes and \<open>execve\<close> close-on-exec passes, the count stored in every
  open file description is the number of descriptors of the table that refer to it.
\<close>

theorem fd_refcounts:
  assumes "reach fd_start fd_step t" "a < next_desc t"
  shows "ref_count (descs t a) = of_nat (count_list (entries t) (Some a))"
  using fd_sys.reach_inv [OF assms(1)] assms(2) by (simp add: rc_ok_def rc_inv_def holds_def)

lemma demo_reach: "reach fd_start fd_step (snd (dup2_fd 0 1 (snd (alloc_fd (inode_new 1 Regular) 0 None demo_table))))"
proof (rule reach_step [OF reach_step [OF reach_init]])
  show "fd_start demo_table" by (simp add: fd_start_def demo_table_def)
qed (rule fd_step.alloc fd_step.dup2)+

theorem fd_refcounts_witness:
  "ref_count (descs (snd (dup2_fd 0 1 (snd (alloc_fd (inode_new 1 Regular) 0 None demo_table)))) 0) = 2"
  using fd_refcounts [OF demo_reach, of 0] by (simp add: demo_run)

text \<open>
  A \<open>dup\<close> that fails because the table is full has already counted the new reference:
  the description keeps one reference more than the descriptors that hold it.
\<close>

theorem dup_leaks_reference:
  assumes "rc_inv t" "0 \<le> fd" "fd_get t (nat fd) = Some a" "find_slot t = None"
  shows "fst (dup_fd fd t) = None \<and>
    ref_count (descs (snd (dup_fd fd t)) a) = of_nat (holds (snd (dup_fd fd t)) a) + 1"
proof -
  have i: "nat fd < length (entries t)" "entries t ! nat fd = Some a"
    using assms(3) by (auto simp: fd_get_def split: if_splits)
  have "dup_fd fd t = (None, add_rc a t)" using assms(2-4) by (simp add: dup_fd_def Let_def)
  moreover have "ref_count (descs t a) = of_nat (holds t a)"
    using assms(1) holds_pos(1) [OF assms(1) i] by (simp add: rc_inv_def)
  ultimately show ?thesis by (simp add: holds_def)
qed

theorem dup_leaks_reference_witness:
  "let t = snd (alloc_fd (inode_new 1 Regular) 0 None (demo_table\<lparr> rlimit := 1 \<rparr>))
   in fst (dup_fd 0 t) = None \<and> holds (snd (dup_fd 0 t)) 0 = 1 \<and> ref_count (descs (snd (dup_fd 0 t)) 0) = 2"
proof -
  let ?t = "snd (alloc_fd (inode_new 1 Regular) 0 None (demo_table\<lparr> rlimit := 1 \<rparr>))"
  have "rc_inv (demo_table\<lparr> rlimit := 1 \<rparr>)" by (simp add: rc_inv_def demo_table_def)
  then have "rc_inv ?t" by (rule rc_inv_alloc) simp
  moreover have "fd_get ?t (nat 0) = Some 0" "find_slot ?t = None" by (simp_all add: demo_run)
  moreover have "holds (snd (dup_fd 0 ?t)) 0 = 1" by (simp add: dup_fd_def holds_def demo_run)
  ultimately show ?thesis using dup_leaks_reference [of ?t 0 0] by simp
qed

text \<open>
  The close-on-exec pass of \<open>execve\<close> empties slots without lowering the hint, so the
  next open may return a descriptor that is not the lowest free one: here descriptor 1 is
  free after the pass, yet descriptor 3 is returned.
\<close>

theorem exec_breaks_lowest:
  "let t = fold fd_apply [demo_open 0, demo_open O_CLOEXEC, demo_open 0, Dup2 0 4, Exec] demo_table
   in lowest_free t = 1 \<and> fst (alloc_fd (inode_new 2 Regular) 0 None t) = Some 3"
  by (simp add: demo_run)

text \<open>
  \<open>lseek\<close> never stores a negative position: on pipes and sockets it fails with
  \<open>ESPIPE\<close>, on any other failure with \<open>EINVAL\<close>, both without moving the offset; on
  success it returns the offset it has stored, which is non-negative as an \<open>i64\<close>.
\<close>

theorem seek_offset:
  "case fd_seek off whence d of
     (Inl e, d') \<Rightarrow> d' = d \<and> e = (if ftype (fd_inode d) \<in> {Pipe, Socket} then -29 else -22)
   | (Inr v, d') \<Rightarrow> d' = d\<lparr> offset := v \<rparr> \<and> 0 \<le> sint v \<and> whence \<in> {0, 1, 2}"
  by (auto simp: fd_seek_def Let_def split: option.split)

text \<open>
  \<open>dup2\<close> of the fixed-size table closes the target before it looks at the source:
  duplicating a descriptor onto itself closes it and fails.
\<close>

theorem fixed_dup2_self_closes:
  assumes "fixed_get t fd = Some a"
  shows "fst (fixed_dup2 fd fd t) = None \<and> fixed_get (snd (fixed_dup2 fd fd t)) fd = None"
  using assms by (auto simp: fixed_dup2_def fixed_close_def fixed_get_def Let_def split: if_splits)

theorem fixed_dup2_self_closes_witness:
  "let t = snd (fixed_alloc 7 (fixed_new (\<lambda>_. file_description_new (inode_new 1 Regular) 0 None)))
   in fixed_get t 0 = Some 7 \<and> fixed_get (snd (fixed_dup2 0 0 t)) 0 = None"
proof -
  let ?t = "snd (fixed_alloc 7 (fixed_new (\<lambda>_. file_description_new (inode_new 1 Regular) 0 None)))"
  have "fixed_get ?t 0 = Some 7"
    by (simp add: fixed_alloc_def fixed_new_def MAX_FDS_def fixed_get_def upt_rec)
  with fixed_dup2_self_closes [OF this] show ?thesis by simp
qed

end
