(* ===== verification/Locks.thy ===== *)
theory Locks
  imports Kernel_Prelude
begin

text \<open>
  The spinning locks of \<open>sync/mutex.rs\<close> and \<open>sync/spinlock.rs\<close> as interleavings of the
  atomic operations of the CPUs that use them, and the contract they share: a reachability
  invariant that allows at most one CPU in the critical section. Each CPU has a program
  counter; a step is one atomic access. The acquire and release orderings of the source make
  the critical sections happen in the order of these steps.
\<close>

section \<open>The contract of an exclusive lock\<close>

locale exclusive_lock = invariant_system init step inv
  for init :: "'s \<Rightarrow> bool" and step :: "'s \<Rightarrow> 's \<Rightarrow> bool" and inv :: "'s \<Rightarrow> bool" +
  fixes critical :: "'s \<Rightarrow> nat \<Rightarrow> bool"
  assumes one: "inv s \<Longrightarrow> critical s c \<Longrightarrow> critical s d \<Longrightarrow> c = d"
begin

lemma mutual_exclusion: "reach init step s \<Longrightarrow> critical s c \<Longrightarrow> critical s d \<Longrightarrow> c = d"
  using reach_inv one by blast

end

section \<open>\<open>KMutex\<close>\<close>

text \<open>Idle, spinning on the load, past a load that saw the lock free, inside.\<close>

datatype mutex_pc = MIdle | MSpin | MSaw | MCrit

record kmutex =
  locked :: bool
  mpc :: "nat \<Rightarrow> mutex_pc"

definition kmutex_new :: "kmutex \<Rightarrow> bool" where
  "kmutex_new s \<longleftrightarrow> \<not> locked s \<and> mpc s = (\<lambda>_. MIdle)"

definition mgoto :: "nat \<Rightarrow> mutex_pc \<Rightarrow> kmutex \<Rightarrow> kmutex" where
  "mgoto c p s = s\<lparr> mpc := (mpc s)(c := p) \<rparr>"

inductive kmutex_step :: "kmutex \<Rightarrow> kmutex \<Rightarrow> bool" where
  lock_call: "mpc s c = MIdle \<Longrightarrow> kmutex_step s (mgoto c MSpin s)"
| load_free: "mpc s c = MSpin \<Longrightarrow> \<not> locked s \<Longrightarrow> kmutex_step s (mgoto c MSaw s)"
| cas_ok: "mpc s c = MSaw \<Longrightarrow> \<not> locked s \<Longrightarrow> kmutex_step s (mgoto c MCrit (s\<lparr> locked := True \<rparr>))"
| cas_fail: "mpc s c = MSaw \<Longrightarrow> kmutex_step s (mgoto c MSpin s)"
| try_ok: "mpc s c = MIdle \<Longrightarrow> \<not> locked s \<Longrightarrow> kmutex_step s (mgoto c MCrit (s\<lparr> locked := True \<rparr>))"
| try_fail: "mpc s c = MIdle \<Longrightarrow> locked s \<Longrightarrow> kmutex_step s s"
| unlock: "mpc s c = MCrit \<Longrightarrow> kmutex_step s (mgoto c MIdle (s\<lparr> locked := False \<rparr>))"

definition kmutex_inv :: "kmutex \<Rightarrow> bool" where
  "kmutex_inv s \<longleftrightarrow> (\<forall>c. mpc s c = MCrit \<longrightarrow> locked s) \<and> (\<forall>c d. mpc s c = MCrit \<longrightarrow> mpc s d = MCrit \<longrightarrow> c = d)"

interpretation km: exclusive_lock kmutex_new kmutex_step kmutex_inv "\<lambda>s c. mpc s c = MCrit"
proof unfold_locales
  show "kmutex_inv s" if "kmutex_new s" for s
    using that by (simp add: kmutex_new_def kmutex_inv_def)
  show "kmutex_inv t" if "kmutex_inv s" "kmutex_step s t" for s t
    using that(2,1) by cases (auto simp: kmutex_inv_def mgoto_def split: if_splits)
  show "c = d" if "kmutex_inv s" "mpc s c = MCrit" "mpc s d = MCrit" for s c d
    using that by (auto simp: kmutex_inv_def)
qed

section \<open>\<open>TicketLock\<close>\<close>

text \<open>
  The steps of \<open>lock\<close>: spinning with a ticket, served but \<open>holding_cpu\<close> not yet stored, in
  the critical section. \<open>Rel\<close> is between the two stores of \<open>drop\<close>. The last two are the
  steps of \<open>try_lock\<close> after it saw the lock free.
\<close>

datatype ticket_pc = Idle | Spin u64 | Served | Crit | Rel | Try | TryCur u64

text \<open>
  \<open>queue\<close> and \<open>taken\<close> are history variables: the CPUs with an outstanding ticket in ticket
  order, and the number of tickets ever taken. \<open>holding\<close> is \<open>None\<close> for \<open>0xFFFFFFFF\<close>.
\<close>

record ticket_lock =
  next_ticket :: u64
  now_serving :: u64
  holding :: "nat option"
  tpc :: "nat \<Rightarrow> ticket_pc"
  queue :: "nat list"
  taken :: nat

definition ticket_new :: "ticket_lock \<Rightarrow> bool" where
  "ticket_new s \<longleftrightarrow> next_ticket s = 0 \<and> now_serving s = 0 \<and> holding s = None \<and>
     tpc s = (\<lambda>_. Idle) \<and> queue s = [] \<and> taken s = 0"

definition tgoto :: "nat \<Rightarrow> ticket_pc \<Rightarrow> ticket_lock \<Rightarrow> ticket_lock" where
  "tgoto c p s = s\<lparr> tpc := (tpc s)(c := p) \<rparr>"

definition take_ticket :: "nat \<Rightarrow> ticket_lock \<Rightarrow> ticket_lock" where
  "take_ticket c s = s\<lparr> next_ticket := next_ticket s + 1, queue := queue s @ [c], taken := taken s + 1 \<rparr>"

inductive ticket_step :: "ticket_lock \<Rightarrow> ticket_lock \<Rightarrow> bool" where
  lock_ticket: "tpc s c = Idle \<Longrightarrow> holding s \<noteq> Some c \<Longrightarrow>
    ticket_step s (tgoto c (Spin (next_ticket s)) (take_ticket c s))"
| lock_served: "tpc s c = Spin n \<Longrightarrow> now_serving s = n \<Longrightarrow> ticket_step s (tgoto c Served s)"
| lock_hold: "tpc s c = Served \<Longrightarrow> ticket_step s (tgoto c Crit (s\<lparr> holding := Some c \<rparr>))"
| drop_hold: "tpc s c = Crit \<Longrightarrow> ticket_step s (tgoto c Rel (s\<lparr> holding := None \<rparr>))"
| drop_serve: "tpc s c = Rel \<Longrightarrow>
    ticket_step s (tgoto c Idle (s\<lparr> now_serving := now_serving s + 1, queue := tl (queue s) \<rparr>))"
| force_unlock: "tpc s c = Crit \<Longrightarrow> holding s \<noteq> None \<Longrightarrow> ticket_step s (tgoto c Rel (s\<lparr> holding := None \<rparr>))"
| try_held: "tpc s c = Idle \<Longrightarrow> holding s \<noteq> None \<Longrightarrow> ticket_step s s"
| try_free: "tpc s c = Idle \<Longrightarrow> holding s = None \<Longrightarrow> ticket_step s (tgoto c Try s)"
| try_load: "tpc s c = Try \<Longrightarrow> ticket_step s (tgoto c (TryCur (now_serving s)) s)"
| try_cas: "tpc s c = TryCur cur \<Longrightarrow> next_ticket s = cur \<Longrightarrow>
    ticket_step s (tgoto c Served (take_ticket c s))"
| try_cas_fail: "tpc s c = TryCur cur \<Longrightarrow> next_ticket s \<noteq> cur \<Longrightarrow> ticket_step s (tgoto c Idle s)"

text \<open>Inside: from being served to the store that serves the next ticket.\<close>

definition inside :: "ticket_lock \<Rightarrow> nat \<Rightarrow> bool" where
  "inside s c \<longleftrightarrow> tpc s c \<in> {Served, Crit, Rel}"

definition has_ticket :: "ticket_lock \<Rightarrow> nat \<Rightarrow> bool" where
  "has_ticket s c \<longleftrightarrow> inside s c \<or> (\<exists>n. tpc s c = Spin n)"

definition ticket_inv :: "ticket_lock \<Rightarrow> bool" where
  "ticket_inv s \<longleftrightarrow>
     unat (next_ticket s) = taken s \<and> unat (now_serving s) + length (queue s) = taken s \<and>
     distinct (queue s) \<and> (\<forall>c. has_ticket s c \<longleftrightarrow> c \<in> set (queue s)) \<and>
     (\<forall>i n. i < length (queue s) \<longrightarrow> tpc s (queue s ! i) = Spin n \<longrightarrow> unat n = unat (now_serving s) + i) \<and>
     (\<forall>c. inside s c \<longrightarrow> queue s \<noteq> [] \<and> hd (queue s) = c) \<and>
     (\<forall>c. holding s = Some c \<longleftrightarrow> tpc s c = Crit) \<and>
     (\<forall>c cur. tpc s c = TryCur cur \<longrightarrow> unat cur \<le> unat (now_serving s))"

text \<open>The counters do not wrap as long as fewer than $2^{64}$ tickets were taken.\<close>

definition ticket_bounded :: "ticket_lock \<Rightarrow> bool" where
  "ticket_bounded s \<longleftrightarrow> (taken s < 2 ^ 64 \<longrightarrow> ticket_inv s)"

lemma unat_inc: "unat (w :: u64) < 2 ^ 64 - 1 \<Longrightarrow> unat (w + 1) = unat w + 1"
  by (subst unat_add_small) simp_all

lemma ticket_pc_simps [simp]:
  "tpc (tgoto c p s) = (tpc s)(c := p)" "next_ticket (tgoto c p s) = next_ticket s"
  "now_serving (tgoto c p s) = now_serving s" "holding (tgoto c p s) = holding s"
  "queue (tgoto c p s) = queue s" "taken (tgoto c p s) = taken s"
  "tpc (take_ticket c s) = tpc s" "next_ticket (take_ticket c s) = next_ticket s + 1"
  "now_serving (take_ticket c s) = now_serving s" "holding (take_ticket c s) = holding s"
  "queue (take_ticket c s) = queue s @ [c]" "taken (take_ticket c s) = taken s + 1"
  by (simp_all add: tgoto_def take_ticket_def)

lemma ticket_invD:
  assumes "ticket_inv s"
  shows "unat (next_ticket s) = taken s" "unat (now_serving s) + length (queue s) = taken s"
    "distinct (queue s)" "has_ticket s c \<longleftrightarrow> c \<in> set (queue s)"
    "i < length (queue s) \<Longrightarrow> tpc s (queue s ! i) = Spin n \<Longrightarrow> unat n = unat (now_serving s) + i"
    "inside s c \<Longrightarrow> queue s \<noteq> [] \<and> hd (queue s) = c"
    "holding s = Some c \<longleftrightarrow> tpc s c = Crit" "tpc s c = TryCur cur \<Longrightarrow> unat cur \<le> unat (now_serving s)"
  using assms by (auto simp: ticket_inv_def)

text \<open>A CPU without a ticket takes one.\<close>

lemma ticket_take_inv:
  assumes inv: "ticket_inv s" and c: "\<not> has_ticket s c" and b: "taken s + 1 < 2 ^ 64"
    and p: "p = Spin (next_ticket s) \<or> p = Served \<and> queue s = []"
  shows "ticket_inv (tgoto c p (take_ticket c s))"
proof -
  note i = ticket_invD [OF inv]
  have nx: "unat (next_ticket s + 1) = taken s + 1" using i(1) b by (subst unat_inc) simp_all
  have cq: "c \<notin> set (queue s)" using c i(4) by blast
  let ?t = "tgoto c p (take_ticket c s)"
  have ins: "inside ?t d \<longleftrightarrow> (if d = c then p = Served else inside s d)" for d
    using p by (auto simp: inside_def)
  have has: "has_ticket ?t d \<longleftrightarrow> d = c \<or> has_ticket s d" for d
    using p by (auto simp: has_ticket_def ins)
  have spin: "unat n = unat (now_serving s) + k"
    if "k < length (queue s) + 1" "((tpc s)(c := p)) ((queue s @ [c]) ! k) = Spin n" for k n
  proof (cases "k < length (queue s)")
    case True
    then have "queue s ! k \<noteq> c" using cq by (metis nth_mem)
    then show ?thesis using that True i(5) [of k n] by (simp add: nth_append)
  next
    case False
    then have "p = Spin n" "k = length (queue s)" using that by (simp_all add: nth_append)
    then show ?thesis using p i(1,2) by auto
  qed
  have "\<not> inside s c" "tpc s c \<noteq> Crit" using c by (auto simp: has_ticket_def inside_def)
  then show ?thesis
    unfolding ticket_inv_def
    using i(1-4,6-8) nx cq has ins spin p
    by (auto simp: hd_append)
qed

text \<open>A CPU with a ticket moves on without touching the counters.\<close>

lemma ticket_move_inv:
  assumes inv: "ticket_inv s" and c: "has_ticket s c" "p \<in> {Served, Crit, Rel}"
    and hd: "queue s \<noteq> [] \<and> hd (queue s) = c"
    and h: "h = (if p = Crit then Some c else if tpc s c = Crit then None else holding s)"
  shows "ticket_inv (tgoto c p (s\<lparr> holding := h \<rparr>))"
proof -
  note i = ticket_invD [OF inv]
  let ?t = "tgoto c p (s\<lparr> holding := h \<rparr>)"
  have ins: "inside ?t d \<longleftrightarrow> d = c \<or> inside s d" for d using c(2) by (auto simp: inside_def)
  have has: "has_ticket ?t d \<longleftrightarrow> has_ticket s d" for d using c by (auto simp: has_ticket_def ins)
  have other: "tpc s d \<noteq> Crit" if "d \<noteq> c" "p = Crit \<or> tpc s c = Crit" for d
    using i(6) [of d] hd that(1) by (auto simp: inside_def)
  have hold: "h = Some d \<longleftrightarrow> tpc ?t d = Crit" for d
    using h i(7) [of d] other [of d] c(2) by (auto split: if_splits)
  show ?thesis
    unfolding ticket_inv_def using i hd has ins hold c(2) by (auto split: if_splits)
qed

lemma ticket_release_inv:
  assumes inv: "ticket_inv s" and c: "tpc s c = Rel" and b: "taken s < 2 ^ 64"
  shows "ticket_inv (tgoto c Idle (s\<lparr> now_serving := now_serving s + 1, queue := tl (queue s) \<rparr>))"
proof -
  note i = ticket_invD [OF inv]
  have q: "queue s \<noteq> []" "hd (queue s) = c" using i(6) [of c] c by (auto simp: inside_def)
  then have qs: "queue s = c # tl (queue s)" by (metis list.collapse)
  have len: "Suc (unat (now_serving s) + (length (queue s) - Suc 0)) = taken s"
    using i(2) q(1) by (cases "queue s") auto
  then have sv: "unat (now_serving s + 1) = unat (now_serving s) + 1" using b by (subst unat_inc) simp_all
  let ?t = "tgoto c Idle (s\<lparr> now_serving := now_serving s + 1, queue := tl (queue s) \<rparr>)"
  have out: "\<not> inside s d" if "d \<noteq> c" for d using i(6) [of d] q that by auto
  have ins: "\<not> inside ?t d" for d using out [of d] by (auto simp: inside_def)
  have has: "has_ticket ?t d \<longleftrightarrow> d \<noteq> c \<and> has_ticket s d" for d
    using ins [of d] out [of d] by (auto simp: has_ticket_def)
  have "c \<notin> set (tl (queue s))" using i(3) qs by (metis distinct.simps(2))
  then have mem: "d \<in> set (tl (queue s)) \<longleftrightarrow> d \<noteq> c \<and> d \<in> set (queue s)" for d
    using qs by (metis set_ConsD list.set_intros(2))
  have spin: "unat n = unat (now_serving s) + 1 + k"
    if "k < length (tl (queue s))" "tpc ?t (tl (queue s) ! k) = Spin n" for k n
    using that i(5) [of "Suc k" n] by (auto simp: nth_tl split: if_splits)
  show ?thesis
    unfolding ticket_inv_def
    using i(1,3,4,7,8) len sv ins has mem spin c
    by (auto simp: distinct_tl le_SucI split: if_splits)
qed

lemma ticket_try_inv:
  assumes inv: "ticket_inv s" and c: "\<not> has_ticket s c" and p: "p = Idle \<or> p = Try \<or> p = TryCur (now_serving s)"
  shows "ticket_inv (tgoto c p s)"
proof -
  have ins: "inside (tgoto c p s) d \<longleftrightarrow> inside s d" for d
    using c p by (auto simp: inside_def has_ticket_def)
  have has: "has_ticket (tgoto c p s) d \<longleftrightarrow> has_ticket s d" for d
    using c p by (auto simp: has_ticket_def ins)
  show ?thesis
    using inv c p unfolding ticket_inv_def
    by (auto simp: has ins has_ticket_def inside_def split: if_splits)
qed

text \<open>The ticket being served belongs to the head of the queue.\<close>

lemma served_is_head:
  assumes i: "ticket_inv s" and c: "tpc s c = Spin n" "now_serving s = n"
  shows "queue s \<noteq> [] \<and> hd (queue s) = c"
proof -
  have "c \<in> set (queue s)" using c ticket_invD(4) [OF i, of c] by (auto simp: has_ticket_def)
  then obtain k where k: "k < length (queue s)" "queue s ! k = c" by (metis in_set_conv_nth)
  then have "k = 0" using ticket_invD(5) [OF i k(1), of n] c by simp
  then show ?thesis using k by (auto simp: hd_conv_nth)
qed

interpretation tlock: exclusive_lock ticket_new ticket_step ticket_bounded
  "\<lambda>s c. taken s < 2 ^ 64 \<and> inside s c"
proof unfold_locales
  show "ticket_bounded s" if "ticket_new s" for s
    using that by (simp add: ticket_new_def ticket_bounded_def ticket_inv_def has_ticket_def inside_def)
  show "c = d" if "ticket_bounded s" "taken s < 2 ^ 64 \<and> inside s c" "taken s < 2 ^ 64 \<and> inside s d" for s c d
    using that ticket_invD(6) [of s c] ticket_invD(6) [of s d] by (auto simp: ticket_bounded_def)
  show "ticket_bounded t" if inv: "ticket_bounded s" and step: "ticket_step s t" for s t
    unfolding ticket_bounded_def
  proof
    assume b: "taken t < 2 ^ 64"
    have "taken s \<le> taken t" using step by cases simp_all
    then have i: "ticket_inv s" and bs: "taken s < 2 ^ 64" using inv b by (auto simp: ticket_bounded_def)
    from step show "ticket_inv t"
    proof cases
      case (lock_ticket c)
      then have "\<not> has_ticket s c" by (auto simp: has_ticket_def inside_def)
      then show ?thesis using lock_ticket b by (auto intro: ticket_take_inv [OF i])
    next
      case (lock_served c n)
      then have "queue s \<noteq> [] \<and> hd (queue s) = c" using served_is_head [OF i] by blast
      then have "ticket_inv (tgoto c Served (s\<lparr> holding := holding s \<rparr>))"
        using lock_served by (intro ticket_move_inv [OF i]) (auto simp: has_ticket_def)
      then show ?thesis using lock_served by simp
    next
      case (lock_hold c)
      then show ?thesis
        using ticket_invD(6) [OF i, of c] by (auto intro!: ticket_move_inv [OF i] simp: has_ticket_def inside_def)
    next
      case (drop_hold c)
      then show ?thesis
        using ticket_invD(6) [OF i, of c] by (auto intro!: ticket_move_inv [OF i] simp: has_ticket_def inside_def)
    next
      case (force_unlock c)
      then show ?thesis
        using ticket_invD(6) [OF i, of c] by (auto intro!: ticket_move_inv [OF i] simp: has_ticket_def inside_def)
    next
      case (drop_serve c)
      then show ?thesis using ticket_release_inv [OF i _ bs] by simp
    next
      case (try_cas c cur)
      have "unat cur \<le> unat (now_serving s)" using ticket_invD(8) [OF i] try_cas by simp
      then have "taken s \<le> unat (now_serving s)" using ticket_invD(1) [OF i] try_cas by simp
      then have "length (queue s) = 0" using ticket_invD(2) [OF i] by linarith
      then have "queue s = []" by simp
      moreover have "\<not> has_ticket s c" using try_cas by (auto simp: has_ticket_def inside_def)
      ultimately show ?thesis using try_cas b by (auto intro: ticket_take_inv [OF i])
    qed (use i in \<open>auto intro!: ticket_try_inv simp: has_ticket_def inside_def\<close>)
  qed
qed

section \<open>Properties\<close>

text \<open>
  C13. Ticket lock: under every interleaving of \<open>lock\<close>, \<open>try_lock\<close>, guard drops and
  \<open>force_unlock\<close> by the holder, for any number of CPUs and up to $2^{64}$ acquisitions, at
  most one CPU is past the acquisition and not yet past the release; that CPU took its
  ticket before every other CPU with an outstanding ticket (FIFO), and \<open>holding_cpu\<close> names a
  CPU exactly while it is in the critical section.
\<close>

theorem ticket_lock_fifo_exclusive:
  assumes "reach ticket_new ticket_step s" "taken s < 2 ^ 64"
  shows "(\<forall>c d. inside s c \<and> inside s d \<longrightarrow> c = d) \<and>
    (\<forall>c. inside s c \<longrightarrow> queue s \<noteq> [] \<and> hd (queue s) = c) \<and> (\<forall>c. holding s = Some c \<longleftrightarrow> tpc s c = Crit)"
proof -
  have "ticket_inv s" using tlock.reach_inv [OF assms(1)] assms(2) by (simp add: ticket_bounded_def)
  then show ?thesis using tlock.mutual_exclusion [OF assms(1)] assms(2) ticket_invD(6,7) [of s] by blast
qed

definition demo_ticket :: ticket_lock where
  "demo_ticket = \<lparr> next_ticket = 0, now_serving = 0, holding = None, tpc = (\<lambda>_. Idle), queue = [], taken = 0 \<rparr>"

definition demo_ticket2 :: ticket_lock where
  "demo_ticket2 = tgoto 7 Served (tgoto 3 (Spin 1) (take_ticket 3 (tgoto 7 (Spin 0) (take_ticket 7 demo_ticket))))"

lemma demo_ticket_reach: "reach ticket_new ticket_step demo_ticket2"
proof -
  have 0: "reach ticket_new ticket_step demo_ticket"
    by (rule reach_init) (simp add: ticket_new_def demo_ticket_def)
  have 1: "ticket_step demo_ticket (tgoto 7 (Spin 0) (take_ticket 7 demo_ticket))"
    using ticket_step.lock_ticket [of demo_ticket 7] by (simp add: demo_ticket_def)
  have 2: "ticket_step (tgoto 7 (Spin 0) (take_ticket 7 demo_ticket))
      (tgoto 3 (Spin 1) (take_ticket 3 (tgoto 7 (Spin 0) (take_ticket 7 demo_ticket))))"
    using ticket_step.lock_ticket [of "tgoto 7 (Spin 0) (take_ticket 7 demo_ticket)" 3]
    by (simp add: demo_ticket_def take_ticket_def tgoto_def)
  have 3: "ticket_step (tgoto 3 (Spin 1) (take_ticket 3 (tgoto 7 (Spin 0) (take_ticket 7 demo_ticket)))) demo_ticket2"
    unfolding demo_ticket2_def by (rule ticket_step.lock_served) (simp_all add: demo_ticket_def)
  show ?thesis by (rule reach_step [OF reach_step [OF reach_step [OF 0 1] 2] 3])
qed

theorem ticket_lock_fifo_exclusive_witness:
  "inside demo_ticket2 7 \<and> queue demo_ticket2 = [7, 3] \<and> \<not> inside demo_ticket2 3"
proof -
  have "taken demo_ticket2 < 2 ^ 64" "inside demo_ticket2 7" "queue demo_ticket2 = [7, 3]"
    by (simp_all add: demo_ticket2_def demo_ticket_def inside_def)
  with ticket_lock_fifo_exclusive [OF demo_ticket_reach] show ?thesis by fastforce
qed

text \<open>
  Mutex: under every interleaving of \<open>lock\<close> (with spurious compare-exchange failures),
  \<open>try_lock\<close> and guard drops, at most one CPU is in the critical section, and the flag is set
  whenever one is.
\<close>

theorem kmutex_exclusive:
  assumes "reach kmutex_new kmutex_step s" "mpc s c = MCrit"
  shows "locked s \<and> (\<forall>d. mpc s d = MCrit \<longrightarrow> d = c)"
  using km.reach_inv [OF assms(1)] km.mutual_exclusion [OF assms(1)] assms(2) by (auto simp: kmutex_inv_def)

theorem kmutex_exclusive_witness:
  "let s = mgoto 5 MCrit (\<lparr> locked = True, mpc = (\<lambda>_. MIdle) \<rparr>)
   in reach kmutex_new kmutex_step s \<and> locked s \<and> (\<forall>d. mpc s d = MCrit \<longrightarrow> d = 5)"
proof -
  let ?i = "\<lparr> locked = False, mpc = (\<lambda>_. MIdle) \<rparr>" and ?s = "mgoto 5 MCrit (\<lparr> locked = True, mpc = (\<lambda>_. MIdle) \<rparr>)"
  have "reach kmutex_new kmutex_step ?i" by (rule reach_init) (simp add: kmutex_new_def)
  moreover have "kmutex_step ?i ?s" using kmutex_step.try_ok [of ?i 5] by simp
  ultimately have r: "reach kmutex_new kmutex_step ?s" by (rule reach_step)
  moreover have "mpc ?s 5 = MCrit" by (simp add: mgoto_def)
  ultimately show ?thesis using kmutex_exclusive [OF r, of 5] by simp
qed

end
