(* ===== verification/Rw_Lock.thy ===== *)
theory Rw_Lock
  imports Locks
begin

text \<open>
  The reader-writer lock of \<open>sync/rwlock.rs\<close> as interleavings of atomic operations. The
  state word counts the readers or is -1 for a writer; \<open>writer_pending\<close> holds new readers
  back. The word is an integer here and an \<open>AtomicI64\<close> in the code, which differs only from
  \<open>2 ^ 63\<close> readers on. The theory shows that a writer excludes readers and other writers, and that the
  pending flag does not protect a second waiting writer.
\<close>

section \<open>Model\<close>

text \<open>
  Readers: waiting, past the pending check, past the load of the state, reading. Writers:
  waiting with the flag set, past a load that saw the state free, writing, and between the
  two stores of the guard's drop.
\<close>

datatype rw_pc = RwIdle | RWant | RPassed | RLoaded int | RRead | WWant | WSaw | WWrite | WRel

record krwlock =
  rwstate :: int
  writer_pending :: bool
  rwpc :: "nat \<Rightarrow> rw_pc"

definition krwlock_new :: "krwlock \<Rightarrow> bool" where
  "krwlock_new s \<longleftrightarrow> rwstate s = 0 \<and> \<not> writer_pending s \<and> rwpc s = (\<lambda>_. RwIdle)"

definition rgoto :: "nat \<Rightarrow> rw_pc \<Rightarrow> krwlock \<Rightarrow> krwlock" where
  "rgoto c p s = s\<lparr> rwpc := (rwpc s)(c := p) \<rparr>"

inductive krwlock_step :: "krwlock \<Rightarrow> krwlock \<Rightarrow> bool" where
  read_call: "rwpc s c = RwIdle \<Longrightarrow> krwlock_step s (rgoto c RWant s)"
| read_pass: "rwpc s c = RWant \<Longrightarrow> \<not> writer_pending s \<Longrightarrow> krwlock_step s (rgoto c RPassed s)"
| read_load: "rwpc s c = RPassed \<Longrightarrow> krwlock_step s (rgoto c (RLoaded (rwstate s)) s)"
| read_busy: "rwpc s c = RLoaded n \<Longrightarrow> n < 0 \<Longrightarrow> krwlock_step s (rgoto c RWant s)"
| read_cas: "rwpc s c = RLoaded n \<Longrightarrow> n \<ge> 0 \<Longrightarrow> rwstate s = n \<Longrightarrow>
    krwlock_step s (rgoto c RRead (s\<lparr> rwstate := n + 1 \<rparr>))"
| read_cas_fail: "rwpc s c = RLoaded n \<Longrightarrow> n \<ge> 0 \<Longrightarrow> krwlock_step s (rgoto c RWant s)"
| read_drop: "rwpc s c = RRead \<Longrightarrow> krwlock_step s (rgoto c RwIdle (s\<lparr> rwstate := rwstate s - 1 \<rparr>))"
| write_call: "rwpc s c = RwIdle \<Longrightarrow> krwlock_step s (rgoto c WWant (s\<lparr> writer_pending := True \<rparr>))"
| write_load: "rwpc s c = WWant \<Longrightarrow> rwstate s = 0 \<Longrightarrow> krwlock_step s (rgoto c WSaw s)"
| write_cas: "rwpc s c = WSaw \<Longrightarrow> rwstate s = 0 \<Longrightarrow> krwlock_step s (rgoto c WWrite (s\<lparr> rwstate := -1 \<rparr>))"
| write_cas_fail: "rwpc s c = WSaw \<Longrightarrow> krwlock_step s (rgoto c WWant s)"
| write_release: "rwpc s c = WWrite \<Longrightarrow> krwlock_step s (rgoto c WRel (s\<lparr> rwstate := 0 \<rparr>))"
| write_clear: "rwpc s c = WRel \<Longrightarrow> krwlock_step s (rgoto c RwIdle (s\<lparr> writer_pending := False \<rparr>))"

section \<open>Exclusion\<close>

definition rw_readers :: "krwlock \<Rightarrow> nat set" where
  "rw_readers s = {c. rwpc s c = RRead}"

definition rw_inv :: "krwlock \<Rightarrow> bool" where
  "rw_inv s \<longleftrightarrow> finite (rw_readers s) \<and>
     (if rwstate s = -1 then \<exists>c. rwpc s c = WWrite \<and> (\<forall>d. rwpc s d = WWrite \<longrightarrow> d = c) \<and> rw_readers s = {}
      else rwstate s = int (card (rw_readers s)) \<and> (\<forall>d. rwpc s d \<noteq> WWrite))"

lemma rw_readers_goto:
  "rw_readers (rgoto c p s) = (if p = RRead then insert c (rw_readers s) else rw_readers s - {c})"
  by (auto simp: rw_readers_def rgoto_def)

lemma rw_state_readers [simp]:
  "rw_readers (s\<lparr> rwstate := x \<rparr>) = rw_readers s" "rw_readers (s\<lparr> writer_pending := y \<rparr>) = rw_readers s"
  "rwstate (rgoto c p s) = rwstate s" "rwpc (rgoto c p s) = (rwpc s)(c := p)"
  by (simp_all add: rw_readers_def rgoto_def)

text \<open>A CPU that neither reads nor writes moves to another such place.\<close>

lemma rw_move:
  assumes "rw_inv s" "rwpc s c \<notin> {RRead, WWrite}" "p \<notin> {RRead, WWrite}"
  shows "rw_inv (rgoto c p s)" "rw_inv (rgoto c p (s\<lparr> writer_pending := b \<rparr>))"
proof -
  have r: "rw_readers (rgoto c p s) = rw_readers s" "rw_readers (rgoto c p (s\<lparr> writer_pending := b \<rparr>)) = rw_readers s"
    using assms(2,3) by (auto simp: rw_readers_goto) (auto simp: rw_readers_def)
  show "rw_inv (rgoto c p s)" "rw_inv (rgoto c p (s\<lparr> writer_pending := b \<rparr>))"
    using assms by (auto simp: rw_inv_def r split: if_splits)
qed

interpretation rw: invariant_system krwlock_new krwlock_step rw_inv
proof unfold_locales
  show "rw_inv s" if "krwlock_new s" for s
    using that by (simp add: krwlock_new_def rw_inv_def rw_readers_def)
  show "rw_inv t" if inv: "rw_inv s" and step: "krwlock_step s t" for s t
    using step
  proof cases
    case (read_cas c n)
    then have "c \<notin> rw_readers s" "rwstate s \<noteq> -1" by (auto simp: rw_readers_def)
    then show ?thesis using read_cas inv by (auto simp: rw_inv_def rw_readers_goto)
  next
    case (read_drop c)
    then have c: "c \<in> rw_readers s" by (simp add: rw_readers_def)
    then have "rwstate s \<noteq> -1" "finite (rw_readers s)" using inv by (auto simp: rw_inv_def split: if_splits)
    moreover from this c have "int (card (rw_readers s - {c})) = int (card (rw_readers s)) - 1"
      by (simp add: card_Diff_singleton of_nat_diff card_gt_0_iff Suc_leI)
         (metis One_nat_def Suc_leI card_gt_0_iff empty_iff of_nat_1 of_nat_diff)
    ultimately show ?thesis using read_drop inv by (auto simp: rw_inv_def rw_readers_goto)
  next
    case (write_cas c)
    then have "rw_readers s = {}" using inv by (auto simp: rw_inv_def)
    then show ?thesis using write_cas inv by (auto simp: rw_inv_def rw_readers_goto)
  next
    case (write_release c)
    then have "rwstate s = -1" "rw_readers s = {}" using inv by (auto simp: rw_inv_def split: if_splits)
    then show ?thesis using write_release inv by (auto simp: rw_inv_def rw_readers_goto split: if_splits)
  qed (use inv rw_move in auto)
qed

interpretation rww: exclusive_lock krwlock_new krwlock_step rw_inv "\<lambda>s c. rwpc s c = WWrite"
  by unfold_locales (auto simp: rw_inv_def split: if_splits)

section \<open>Properties\<close>

text \<open>
  C12. Reader-writer lock: under every interleaving, a CPU that holds the write lock is the
  only writer and there is no reader; without a writer the state word is the number of
  readers.
\<close>

theorem rwlock_exclusion:
  assumes "reach krwlock_new krwlock_step s"
  shows "(\<forall>c d. rwpc s c = WWrite \<longrightarrow> rwpc s d \<noteq> RRead \<and> (rwpc s d = WWrite \<longrightarrow> d = c)) \<and>
    ((\<forall>c. rwpc s c \<noteq> WWrite) \<longrightarrow> rwstate s = int (card {c. rwpc s c = RRead}))"
proof -
  have "rw_inv s" by (rule rw.reach_inv [OF assms])
  then show ?thesis
    using rww.mutual_exclusion [OF assms] by (auto simp: rw_inv_def rw_readers_def split: if_splits)
qed

text \<open>A run: CPU 1 writes, CPU 2 starts to wait for the write lock, CPU 1 releases.\<close>

definition demo_rw0 :: krwlock where
  "demo_rw0 = \<lparr> rwstate = 0, writer_pending = False, rwpc = (\<lambda>_. RwIdle) \<rparr>"

definition demo_rw1 :: krwlock where
  "demo_rw1 = \<lparr> rwstate = -1, writer_pending = True, rwpc = (\<lambda>_. RwIdle)(1 := WWrite) \<rparr>"

definition demo_rw2 :: krwlock where
  "demo_rw2 = \<lparr> rwstate = 0, writer_pending = False, rwpc = (\<lambda>_. RwIdle)(2 := WWant) \<rparr>"

definition demo_rw3 :: krwlock where
  "demo_rw3 = \<lparr> rwstate = 1, writer_pending = False, rwpc = (\<lambda>_. RwIdle)(2 := WWant, 3 := RRead) \<rparr>"

lemma demo_rw1_steps: "krwlock_step\<^sup>*\<^sup>* demo_rw0 demo_rw1"
proof -
  let ?a = "demo_rw0\<lparr> writer_pending := True, rwpc := (\<lambda>_. RwIdle)(1 := WWant) \<rparr>"
  let ?b = "demo_rw0\<lparr> writer_pending := True, rwpc := (\<lambda>_. RwIdle)(1 := WSaw) \<rparr>"
  have "krwlock_step demo_rw0 ?a"
    using krwlock_step.write_call [of demo_rw0 1] by (simp add: demo_rw0_def rgoto_def)
  moreover have "krwlock_step ?a ?b"
    using krwlock_step.write_load [of ?a 1] by (simp add: demo_rw0_def rgoto_def)
  moreover have "krwlock_step ?b demo_rw1"
    using krwlock_step.write_cas [of ?b 1] by (simp add: demo_rw0_def demo_rw1_def rgoto_def)
  ultimately show ?thesis by auto
qed

lemma demo_rw2_steps: "krwlock_step\<^sup>*\<^sup>* demo_rw1 demo_rw2"
proof -
  let ?a = "demo_rw1\<lparr> rwpc := (\<lambda>_. RwIdle)(1 := WWrite, 2 := WWant) \<rparr>"
  let ?b = "?a\<lparr> rwstate := 0, rwpc := (\<lambda>_. RwIdle)(1 := WRel, 2 := WWant) \<rparr>"
  have "krwlock_step demo_rw1 ?a"
    using krwlock_step.write_call [of demo_rw1 2] by (simp add: demo_rw1_def rgoto_def)
  moreover have b: "rgoto 1 WRel (?a\<lparr> rwstate := 0 \<rparr>) = ?b" by (simp add: demo_rw1_def rgoto_def fun_eq_iff)
  have "krwlock_step ?a ?b"
    using krwlock_step.write_release [of ?a 1] unfolding b by (simp add: demo_rw1_def)
  moreover have c: "rgoto 1 RwIdle (?b\<lparr> writer_pending := False \<rparr>) = demo_rw2"
    by (simp add: demo_rw1_def demo_rw2_def rgoto_def fun_eq_iff)
  have "krwlock_step ?b demo_rw2"
    using krwlock_step.write_clear [of ?b 1] unfolding c by (simp add: demo_rw1_def)
  ultimately show ?thesis by auto
qed

lemma demo_rw3_steps: "krwlock_step\<^sup>*\<^sup>* demo_rw2 demo_rw3"
proof -
  let ?p = "\<lambda>p. demo_rw2\<lparr> rwpc := (\<lambda>_. RwIdle)(2 := WWant, 3 := p) \<rparr>"
  have "krwlock_step demo_rw2 (?p RWant)"
    using krwlock_step.read_call [of demo_rw2 3] by (simp add: demo_rw2_def rgoto_def)
  moreover have "krwlock_step (?p RWant) (?p RPassed)"
    using krwlock_step.read_pass [of "?p RWant" 3] by (simp add: demo_rw2_def rgoto_def)
  moreover have "krwlock_step (?p RPassed) (?p (RLoaded 0))"
    using krwlock_step.read_load [of "?p RPassed" 3] by (simp add: demo_rw2_def rgoto_def)
  moreover have "krwlock_step (?p (RLoaded 0)) demo_rw3"
    using krwlock_step.read_cas [of "?p (RLoaded 0)" 3 0] by (simp add: demo_rw2_def demo_rw3_def rgoto_def)
  ultimately show ?thesis by auto
qed

lemma demo_rw_reach: "reach krwlock_new krwlock_step demo_rw1"
  by (rule reach_steps [OF reach_init demo_rw1_steps]) (simp add: krwlock_new_def demo_rw0_def)

theorem rwlock_exclusion_witness:
  "reach krwlock_new krwlock_step demo_rw1 \<and> rwpc demo_rw1 1 = WWrite \<and> (\<forall>d. rwpc demo_rw1 d \<noteq> RRead)"
proof -
  have "rwpc demo_rw1 1 = WWrite" by (simp add: demo_rw1_def)
  then show ?thesis using rwlock_exclusion [OF demo_rw_reach] demo_rw_reach by blast
qed

text \<open>
  C39. The pending flag is shared by all writers: when a writer releases the lock it clears
  the flag although a second writer is waiting, and from that state a new reader enters, so
  the waiting writer is overtaken by readers that arrived after it.
\<close>

theorem waiting_writer_overtaken:
  "reach krwlock_new krwlock_step demo_rw2 \<and> rwpc demo_rw2 2 = WWant \<and> \<not> writer_pending demo_rw2 \<and>
   rwpc demo_rw2 3 = RwIdle \<and> krwlock_step\<^sup>*\<^sup>* demo_rw2 demo_rw3 \<and> rwpc demo_rw3 3 = RRead \<and> rwpc demo_rw3 2 = WWant"
  using reach_steps [OF demo_rw_reach demo_rw2_steps] demo_rw3_steps
  by (simp add: demo_rw2_def demo_rw3_def)

end
