(* ===== verification/Wait_Queue.thy ===== *)
theory Wait_Queue
  imports Kernel_Prelude
begin

text \<open>
  Wait queues (\<open>sync/wait_queue.rs\<close>). The first part models the queue as a data structure:
  the waiting tasks, the attached listener queues, the counter \<open>waiter_count\<close> of the
  lock-free fast path, and the wakeup that propagates to listeners. The second part models
  \<open>VforkCompletion\<close> on one queue as interleavings of the waiting parent and the completing
  child, and shows which wakeups can be lost.
\<close>

section \<open>The data structure\<close>

datatype task_state = Ready | Running | Blocked | Zombie

record wait_queue =
  pids :: "nat list"
  listeners :: "nat list"  \<comment> \<open>weak references: addresses of queues\<close>
  waiter_count :: nat
  sequence :: u64

definition wait_queue_new :: wait_queue where
  "wait_queue_new = \<lparr> pids = [], listeners = [], waiter_count = 0, sequence = 0 \<rparr>"

text \<open>The queues by address, which of them are still alive, and the task states.\<close>

record wq_state =
  wqs :: "nat \<Rightarrow> wait_queue"
  alive :: "nat \<Rightarrow> bool"
  tstate :: "nat \<Rightarrow> task_state"

definition upd_wq :: "nat \<Rightarrow> (wait_queue \<Rightarrow> wait_queue) \<Rightarrow> wq_state \<Rightarrow> wq_state" where
  "upd_wq q f s = s\<lparr> wqs := (wqs s)(q := f (wqs s q)) \<rparr>"

definition wq_token :: "nat \<Rightarrow> wq_state \<Rightarrow> u64" where
  "wq_token q s = sequence (wqs s q)"

definition add_listener :: "nat \<Rightarrow> nat \<Rightarrow> wq_state \<Rightarrow> wq_state" where
  "add_listener q l s =
     (if l \<in> set (listeners (wqs s q)) then s
      else upd_wq q (\<lambda>w. w\<lparr> waiter_count := waiter_count w + 1, listeners := listeners w @ [l] \<rparr>) s)"

definition remove_listener :: "nat \<Rightarrow> nat \<Rightarrow> wq_state \<Rightarrow> wq_state" where
  "remove_listener q l s =
     upd_wq q (\<lambda>w. let list = filter (\<lambda>x. alive s x \<and> x \<noteq> l) (listeners w);
                       removed = length (listeners w) - length list
                   in w\<lparr> listeners := list, waiter_count := waiter_count w - removed \<rparr>) s"

definition wq_register :: "nat \<Rightarrow> nat \<Rightarrow> wq_state \<Rightarrow> wq_state" where
  "wq_register q pid = upd_wq q (\<lambda>w. w\<lparr> waiter_count := waiter_count w + 1, pids := pids w @ [pid] \<rparr>)"

definition wq_remove :: "nat \<Rightarrow> nat \<Rightarrow> wq_state \<Rightarrow> wq_state" where
  "wq_remove q pid =
     upd_wq q (\<lambda>w. let ps = filter (\<lambda>x. x \<noteq> pid) (pids w); removed = length (pids w) - length ps
                   in w\<lparr> pids := ps, waiter_count := waiter_count w - removed \<rparr>)"

text \<open>\<open>Scheduler::wake_task\<close>, as far as the task state goes.\<close>

definition wake_task :: "nat \<Rightarrow> wq_state \<Rightarrow> wq_state" where
  "wake_task pid s = (if tstate s pid = Blocked then s\<lparr> tstate := (tstate s)(pid := Ready) \<rparr> else s)"

text \<open>
  \<open>wake_all_locked\<close>: bump the sequence, wake and drop every waiter, then propagate to the
  listeners that are alive and drop the dead ones. The recursion through listeners has
  fuel; \<open>None\<close> means it ran out.
\<close>

fun wake_all_locked :: "nat \<Rightarrow> nat \<Rightarrow> wq_state \<Rightarrow> wq_state option"
  and wake_listeners :: "nat \<Rightarrow> nat list \<Rightarrow> wq_state \<Rightarrow> wq_state option" where
  "wake_all_locked 0 q s = None"
| "wake_all_locked (Suc n) q s =
     (let w = wqs s q;
          s1 = upd_wq q (\<lambda>w. w\<lparr> sequence := sequence w + 1, pids := [],
                                waiter_count := waiter_count w - length (pids w) \<rparr>) (fold wake_task (pids w) s);
          live = filter (alive s1) (listeners w);
          dead = length (listeners w) - length live
      in case wake_listeners n live s1 of
           None \<Rightarrow> None
         | Some s2 \<Rightarrow>
             Some (upd_wq q (\<lambda>w. w\<lparr> listeners := live, waiter_count := waiter_count w - dead \<rparr>) s2))"
| "wake_listeners n [] s = Some s"
| "wake_listeners n (l # ls) s =
     (case wake_all_locked n l s of None \<Rightarrow> None | Some s' \<Rightarrow> wake_listeners n ls s')"

definition wq_inv :: "wq_state \<Rightarrow> bool" where
  "wq_inv s \<longleftrightarrow> (\<forall>q. waiter_count (wqs s q) = length (pids (wqs s q)) + length (listeners (wqs s q)))"

lemma wq_inv_upd:
  assumes "wq_inv s" "waiter_count (f (wqs s q)) = length (pids (f (wqs s q))) + length (listeners (f (wqs s q)))"
  shows "wq_inv (upd_wq q f s)"
  using assms by (simp add: wq_inv_def upd_wq_def)

lemma wq_inv_simple:
  assumes "wq_inv s"
  shows "wq_inv (add_listener q l s)" "wq_inv (remove_listener q l s)" "wq_inv (wq_register q p s)" "wq_inv (wq_remove q p s)"
proof -
  have i: "waiter_count (wqs s q) = length (pids (wqs s q)) + length (listeners (wqs s q))"
    using assms by (simp add: wq_inv_def)
  have le: "length (filter P xs) \<le> length xs" for P :: "nat \<Rightarrow> bool" and xs by (rule length_filter_le)
  show "wq_inv (add_listener q l s)" "wq_inv (remove_listener q l s)" "wq_inv (wq_register q p s)" "wq_inv (wq_remove q p s)"
    using i assms le by (auto simp: add_listener_def remove_listener_def wq_register_def wq_remove_def Let_def
        intro!: wq_inv_upd)
qed

subsection \<open>The wakeup\<close>

text \<open>Listener chains are well founded: a rank decreases from a queue to its listeners.\<close>

definition ranked :: "(nat \<Rightarrow> nat) \<Rightarrow> wq_state \<Rightarrow> bool" where
  "ranked rk s \<longleftrightarrow> (\<forall>q. \<forall>l \<in> set (listeners (wqs s q)). rk l < rk q)"

text \<open>What a wakeup of queues below rank \<open>b\<close> may change.\<close>

definition wakes :: "(nat \<Rightarrow> nat) \<Rightarrow> nat \<Rightarrow> wq_state \<Rightarrow> wq_state \<Rightarrow> bool" where
  "wakes rk b s s' \<longleftrightarrow>
     wq_inv s' \<and> ranked rk s' \<and> alive s' = alive s \<and> (\<forall>q. b \<le> rk q \<longrightarrow> wqs s' q = wqs s q) \<and>
     (\<forall>p. tstate s p \<noteq> Blocked \<longrightarrow> tstate s' p = tstate s p) \<and>
     (\<forall>p. tstate s' p = tstate s p \<or> tstate s' p = Ready) \<and>
     (\<forall>q. pids (wqs s' q) = pids (wqs s q) \<or> pids (wqs s' q) = [])"

lemma wakes_refl: "wq_inv s \<Longrightarrow> ranked rk s \<Longrightarrow> wakes rk b s s"
  by (simp add: wakes_def)

lemma wakes_trans: "wakes rk b s t \<Longrightarrow> wakes rk b t u \<Longrightarrow> wakes rk b s u"
  unfolding wakes_def by (metis (full_types) task_state.distinct(3))

lemma wakes_mono: "wakes rk b s t \<Longrightarrow> b \<le> b' \<Longrightarrow> wakes rk b' s t"
  unfolding wakes_def by (metis order_trans)

lemma fold_wake_task:
  "wqs (fold wake_task ps s) = wqs s" "alive (fold wake_task ps s) = alive s"
  "tstate (fold wake_task ps s) p = (if p \<in> set ps \<and> tstate s p = Blocked then Ready else tstate s p)"
proof -
  show "wqs (fold wake_task ps s) = wqs s" "alive (fold wake_task ps s) = alive s"
    by (induction ps arbitrary: s) (simp_all add: wake_task_def)
  show "tstate (fold wake_task ps s) p = (if p \<in> set ps \<and> tstate s p = Blocked then Ready else tstate s p)"
    by (induction ps arbitrary: s) (auto simp: wake_task_def)
qed

lemma wake_listeners_ok:
  assumes one: "\<And>q s. wq_inv s \<Longrightarrow> ranked rk s \<Longrightarrow> rk q < n \<Longrightarrow> \<exists>s'. wake_all_locked n q s = Some s' \<and> wakes rk (rk q + 1) s s'"
    and "wq_inv s" "ranked rk s" "\<forall>l \<in> set ls. rk l < b" "b \<le> n"
  shows "\<exists>s'. wake_listeners n ls s = Some s' \<and> wakes rk b s s'"
  using assms(2-4)
proof (induction ls arbitrary: s)
  case (Cons l ls)
  obtain s1 where s1: "wake_all_locked n l s = Some s1" "wakes rk (rk l + 1) s s1"
    using one [OF Cons.prems(1,2), of l] Cons.prems(3) assms(5) by auto
  then have "wakes rk b s s1" using Cons.prems(3) wakes_mono [of rk "rk l + 1" s s1 b] by simp
  moreover obtain s2 where "wake_listeners n ls s1 = Some s2" "wakes rk b s1 s2"
    using Cons.IH [of s1] Cons.prems s1(2) by (auto simp: wakes_def)
  ultimately show ?case using s1 wakes_trans by auto
qed (simp add: wakes_refl)

lemma wake_all_ok:
  assumes "wq_inv s" "ranked rk s" "rk q < n"
  shows "\<exists>s'. wake_all_locked n q s = Some s' \<and> wakes rk (rk q + 1) s s' \<and> pids (wqs s' q) = [] \<and>
    (\<forall>p \<in> set (pids (wqs s q)). tstate s' p \<noteq> Blocked) \<and>
    listeners (wqs s' q) = filter (alive s) (listeners (wqs s q))"
  using assms
proof (induction n arbitrary: q s)
  case (Suc n)
  let ?w = "wqs s q"
  define s1 where "s1 = upd_wq q (\<lambda>w. w\<lparr> sequence := sequence w + 1, pids := [],
      waiter_count := waiter_count w - length (pids w) \<rparr>) (fold wake_task (pids ?w) s)"
  let ?live = "filter (alive s1) (listeners ?w)"
  have w1: "wqs s1 = (wqs s)(q := ?w\<lparr> sequence := sequence ?w + 1, pids := [], waiter_count := waiter_count ?w - length (pids ?w) \<rparr>)"
    "alive s1 = alive s"
    "\<And>p. tstate s1 p = (if p \<in> set (pids ?w) \<and> tstate s p = Blocked then Ready else tstate s p)"
    by (simp_all add: s1_def upd_wq_def fold_wake_task)
  have i1: "wq_inv s1" "ranked rk s1"
    using Suc.prems(1,2) by (auto simp: w1 wq_inv_def ranked_def)
  have sub: "\<forall>l \<in> set ?live. rk l < rk q" using Suc.prems(2) by (auto simp: ranked_def)
  obtain s2 where s2: "wake_listeners n ?live s1 = Some s2" "wakes rk (rk q) s1 s2"
    using wake_listeners_ok [OF _ i1 sub, of n] Suc.IH Suc.prems(3) by (metis (no_types, lifting) less_Suc_eq_le)
  define s3 where "s3 = upd_wq q (\<lambda>w. w\<lparr> listeners := ?live,
      waiter_count := waiter_count w - (length (listeners ?w) - length ?live) \<rparr>) s2"
  have q2: "wqs s2 q = wqs s1 q" using s2(2) by (simp add: wakes_def)
  have r: "wake_all_locked (Suc n) q s = Some s3"
    using s2(1) by (simp add: Let_def s1_def [symmetric] s3_def)
  have "wq_inv s3"
    unfolding s3_def using s2(2) Suc.prems(1) length_filter_le [of "alive s" "listeners ?w"]
    by (intro wq_inv_upd) (auto simp: wakes_def q2 w1 wq_inv_def)
  moreover have "ranked rk s3"
    using s2(2) sub by (auto simp: s3_def upd_wq_def wakes_def ranked_def)
  moreover have "\<forall>x. rk q + 1 \<le> rk x \<longrightarrow> wqs s3 x = wqs s x"
    using s2(2) by (auto simp: s3_def upd_wq_def wakes_def w1)
  moreover have "pids (wqs s3 x) = pids (wqs s x) \<or> pids (wqs s3 x) = []" for x
    using s2(2) w1(1) by (auto simp: s3_def upd_wq_def wakes_def q2 split: if_splits)
  moreover have "tstate s p \<noteq> Blocked \<longrightarrow> tstate s3 p = tstate s p"
    "tstate s3 p = tstate s p \<or> tstate s3 p = Ready"
    "p \<in> set (pids ?w) \<longrightarrow> tstate s3 p \<noteq> Blocked" for p
    using s2(2) w1(3) [of p] by (auto simp: s3_def upd_wq_def wakes_def) metis+
  ultimately show ?case
    using r s2(2) q2 by (auto simp: wakes_def w1 s3_def upd_wq_def)
qed simp

text \<open>
  C21. A wakeup of a queue returns, whatever listeners are attached, as long as the listener
  graph has no cycle (the fuel is any bound above the queue's rank). It empties the queue,
  leaves none of its tasks blocked, changes no task that was not blocked, drops exactly the
  dead listeners, and keeps \<open>waiter_count\<close> equal to the number of waiters and listeners on
  every queue.
\<close>

theorem wake_all_wakes:
  assumes "wq_inv s" "ranked rk s" "rk q < n"
  shows "\<exists>s'. wake_all_locked n q s = Some s' \<and> wq_inv s' \<and> pids (wqs s' q) = [] \<and>
    (\<forall>p \<in> set (pids (wqs s q)). tstate s' p \<noteq> Blocked) \<and>
    (\<forall>p. tstate s p \<noteq> Blocked \<longrightarrow> tstate s' p = tstate s p) \<and>
    listeners (wqs s' q) = filter (alive s) (listeners (wqs s q))"
  using wake_all_ok [OF assms] by (auto simp: wakes_def)

text \<open>A pipe queue with a blocked reader (task 7), an epoll queue attached and a dead listener.\<close>

definition wq_sample :: wq_state where
  "wq_sample = wq_register 0 7 (upd_wq 0 (\<lambda>w. w\<lparr> listeners := [1, 2], waiter_count := 2 \<rparr>)
     \<lparr> wqs = \<lambda>_. wait_queue_new, alive = \<lambda>q. q < 2, tstate = \<lambda>p. if p = 7 then Blocked else Running \<rparr>)"

theorem wake_all_wakes_witness:
  "wq_inv wq_sample \<and> ranked (\<lambda>q. if q = 0 then 1 else 0) wq_sample \<and>
   (\<exists>s'. wake_all_locked 2 0 wq_sample = Some s' \<and> pids (wqs s' 0) = [] \<and> tstate s' 7 \<noteq> Blocked \<and>
      listeners (wqs s' 0) = [1])"
proof -
  have i: "wq_inv wq_sample" "ranked (\<lambda>q. if q = 0 then 1 else 0) wq_sample"
    by (auto simp: wq_sample_def wq_inv_def ranked_def upd_wq_def wq_register_def wait_queue_new_def)
  show ?thesis
    using wake_all_wakes [OF i, of 0 2] i
    by (auto simp: wq_sample_def upd_wq_def wq_register_def wait_queue_new_def)
qed

section \<open>VforkCompletion\<close>

text \<open>
  The parent of a vfork waits on the completion, the child completes it. The queue has
  address 0 and no listeners. Every atomic access is a step; \<open>sched_lock\<close> is the global
  \<open>SCHEDULER\<close> lock.
\<close>

datatype actor = Parent | Child

datatype ppc = PHead | PTok | PCheck | PLock | PSeq | PState | PCount | PPush | PVerify | PSleep | PRemove | PDone

datatype cpc = CStart | CStore | CSeq | CLoad | CLock | CWake | CRel | CDone

record vfork =
  completed :: bool
  vq :: wq_state
  sched_lock :: "actor option"
  signal_pending :: bool
  ppc :: ppc
  ptok :: u64
  cpc :: cpc

definition parent_pid :: nat where
  "parent_pid = 1"

definition vfork_new :: vfork where
  "vfork_new = \<lparr> completed = False,
     vq = \<lparr> wqs = \<lambda>_. wait_queue_new, alive = \<lambda>_. True, tstate = \<lambda>_. Running \<rparr>,
     sched_lock = None, signal_pending = False, ppc = PHead, ptok = 0, cpc = CStart \<rparr>"

definition set_pstate :: "task_state \<Rightarrow> vfork \<Rightarrow> vfork" where
  "set_pstate st v = v\<lparr> vq := (vq v)\<lparr> tstate := (tstate (vq v))(parent_pid := st) \<rparr> \<rparr>"

abbreviation pstate :: "vfork \<Rightarrow> task_state" where
  "pstate v \<equiv> tstate (vq v) parent_pid"

text \<open>
  One step of the parent in \<open>VforkCompletion::wait\<close> and \<open>WaitQueue::wait_since\<close>; \<open>None\<close> when it
  has to wait, for the lock or, asleep, for its state to leave \<open>Blocked\<close>.
\<close>

fun wait_step :: "vfork \<Rightarrow> vfork option" where
  "wait_step v = (case ppc v of
     PHead \<Rightarrow> Some (v\<lparr> ppc := if completed v then PDone else PTok \<rparr>)
   | PTok \<Rightarrow> Some (v\<lparr> ptok := wq_token 0 (vq v), ppc := PCheck \<rparr>)
   | PCheck \<Rightarrow> Some (v\<lparr> ppc := if completed v then PDone else PLock \<rparr>)
   | PLock \<Rightarrow> (if sched_lock v = None then Some (v\<lparr> sched_lock := Some Parent, ppc := PSeq \<rparr>) else None)
   | PSeq \<Rightarrow> Some (if wq_token 0 (vq v) \<noteq> ptok v then v\<lparr> sched_lock := None, ppc := PHead \<rparr>
                   else v\<lparr> ppc := PState \<rparr>)
   | PState \<Rightarrow> Some (if signal_pending v then v\<lparr> sched_lock := None, ppc := PHead \<rparr>
                     else set_pstate Blocked v\<lparr> ppc := PCount \<rparr>)
   | PCount \<Rightarrow> Some (v\<lparr> vq := upd_wq 0 (\<lambda>w. w\<lparr> waiter_count := waiter_count w + 1 \<rparr>) (vq v), ppc := PPush \<rparr>)
   | PPush \<Rightarrow> Some (v\<lparr> vq := upd_wq 0 (\<lambda>w. w\<lparr> pids := pids w @ [parent_pid] \<rparr>) (vq v),
                       sched_lock := None, ppc := PVerify \<rparr>)
   | PVerify \<Rightarrow> Some (if pstate v \<noteq> Blocked then set_pstate Running v\<lparr> ppc := PRemove \<rparr> else v\<lparr> ppc := PSleep \<rparr>)
   | PSleep \<Rightarrow> (if pstate v = Blocked then None else Some (set_pstate Running v\<lparr> ppc := PRemove \<rparr>))
   | PRemove \<Rightarrow> Some (v\<lparr> vq := wq_remove 0 parent_pid (vq v), ppc := PHead \<rparr>)
   | PDone \<Rightarrow> None)"

definition wake_queue :: "vfork \<Rightarrow> vfork option" where
  "wake_queue v = map_option (\<lambda>q. v\<lparr> vq := q \<rparr>) (wake_all_locked 1 0 (vq v))"

text \<open>The child in \<open>complete\<close>, which calls \<open>wake_all\<close> with its lock-free test of \<open>waiter_count\<close>.\<close>

fun complete_step :: "vfork \<Rightarrow> vfork option" where
  "complete_step v = (case cpc v of
     CStart \<Rightarrow> Some (v\<lparr> cpc := CStore \<rparr>)
   | CStore \<Rightarrow> Some (v\<lparr> completed := True, cpc := CSeq \<rparr>)
   | CSeq \<Rightarrow> Some (v\<lparr> vq := upd_wq 0 (\<lambda>w. w\<lparr> sequence := sequence w + 1 \<rparr>) (vq v), cpc := CLoad \<rparr>)
   | CLoad \<Rightarrow> Some (v\<lparr> cpc := if waiter_count (wqs (vq v) 0) = 0 then CDone else CLock \<rparr>)
   | CLock \<Rightarrow> (if sched_lock v = None then Some (v\<lparr> sched_lock := Some Child, cpc := CWake \<rparr>) else None)
   | CWake \<Rightarrow> map_option (\<lambda>v. v\<lparr> cpc := CRel \<rparr>) (wake_queue v)
   | CRel \<Rightarrow> Some (v\<lparr> sched_lock := None, cpc := CDone \<rparr>)
   | CDone \<Rightarrow> None)"

text \<open>The child in \<open>complete_locked\<close>, called with the scheduler lock held.\<close>

fun complete_locked_step :: "vfork \<Rightarrow> vfork option" where
  "complete_locked_step v = (case cpc v of
     CStart \<Rightarrow> (if sched_lock v = None then Some (v\<lparr> sched_lock := Some Child, cpc := CStore \<rparr>) else None)
   | CStore \<Rightarrow> Some (v\<lparr> completed := True, cpc := CWake \<rparr>)
   | CWake \<Rightarrow> map_option (\<lambda>v. v\<lparr> cpc := CRel \<rparr>) (wake_queue v)
   | CRel \<Rightarrow> Some (v\<lparr> sched_lock := None, cpc := CDone \<rparr>)
   | _ \<Rightarrow> None)"

text \<open>A signal to the parent: it becomes pending and wakes the parent when that is blocked.\<close>

definition signal_parent :: "vfork \<Rightarrow> vfork" where
  "signal_parent v = v\<lparr> signal_pending := True, vq := wake_task parent_pid (vq v) \<rparr>"

inductive vfork_step :: "(vfork \<Rightarrow> vfork option) \<Rightarrow> vfork \<Rightarrow> vfork \<Rightarrow> bool" for child where
  parent: "wait_step v = Some v' \<Longrightarrow> vfork_step child v v'"
| child: "child v = Some v' \<Longrightarrow> vfork_step child v v'"
| signal: "vfork_step child v (signal_parent v)"

definition vfork_start :: "vfork \<Rightarrow> bool" where
  "vfork_start v \<longleftrightarrow> v = vfork_new"

subsection \<open>Completion under the scheduler lock\<close>

definition vfork_ok :: "bool \<Rightarrow> actor option \<Rightarrow> ppc \<Rightarrow> cpc \<Rightarrow> u64 \<Rightarrow> u64 \<Rightarrow> bool \<Rightarrow> bool \<Rightarrow> bool" where
  "vfork_ok done lock p c tok seq blocked queued \<longleftrightarrow>
     (lock = Some Parent \<longleftrightarrow> p \<in> {PSeq, PState, PCount, PPush}) \<and>
     (lock = Some Child \<longleftrightarrow> c \<in> {CStore, CWake, CRel}) \<and>
     c \<in> {CStart, CStore, CWake, CRel, CDone} \<and> (c = CWake \<longrightarrow> done) \<and>
     (blocked \<longrightarrow> p \<in> {PCount, PPush, PVerify, PSleep}) \<and>
     (if c \<in> {CRel, CDone}
      then done \<and> seq = 1 \<and> (p \<in> {PLock, PSeq} \<longrightarrow> tok = 0) \<and> p \<notin> {PState, PCount, PPush} \<and> \<not> blocked
      else seq = 0 \<and> tok = 0 \<and> (blocked \<and> p \<in> {PVerify, PSleep} \<longrightarrow> queued))"

definition vfork_inv :: "vfork \<Rightarrow> bool" where
  "vfork_inv v \<longleftrightarrow> listeners (wqs (vq v) 0) = [] \<and>
     vfork_ok (completed v) (sched_lock v) (ppc v) (cpc v) (ptok v) (sequence (wqs (vq v) 0))
       (pstate v = Blocked) (parent_pid \<in> set (pids (wqs (vq v) 0)))"

lemma wake_one:
  "wake_all_locked 1 0 s = Some s' \<Longrightarrow> listeners (wqs s 0) = [] \<Longrightarrow>
     sequence (wqs s' 0) = sequence (wqs s 0) + 1 \<and> listeners (wqs s' 0) = [] \<and>
     tstate s' p = (if p \<in> set (pids (wqs s 0)) \<and> tstate s p = Blocked then Ready else tstate s p)"
  by (auto simp: upd_wq_def fold_wake_task Let_def)

lemmas vfork_simps = set_pstate_def upd_wq_def wq_token_def wq_remove_def wake_task_def signal_parent_def

declare wait_step.simps [simp del]

lemma wait_step_at [simp]:
  "ppc v = PHead \<Longrightarrow> wait_step v = Some (v\<lparr> ppc := if completed v then PDone else PTok \<rparr>)"
  "ppc v = PTok \<Longrightarrow> wait_step v = Some (v\<lparr> ptok := wq_token 0 (vq v), ppc := PCheck \<rparr>)"
  "ppc v = PCheck \<Longrightarrow> wait_step v = Some (v\<lparr> ppc := if completed v then PDone else PLock \<rparr>)"
  "ppc v = PLock \<Longrightarrow> sched_lock v = None \<Longrightarrow> wait_step v = Some (v\<lparr> sched_lock := Some Parent, ppc := PSeq \<rparr>)"
  "ppc v = PSeq \<Longrightarrow> wq_token 0 (vq v) \<noteq> ptok v \<Longrightarrow> wait_step v = Some (v\<lparr> sched_lock := None, ppc := PHead \<rparr>)"
  "ppc v = PVerify \<Longrightarrow> pstate v \<noteq> Blocked \<Longrightarrow> wait_step v = Some (set_pstate Running v\<lparr> ppc := PRemove \<rparr>)"
  "ppc v = PSleep \<Longrightarrow> pstate v \<noteq> Blocked \<Longrightarrow> wait_step v = Some (set_pstate Running v\<lparr> ppc := PRemove \<rparr>)"
  "ppc v = PRemove \<Longrightarrow> wait_step v = Some (v\<lparr> vq := wq_remove 0 parent_pid (vq v), ppc := PHead \<rparr>)"
  by (simp_all add: wait_step.simps)

lemma vfork_ok_sleep: "vfork_ok d l PVerify c k q b x \<Longrightarrow> \<not> b \<Longrightarrow> vfork_ok d l PRemove c k q False x"
  "vfork_ok d l PSleep c k q b x \<Longrightarrow> \<not> b \<Longrightarrow> vfork_ok d l PRemove c k q False x"
  "vfork_ok d l PRemove c k q b x \<Longrightarrow> vfork_ok d l PHead c k q b y"
  "vfork_ok d l p c k q b x \<Longrightarrow> vfork_ok d l p c k q False x"
  by (auto simp: vfork_ok_def)

lemma vfork_ok_parent:
  "vfork_ok d l PHead c k q b x \<Longrightarrow> vfork_ok d l PTok c k q b x" "vfork_ok d l PHead c k q b x \<Longrightarrow> vfork_ok d l PDone c k q b x"
  "vfork_ok d l PTok c k q b x \<Longrightarrow> vfork_ok d l PCheck c q q b x"
  "vfork_ok False l PCheck c k q b x \<Longrightarrow> vfork_ok False l PLock c k q b x"
  "vfork_ok d l PCheck c k q b x \<Longrightarrow> vfork_ok d l PDone c k q b x"
  "vfork_ok d None PLock c k q b x \<Longrightarrow> vfork_ok d (Some Parent) PSeq c k q b x"
  "vfork_ok d l PSeq c k q b x \<Longrightarrow> vfork_ok d None PHead c k q b x"
  "vfork_ok d l PSeq c q q b x \<Longrightarrow> vfork_ok d l PState c q q b x"
  "vfork_ok d l PState c k q b x \<Longrightarrow> vfork_ok d None PHead c k q b x"
  "vfork_ok d l PState c k q b x \<Longrightarrow> vfork_ok d l PCount c k q True x"
  "vfork_ok d l PCount c k q b x \<Longrightarrow> vfork_ok d l PPush c k q b x"
  "vfork_ok d l PPush c k q b x \<Longrightarrow> vfork_ok d None PVerify c k q b True"
  "vfork_ok d l PVerify c k q b x \<Longrightarrow> vfork_ok d l PSleep c k q b x"
  by (auto simp: vfork_ok_def)

lemma vfork_ok_child:
  "vfork_ok d None p CStart k q b x \<Longrightarrow> vfork_ok d (Some Child) p CStore k q b x"
  "vfork_ok d l p CStore k q b x \<Longrightarrow> vfork_ok True l p CWake k q b x"
  "vfork_ok d l p CWake k q b x \<Longrightarrow> vfork_ok d l p CRel k (q + 1) (b \<and> \<not> x) y"
  "vfork_ok d l p CRel k q b x \<Longrightarrow> vfork_ok d None p CDone k q b x"
  by (auto simp: vfork_ok_def)

lemma wait_step_inv:
  assumes "vfork_inv v" "wait_step v = Some v'"
  shows "vfork_inv v'"
proof -
  have l: "listeners (wqs (vq v') 0) = []"
    using assms by (cases "ppc v") (auto simp: wait_step.simps vfork_simps vfork_inv_def Let_def split: if_splits)
  moreover have "vfork_ok (completed v) (sched_lock v) (ppc v) (cpc v) (ptok v) (sequence (wqs (vq v) 0))
      (pstate v = Blocked) (parent_pid \<in> set (pids (wqs (vq v) 0)))"
    using assms(1) by (simp add: vfork_inv_def)
  then have "vfork_ok (completed v') (sched_lock v') (ppc v') (cpc v') (ptok v') (sequence (wqs (vq v') 0))
      (pstate v' = Blocked) (parent_pid \<in> set (pids (wqs (vq v') 0)))"
    using assms(2)
    by (cases "ppc v") (auto simp: wait_step.simps vfork_simps Let_def
      intro: vfork_ok_parent vfork_ok_sleep split: if_splits)
  ultimately show ?thesis by (simp add: vfork_inv_def)
qed

lemma complete_locked_inv:
  assumes "vfork_inv v" "complete_locked_step v = Some v'"
  shows "vfork_inv v'"
proof (cases "cpc v = CWake")
  case True
  then obtain q where q: "wake_all_locked 1 0 (vq v) = Some q" "v' = v\<lparr> vq := q, cpc := CRel \<rparr>"
    using assms(2) by (auto simp: wake_queue_def simp del: wake_all_locked.simps One_nat_def)
  have b: "(tstate q parent_pid = Blocked) = (pstate v = Blocked \<and> parent_pid \<notin> set (pids (wqs (vq v) 0)))"
    using wake_one [OF q(1), of parent_pid] assms(1) by (auto simp: vfork_inv_def)
  show ?thesis
    using wake_one [OF q(1), of 0] vfork_ok_child(3) True assms(1) by (simp add: q(2) vfork_inv_def b)
next
  case False
  then show ?thesis
    using assms by (cases "cpc v") (auto simp: vfork_inv_def intro: vfork_ok_child split: if_splits)
qed

lemma signal_inv: "vfork_inv v \<Longrightarrow> vfork_inv (signal_parent v)"
  by (auto simp: vfork_inv_def vfork_simps intro: vfork_ok_sleep(4))

interpretation vf: invariant_system vfork_start "vfork_step complete_locked_step" vfork_inv
proof
  show "vfork_inv s" if "vfork_start s" for s
    using that by (simp add: vfork_start_def vfork_new_def vfork_inv_def vfork_ok_def wait_queue_new_def)
  show "vfork_inv t" if "vfork_inv s" "vfork_step complete_locked_step s t" for s t
    using that(2,1) by (cases rule: vfork_step.cases) (blast intro: wait_step_inv complete_locked_inv signal_inv)+
qed

text \<open>The parent running alone for \<open>n\<close> steps.\<close>

fun wait_run :: "nat \<Rightarrow> vfork \<Rightarrow> vfork option" where
  "wait_run 0 v = Some v"
| "wait_run (Suc n) v = (if ppc v = PDone then Some v else case wait_step v of None \<Rightarrow> None | Some v' \<Rightarrow> wait_run n v')"

lemma wait_run_done: "ppc v = PDone \<Longrightarrow> wait_run n v = Some v"
  by (cases n) simp_all

lemma completed_parent_returns:
  assumes "vfork_inv v" "cpc v = CDone"
  shows "\<exists>v'. wait_run 5 v = Some v' \<and> ppc v' = PDone"
  using assms
  by (cases "ppc v"; cases "sched_lock v")
    (auto simp: vfork_inv_def vfork_ok_def vfork_simps eval_nat_numeral wait_run_done Let_def intro: actor.exhaust)

text \<open>
  C20. When the child completes a vfork with the scheduler lock held (\<open>complete_locked\<close>, on
  exit), the wakeup is never lost: in every interleaving of parent, child and signals, once the
  child is done the parent is not left blocked, and running alone it returns from the wait
  within five of its atomic steps.
\<close>

theorem vfork_no_lost_wakeup:
  assumes "reach vfork_start (vfork_step complete_locked_step) v" "cpc v = CDone"
  shows "pstate v \<noteq> Blocked \<and> (\<exists>v'. wait_run 5 v = Some v' \<and> ppc v' = PDone)"
proof -
  have i: "vfork_inv v" using vf.reach_inv assms(1) .
  then show ?thesis
    using completed_parent_returns [OF i assms(2)] assms(2) by (simp add: vfork_inv_def vfork_ok_def)
qed

text \<open>The parent asleep, then the child completing.\<close>

definition vfork_trace :: "vfork option" where
  "vfork_trace = fold (\<lambda>f v. Option.bind v f) (replicate 9 wait_step @ replicate 4 complete_locked_step) (Some vfork_new)"

lemma bind_steps:
  assumes "fold (\<lambda>f v. Option.bind v f) fs (Some u) = Some v" "set fs \<subseteq> {wait_step, child}"
    "reach vfork_start (vfork_step child) u"
  shows "reach vfork_start (vfork_step child) v"
  using assms
proof (induction fs arbitrary: u)
  case (Cons f fs)
  have "f u \<noteq> None"
  proof
    assume "f u = None"
    moreover have "fold (\<lambda>f v. Option.bind v f) fs None = None" by (induction fs) simp_all
    ultimately show False using Cons.prems(1) by simp
  qed
  then obtain u' where u': "f u = Some u'" by auto
  then have "reach vfork_start (vfork_step child) u'"
    using Cons.prems(2,3) by (auto intro: reach_step vfork_step.intros)
  then show ?case using Cons u' by simp
qed simp

lemmas vfork_eval = wait_step.simps vfork_new_def wait_queue_new_def vfork_simps numeral_eq_Suc wake_queue_def Let_def

lemma vfork_trace_end: "\<exists>v. vfork_trace = Some v \<and> cpc v = CDone \<and> ppc v = PSleep"
  by (simp add: vfork_trace_def vfork_eval)

theorem vfork_no_lost_wakeup_witness:
  "\<exists>v. vfork_trace = Some v \<and> cpc v = CDone \<and> ppc v = PSleep \<and> pstate v \<noteq> Blocked"
proof -
  obtain v where v: "vfork_trace = Some v" "cpc v = CDone" "ppc v = PSleep" using vfork_trace_end by blast
  have "reach vfork_start (vfork_step complete_locked_step) v"
    using v(1) unfolding vfork_trace_def
    by (rule bind_steps) (auto intro: reach_init simp: vfork_start_def)
  then show ?thesis using vfork_no_lost_wakeup [of v] v by blast
qed

subsection \<open>Completion through the fast path\<close>

text \<open>
  The parent reads the sequence under the lock, the child bumps it, reads a zero
  \<open>waiter_count\<close> and returns, and only then the parent counts itself and goes to sleep.
\<close>

definition lost_schedule :: "(vfork \<Rightarrow> vfork option) list" where
  "lost_schedule = replicate 5 wait_step @ replicate 4 complete_step @ replicate 4 wait_step"

text \<open>
  C37. When the child completes the vfork through \<open>complete\<close> (on \<open>execve\<close>), the wakeup can be
  lost: an interleaving of the atomic steps of \<open>wait_since\<close> and \<open>wake_all\<close> ends with the
  completion set, the child returned without waking anyone, and the parent asleep; neither
  can take another step, so only a signal ends the wait.
\<close>

theorem vfork_lost_wakeup:
  "\<exists>v. reach vfork_start (vfork_step complete_step) v \<and> completed v \<and> cpc v = CDone \<and> ppc v = PSleep \<and>
     pstate v = Blocked \<and> \<not> signal_pending v \<and> wait_step v = None \<and> complete_step v = None"
proof -
  obtain v where v: "fold (\<lambda>f v. Option.bind v f) lost_schedule (Some vfork_new) = Some v"
    and e: "completed v \<and> cpc v = CDone \<and> ppc v = PSleep \<and> pstate v = Blocked \<and> \<not> signal_pending v"
    by (simp add: lost_schedule_def vfork_eval)
  have "reach vfork_start (vfork_step complete_step) v"
    using v by (rule bind_steps) (auto simp: lost_schedule_def vfork_start_def intro: reach_init)
  then show ?thesis using e by (auto simp: wait_step.simps intro!: exI [of _ v])
qed

end
