(* ===== verification/Pipe.thy ===== *)
theory Pipe
  imports Ring_Buffer Inode
begin

text \<open>
  Pipes and socket pairs (\<open>fs/pipe.rs\<close>): the circular buffer with its bulk copies, the read and
  write calls as steps that interleave at their lock and sleep points, poll, the closing of
  the ends, and the socket pair made of two pipes. The buffer is an instance of the bounded
  FIFO interface of \<open>Ring_Buffer\<close>.
\<close>

unbundle bit_operations_syntax

section \<open>The buffer\<close>

definition PIPE_BUF_SIZE :: nat where
  "PIPE_BUF_SIZE = 65536"

record pipe_buffer =
  pb_data :: "u8 list"
  pb_read_pos :: nat
  pb_write_pos :: nat
  pb_len :: nat

definition pipe_buffer_new :: pipe_buffer where
  "pipe_buffer_new = \<lparr> pb_data = replicate PIPE_BUF_SIZE 0, pb_read_pos = 0, pb_write_pos = 0, pb_len = 0 \<rparr>"

definition pb_is_full :: "pipe_buffer \<Rightarrow> bool" where
  "pb_is_full b \<longleftrightarrow> pb_len b = PIPE_BUF_SIZE"

definition pb_is_empty :: "pipe_buffer \<Rightarrow> bool" where
  "pb_is_empty b \<longleftrightarrow> pb_len b = 0"

definition pb_push_slice :: "u8 list \<Rightarrow> pipe_buffer \<Rightarrow> nat \<times> pipe_buffer" where
  "pb_push_slice src b =
     (let available = PIPE_BUF_SIZE - pb_len b
      in if available = 0 \<or> src = [] then (0, b)
         else let to_write = min (length src) available;
                  first_chunk = min to_write (PIPE_BUF_SIZE - pb_write_pos b);
                  data1 = copy_at (pb_write_pos b) (take first_chunk src) (pb_data b);
                  second_chunk = to_write - first_chunk;
                  data2 = (if second_chunk > 0
                           then copy_at 0 (take second_chunk (drop first_chunk src)) data1 else data1)
              in (to_write, b\<lparr> pb_data := data2,
                    pb_write_pos := (pb_write_pos b + to_write) AND (PIPE_BUF_SIZE - 1),
                    pb_len := pb_len b + to_write \<rparr>))"

definition pb_pop_slice :: "u8 list \<Rightarrow> pipe_buffer \<Rightarrow> nat \<times> u8 list \<times> pipe_buffer" where
  "pb_pop_slice dst b =
     (if pb_len b = 0 \<or> dst = [] then (0, dst, b)
      else let to_read = min (length dst) (pb_len b);
               first_chunk = min to_read (PIPE_BUF_SIZE - pb_read_pos b);
               dst1 = copy_at 0 (subslice (pb_read_pos b) first_chunk (pb_data b)) dst;
               second_chunk = to_read - first_chunk;
               dst2 = (if second_chunk > 0
                       then copy_at first_chunk (subslice 0 second_chunk (pb_data b)) dst1 else dst1)
           in (to_read, dst2, b\<lparr> pb_read_pos := (pb_read_pos b + to_read) AND (PIPE_BUF_SIZE - 1),
                                 pb_len := pb_len b - to_read \<rparr>))"

definition pb_inv :: "pipe_buffer \<Rightarrow> bool" where
  "pb_inv b \<longleftrightarrow> length (pb_data b) = PIPE_BUF_SIZE \<and> pb_read_pos b < PIPE_BUF_SIZE \<and>
     pb_len b \<le> PIPE_BUF_SIZE \<and> pb_write_pos b = (pb_read_pos b + pb_len b) mod PIPE_BUF_SIZE"

definition pb_contents :: "pipe_buffer \<Rightarrow> u8 list" where
  "pb_contents b = circ (pb_read_pos b) (pb_len b) (pb_data b)"

lemma size_pos [simp]: "0 < PIPE_BUF_SIZE"
  by (simp add: PIPE_BUF_SIZE_def)

lemma and_size [simp]: "(n::nat) AND (PIPE_BUF_SIZE - Suc 0) = n mod PIPE_BUF_SIZE"
proof -
  have "PIPE_BUF_SIZE - Suc 0 = mask 16" by (simp add: PIPE_BUF_SIZE_def mask_eq_exp_minus_1)
  then show ?thesis by (simp add: take_bit_eq_mask [symmetric] take_bit_eq_mod) (simp add: PIPE_BUF_SIZE_def)
qed

lemma pb_push_law:
  assumes "pb_inv b" "pb_push_slice src b = (n, b')"
  shows "n = min (length src) (PIPE_BUF_SIZE - length (pb_contents b)) \<and>
    pb_contents b' = pb_contents b @ take n src \<and> PIPE_BUF_SIZE = PIPE_BUF_SIZE \<and> pb_inv b'"
proof (cases "src = [] \<or> pb_len b = PIPE_BUF_SIZE")
  case True
  then show ?thesis using assms by (auto simp: pb_push_slice_def pb_contents_def)
next
  case False
  define m where "m = min (length src) (PIPE_BUF_SIZE - pb_len b)"
  define w where "w = pb_write_pos b"
  note inv = assms(1) [unfolded pb_inv_def]
  then have len: "length (pb_data b) = PIPE_BUF_SIZE" by simp
  have ne: "\<not> (PIPE_BUF_SIZE - pb_len b = 0 \<or> src = [])" using False inv by auto
  have m: "m \<le> length src" "pb_len b + m \<le> PIPE_BUF_SIZE" using inv by (auto simp: m_def)
  have e: "(n, b') = (m, b\<lparr> pb_data := circ_write w (take m src) (pb_data b),
             pb_write_pos := (w + m) mod PIPE_BUF_SIZE, pb_len := pb_len b + m \<rparr>)"
    using assms(2) unfolding pb_push_slice_def Let_def m_def [symmetric] w_def [symmetric]
    by (simp only: ne if_False circ_write_chunks [OF m(1) refl, of "pb_data b", unfolded len] One_nat_def and_size)
  have wl: "w < length (pb_data b)" "pb_data b \<noteq> []" using inv size_pos unfolding w_def by (metis mod_less_divisor, force)
  have "pb_contents b' = circ (pb_read_pos b) (pb_len b + length (take m src)) (circ_write w (take m src) (pb_data b))"
    using e m(1) by (simp add: pb_contents_def)
  also have "\<dots> = pb_contents b @ take m src"
    unfolding pb_contents_def using wl(2) m inv by (intro circ_append_write) (auto simp: w_def)
  finally show ?thesis
    using e inv m wl by (auto simp: pb_inv_def pb_contents_def m_def w_def mod_add_left_eq add.assoc)
qed

lemma pb_pop_law:
  assumes "pb_inv b" "pb_pop_slice dst b = (n, dst', b')"
  shows "n = min (length dst) (length (pb_contents b)) \<and> dst' = take n (pb_contents b) @ drop n dst \<and>
    pb_contents b' = drop n (pb_contents b) \<and> PIPE_BUF_SIZE = PIPE_BUF_SIZE \<and> pb_inv b'"
proof (cases "dst = [] \<or> pb_len b = 0")
  case True
  then show ?thesis using assms by (auto simp: pb_pop_slice_def pb_contents_def)
next
  case False
  define m where "m = min (length dst) (pb_len b)"
  note inv = assms(1) [unfolded pb_inv_def]
  then have len: "length (pb_data b) = PIPE_BUF_SIZE" by simp
  have ne: "\<not> (pb_len b = 0 \<or> dst = [])" using False by auto
  have m: "m \<le> length dst" "m \<le> pb_len b" "m \<le> length (pb_data b)" "pb_read_pos b < length (pb_data b)"
    using inv by (auto simp: m_def)
  have e: "(n, dst', b') = (m, circ (pb_read_pos b) m (pb_data b) @ drop m dst,
      b\<lparr> pb_read_pos := (pb_read_pos b + m) mod PIPE_BUF_SIZE, pb_len := pb_len b - m \<rparr>)"
    using assms(2) unfolding pb_pop_slice_def Let_def m_def [symmetric]
    by (simp only: ne if_False circ_read_chunks [OF m(4,3,1) refl refl, unfolded len] One_nat_def and_size)
  have "pb_contents b' = circ (pb_read_pos b + m) (pb_len b - m) (pb_data b)"
    using e inv circ_mod [of "pb_read_pos b + m" "pb_data b"] by (simp add: pb_contents_def)
  then have "pb_contents b' = drop m (pb_contents b)"
    using circ_drop [OF m(2), of "pb_read_pos b" "pb_data b"] by (simp add: pb_contents_def)
  moreover have "take m (pb_contents b) = circ (pb_read_pos b) m (pb_data b)"
    using m(2) by (simp add: pb_contents_def circ_take)
  moreover have "pb_inv b'"
    using e inv m(2) mod_add_left_eq [of "pb_read_pos b + m" PIPE_BUF_SIZE "pb_len b - m"]
    by (auto simp: pb_inv_def)
  ultimately show ?thesis using e by (simp add: m_def pb_contents_def)
qed

interpretation pipe_fifo: bounded_fifo pb_inv pb_contents "\<lambda>_. PIPE_BUF_SIZE" pb_push_slice pb_pop_slice
proof
  show "length (pb_contents b) \<le> PIPE_BUF_SIZE" if "pb_inv b" for b
    using that by (simp add: pb_contents_def pb_inv_def)
qed (blast dest: pb_push_law pb_pop_law)+

lemma pb_new [simp]: "pb_inv pipe_buffer_new" "pb_contents pipe_buffer_new = []"
  by (simp_all add: pb_inv_def pb_contents_def pipe_buffer_new_def)

lemma pb_len_contents: "pb_len b = length (pb_contents b)"
  by (simp add: pb_contents_def)

section \<open>The ends of a pipe\<close>

record pipe_state =
  pipe_buf :: pipe_buffer
  readers :: nat
  writers :: nat
  rd_nonblock :: bool
  wr_nonblock :: bool

text \<open>\<open>make_pipe\<close>: one reader and one writer, both blocking.\<close>

definition make_pipe :: pipe_state where
  "make_pipe = \<lparr> pipe_buf = pipe_buffer_new, readers = 1, writers = 1, rd_nonblock = False, wr_nonblock = False \<rparr>"

text \<open>
  A call in progress. \<open>WDone d r\<close> and \<open>RDone d r\<close> hold the argument slice and the result:
  \<open>Inl\<close> an error code, \<open>Inr\<close> the byte count.
\<close>

datatype wcall = WHead "u8 list" nat | WPush "u8 list" nat | WNonblock "u8 list" nat | WSleep "u8 list" nat
  | WDone "u8 list" "int + nat"

datatype rcall = RTry "u8 list" | RNonblock "u8 list" | RSleep "u8 list" | RDone "u8 list" "int + nat"

definition write_call :: "u8 list \<Rightarrow> wcall" where
  "write_call data = (if data = [] then WDone [] (Inr 0) else WHead data 0)"

definition read_call :: "u8 list \<Rightarrow> rcall" where
  "read_call buf = (if buf = [] then RDone [] (Inr 0) else RTry buf)"

text \<open>
  One step of \<open>PipeWriter::write\<close>; \<open>sig\<close> says whether an unblocked signal is pending when the
  call wakes up. The bytes it appends to the pipe are returned for the statement of the
  properties.
\<close>

fun write_step :: "bool \<Rightarrow> wcall \<Rightarrow> pipe_state \<Rightarrow> wcall \<times> u8 list \<times> pipe_state" where
  "write_step sig (WHead data written) p =
     (if written < length data
      then if readers p = 0 then (WDone data (Inl (-32)), [], p) else (WPush data written, [], p)
      else (WDone data (Inr written), [], p))"
| "write_step sig (WPush data written) p =
     (let (n, b) = (if pb_is_full (pipe_buf p) then (0, pipe_buf p)
                    else pb_push_slice (drop written data) (pipe_buf p))
      in (if n = 0 then WNonblock data written else WHead data (written + n),
          take n (drop written data), p\<lparr> pipe_buf := b \<rparr>))"
| "write_step sig (WNonblock data written) p =
     (if wr_nonblock p then (WDone data (if written > 0 then Inr written else Inl (-11)), [], p)
      else (WSleep data written, [], p))"
| "write_step sig (WSleep data written) p =
     (if sig then WDone data (Inl (-4)) else WHead data written, [], p)"
| "write_step sig (WDone data r) p = (WDone data r, [], p)"

text \<open>One step of \<open>PipeReader::read\<close>, with the bytes it takes out of the pipe.\<close>

fun read_step :: "bool \<Rightarrow> rcall \<Rightarrow> pipe_state \<Rightarrow> rcall \<times> u8 list \<times> pipe_state" where
  "read_step sig (RTry buf) p =
     (if \<not> pb_is_empty (pipe_buf p)
      then let (count, buf', b) = pb_pop_slice buf (pipe_buf p)
           in (RDone buf' (Inr count), take count buf', p\<lparr> pipe_buf := b \<rparr>)
      else if writers p = 0 then (RDone buf (Inr 0), [], p)
      else (RNonblock buf, [], p))"
| "read_step sig (RNonblock buf) p =
     (if rd_nonblock p then RDone buf (Inl (-11)) else RSleep buf, [], p)"
| "read_step sig (RSleep buf) p = (if sig then RDone buf (Inl (-4)) else RTry buf, [], p)"
| "read_step sig (RDone buf r) p = (RDone buf r, [], p)"

definition set_rd_nonblock :: "bool \<Rightarrow> pipe_state \<Rightarrow> pipe_state" where
  "set_rd_nonblock nb p = p\<lparr> rd_nonblock := nb \<rparr>"

definition set_wr_nonblock :: "bool \<Rightarrow> pipe_state \<Rightarrow> pipe_state" where
  "set_wr_nonblock nb p = p\<lparr> wr_nonblock := nb \<rparr>"

text \<open>\<open>ioctl\<close>: \<open>user\<close> is the validated \<open>i32\<close> at the argument, if the pointer is valid.\<close>

definition rd_ioctl :: "u64 \<Rightarrow> int option \<Rightarrow> pipe_state \<Rightarrow> (int + nat) \<times> pipe_state" where
  "rd_ioctl request user p =
     (if request = 0x5421
      then case user of None \<Rightarrow> (Inl (-14), p) | Some v \<Rightarrow> (Inr 0, set_rd_nonblock (v \<noteq> 0) p)
      else (Inl (-22), p))"

definition wr_ioctl :: "u64 \<Rightarrow> int option \<Rightarrow> pipe_state \<Rightarrow> (int + nat) \<times> pipe_state" where
  "wr_ioctl request user p =
     (if request = 0x5421
      then case user of None \<Rightarrow> (Inl (-14), p) | Some v \<Rightarrow> (Inr 0, set_wr_nonblock (v \<noteq> 0) p)
      else (Inl (-22), p))"


definition rd_poll :: "u32 \<Rightarrow> pipe_state \<Rightarrow> u32" where
  "rd_poll events p =
     (let has_data = \<not> pb_is_empty (pipe_buf p);
          r1 = (if events AND POLLIN \<noteq> 0 \<and> (has_data \<or> writers p = 0) then POLLIN else 0)
      in if writers p = 0 \<and> \<not> has_data then r1 OR POLLHUP else r1)"

definition wr_poll :: "u32 \<Rightarrow> pipe_state \<Rightarrow> u32" where
  "wr_poll events p =
     (let r1 = (if events AND POLLOUT \<noteq> 0 \<and> \<not> pb_is_full (pipe_buf p) then POLLOUT else 0)
      in if readers p = 0 then r1 OR (POLLERR OR POLLHUP) else r1)"

text \<open>Dropping the last handle of an end.\<close>

definition drop_reader :: "pipe_state \<Rightarrow> pipe_state" where
  "drop_reader p = p\<lparr> readers := readers p - 1 \<rparr>"

definition drop_writer :: "pipe_state \<Rightarrow> pipe_state" where
  "drop_writer p = p\<lparr> writers := writers p - 1 \<rparr>"

section \<open>Concurrent readers and writers\<close>

text \<open>
  Any number of threads use the two ends; \<open>None\<close> is a thread outside a call. An end is
  dropped only when no thread is in a call on it, since a call holds a reference. \<open>accepted\<close>
  and \<open>delivered\<close> record the bytes that entered and left the pipe, \<open>sent\<close> those each thread's
  current write put in.
\<close>

record pipe_sys =
  pst :: pipe_state
  wth :: "nat \<Rightarrow> wcall option"
  rth :: "nat \<Rightarrow> rcall option"
  accepted :: "u8 list"
  delivered :: "u8 list"
  sent :: "nat \<Rightarrow> u8 list"

definition pipe_start :: "pipe_sys \<Rightarrow> bool" where
  "pipe_start s \<longleftrightarrow> s = \<lparr> pst = make_pipe, wth = \<lambda>_. None, rth = \<lambda>_. None, accepted = [], delivered = [],
                          sent = \<lambda>_. [] \<rparr>"

inductive pipe_step :: "pipe_sys \<Rightarrow> pipe_sys \<Rightarrow> bool" where
  start_write: "wth s t = None \<Longrightarrow> writers (pst s) \<noteq> 0 \<Longrightarrow>
    pipe_step s (s\<lparr> wth := (wth s)(t \<mapsto> write_call data), sent := (sent s)(t := []) \<rparr>)"
| do_write: "wth s t = Some c \<Longrightarrow> write_step sig c (pst s) = (c', out, p) \<Longrightarrow>
    pipe_step s (s\<lparr> pst := p, wth := (wth s)(t \<mapsto> c'), accepted := accepted s @ out,
                    sent := (sent s)(t := sent s t @ out) \<rparr>)"
| finish_write: "wth s t = Some (WDone data r) \<Longrightarrow> pipe_step s (s\<lparr> wth := (wth s)(t := None) \<rparr>)"
| start_read: "rth s t = None \<Longrightarrow> readers (pst s) \<noteq> 0 \<Longrightarrow>
    pipe_step s (s\<lparr> rth := (rth s)(t \<mapsto> read_call buf) \<rparr>)"
| do_read: "rth s t = Some c \<Longrightarrow> read_step sig c (pst s) = (c', got, p) \<Longrightarrow>
    pipe_step s (s\<lparr> pst := p, rth := (rth s)(t \<mapsto> c'), delivered := delivered s @ got \<rparr>)"
| finish_read: "rth s t = Some (RDone buf r) \<Longrightarrow> pipe_step s (s\<lparr> rth := (rth s)(t := None) \<rparr>)"
| nonblock_rd: "pipe_step s (s\<lparr> pst := set_rd_nonblock nb (pst s) \<rparr>)"
| nonblock_wr: "pipe_step s (s\<lparr> pst := set_wr_nonblock nb (pst s) \<rparr>)"
| close_rd: "rth s = (\<lambda>_. None) \<Longrightarrow> readers (pst s) \<noteq> 0 \<Longrightarrow> pipe_step s (s\<lparr> pst := drop_reader (pst s) \<rparr>)"
| close_wr: "wth s = (\<lambda>_. None) \<Longrightarrow> writers (pst s) \<noteq> 0 \<Longrightarrow> pipe_step s (s\<lparr> pst := drop_writer (pst s) \<rparr>)"

text \<open>What a write call has put into the pipe so far.\<close>

fun wr_ok :: "wcall \<Rightarrow> u8 list \<Rightarrow> bool" where
  "wr_ok (WHead d k) out \<longleftrightarrow> k \<le> length d \<and> out = take k d"
| "wr_ok (WPush d k) out \<longleftrightarrow> k < length d \<and> out = take k d"
| "wr_ok (WNonblock d k) out \<longleftrightarrow> k < length d \<and> out = take k d"
| "wr_ok (WSleep d k) out \<longleftrightarrow> k < length d \<and> out = take k d"
| "wr_ok (WDone d (Inr n)) out \<longleftrightarrow> n \<le> length d \<and> out = take n d"
| "wr_ok (WDone d (Inl e)) out \<longleftrightarrow> (\<exists>k < length d. out = take k d) \<and> (e = -11 \<longrightarrow> out = [])"

text \<open>A read in progress has a non-empty buffer; a zero count means the stream has ended.\<close>

fun rd_ok :: "rcall \<Rightarrow> bool \<Rightarrow> bool" where
  "rd_ok (RTry buf) eof \<longleftrightarrow> buf \<noteq> []"
| "rd_ok (RNonblock buf) eof \<longleftrightarrow> buf \<noteq> []"
| "rd_ok (RSleep buf) eof \<longleftrightarrow> buf \<noteq> []"
| "rd_ok (RDone buf r) eof \<longleftrightarrow> buf \<noteq> [] \<and> r = Inr 0 \<longrightarrow> eof"

definition pipe_inv :: "pipe_sys \<Rightarrow> bool" where
  "pipe_inv s \<longleftrightarrow> pb_inv (pipe_buf (pst s)) \<and> delivered s @ pb_contents (pipe_buf (pst s)) = accepted s \<and>
     (\<forall>t c. wth s t = Some c \<longrightarrow> wr_ok c (sent s t)) \<and> (writers (pst s) = 0 \<longrightarrow> wth s = (\<lambda>_. None)) \<and>
     (\<forall>t c. rth s t = Some c \<longrightarrow> rd_ok c (writers (pst s) = 0 \<and> delivered s = accepted s))"

lemma write_step_ok:
  assumes "wr_ok c out" "pb_inv (pipe_buf p)" "write_step sig c p = (c', new, p')"
  shows "wr_ok c' (out @ new) \<and> pb_inv (pipe_buf p') \<and>
    pb_contents (pipe_buf p') = pb_contents (pipe_buf p) @ new \<and> writers p' = writers p"
proof (cases c)
  case (WPush d k)
  show ?thesis
  proof (cases "pb_is_full (pipe_buf p)")
    case True
    then show ?thesis using assms WPush by auto
  next
    case False
    obtain n b where nb: "pb_push_slice (drop k d) (pipe_buf p) = (n, b)" by fastforce
    note law = pipe_fifo.push_law [OF assms(2) nb]
    have "take k d @ take n (drop k d) = take (k + n) d" by (simp add: take_add)
    then show ?thesis using assms WPush False nb law by (auto split: if_splits)
  qed
next
  case (WDone d r)
  then show ?thesis using assms by (cases r) auto
qed (use assms in \<open>auto split: if_splits\<close>)

lemma read_step_ok:
  assumes "rd_ok c eof" "pb_inv (pipe_buf p)" "read_step sig c p = (c', got, p')"
    and "eof \<Longrightarrow> writers p = 0 \<and> pb_contents (pipe_buf p) = []"
  shows "rd_ok c' (writers p = 0 \<and> pb_contents (pipe_buf p) = []) \<and> pb_inv (pipe_buf p') \<and>
    got @ pb_contents (pipe_buf p') = pb_contents (pipe_buf p) \<and> writers p' = writers p"
proof (cases c)
  case (RTry buf)
  show ?thesis
  proof (cases "pb_is_empty (pipe_buf p)")
    case True
    then show ?thesis using assms RTry by (auto simp: pb_is_empty_def pb_len_contents split: if_splits)
  next
    case False
    obtain n buf' b where nb: "pb_pop_slice buf (pipe_buf p) = (n, buf', b)" by (metis prod_cases3)
    note law = pipe_fifo.pop_law [OF assms(2) nb]
    then have "0 < n" using False assms(1) RTry by (simp add: pb_is_empty_def pb_len_contents)
    then show ?thesis using assms RTry False nb law by auto
  qed
qed (use assms in \<open>auto split: if_splits\<close>)

lemma rd_ok_mono: "rd_ok c e \<Longrightarrow> (e \<Longrightarrow> e') \<Longrightarrow> rd_ok c e'"
  by (cases c) auto

lemma do_write_inv:
  assumes "pipe_inv s" "wth s t = Some c" "write_step sig c (pst s) = (c', new, p)"
  shows "pipe_inv (s\<lparr> pst := p, wth := (wth s)(t \<mapsto> c'), accepted := accepted s @ new,
                    sent := (sent s)(t := sent s t @ new) \<rparr>)"
proof -
  note i = assms(1) [unfolded pipe_inv_def]
  have w: "wr_ok c' (sent s t @ new) \<and> pb_inv (pipe_buf p) \<and>
      pb_contents (pipe_buf p) = pb_contents (pipe_buf (pst s)) @ new \<and> writers p = writers (pst s)"
    using write_step_ok assms i by blast
  have pos: "writers (pst s) \<noteq> 0" using i assms(2) by auto
  have "delivered s @ pb_contents (pipe_buf (pst s)) @ new = accepted s @ new" using i by (metis append_assoc)
  with i w pos show ?thesis by (auto simp: pipe_inv_def intro: rd_ok_mono)
qed

lemma do_read_inv:
  assumes "pipe_inv s" "rth s t = Some c" "read_step sig c (pst s) = (c', got, p)"
  shows "pipe_inv (s\<lparr> pst := p, rth := (rth s)(t \<mapsto> c'), delivered := delivered s @ got \<rparr>)"
proof -
  let ?e = "writers (pst s) = 0 \<and> delivered s = accepted s"
  note i = assms(1) [unfolded pipe_inv_def]
  have e: "?e \<longleftrightarrow> writers (pst s) = 0 \<and> pb_contents (pipe_buf (pst s)) = []"
    using i by (metis append_self_conv)
  have r: "rd_ok c' (writers (pst s) = 0 \<and> pb_contents (pipe_buf (pst s)) = []) \<and> pb_inv (pipe_buf p) \<and>
      got @ pb_contents (pipe_buf p) = pb_contents (pipe_buf (pst s)) \<and> writers p = writers (pst s)"
    using i assms(2) e by (intro read_step_ok [of c ?e, OF _ _ assms(3)]) auto
  then have d: "delivered s @ got @ pb_contents (pipe_buf p) = accepted s" using i by simp
  have m: "?e \<Longrightarrow> delivered s @ got = accepted s" using r e by auto
  have "\<forall>u c. ((rth s)(t \<mapsto> c')) u = Some c \<longrightarrow> rd_ok c (writers p = 0 \<and> delivered s @ got = accepted s)"
  proof (intro allI impI)
    fix u c assume u: "((rth s)(t \<mapsto> c')) u = Some c"
    have "rd_ok c ?e" using u r e i by (cases "u = t") auto
    then show "rd_ok c (writers p = 0 \<and> delivered s @ got = accepted s)"
      by (rule rd_ok_mono) (use m r in auto)
  qed
  with i r d show ?thesis by (simp add: pipe_inv_def)
qed

lemma pipe_inv_simple:
  assumes "pipe_inv s"
  shows "writers (pst s) \<noteq> 0 \<Longrightarrow> pipe_inv (s\<lparr> wth := (wth s)(t \<mapsto> write_call data), sent := (sent s)(t := []) \<rparr>)"
    "pipe_inv (s\<lparr> wth := (wth s)(t := None) \<rparr>)"
    "pipe_inv (s\<lparr> rth := (rth s)(t \<mapsto> read_call buf) \<rparr>)"
    "pipe_inv (s\<lparr> rth := (rth s)(t := None) \<rparr>)"
  using assms by (auto simp: pipe_inv_def write_call_def read_call_def)

lemma pipe_inv_flags:
  assumes "pipe_inv s"
  shows "pipe_inv (s\<lparr> pst := set_rd_nonblock nb (pst s) \<rparr>)" "pipe_inv (s\<lparr> pst := set_wr_nonblock nb (pst s) \<rparr>)"
    "pipe_inv (s\<lparr> pst := drop_reader (pst s) \<rparr>)"
    "wth s = (\<lambda>_. None) \<Longrightarrow> pipe_inv (s\<lparr> pst := drop_writer (pst s) \<rparr>)"
proof -
  have "\<forall>t c. rth s t = Some c \<longrightarrow> rd_ok c (writers (pst s) - 1 = 0 \<and> delivered s = accepted s)"
    using assms rd_ok_mono [of _ "writers (pst s) = 0 \<and> delivered s = accepted s"
        "writers (pst s) - 1 = 0 \<and> delivered s = accepted s"] by (auto simp: pipe_inv_def)
  then show "wth s = (\<lambda>_. None) \<Longrightarrow> pipe_inv (s\<lparr> pst := drop_writer (pst s) \<rparr>)"
    using assms by (simp add: pipe_inv_def drop_writer_def)
qed (use assms in \<open>simp_all add: pipe_inv_def set_rd_nonblock_def set_wr_nonblock_def drop_reader_def\<close>)

interpretation pipe: invariant_system pipe_start pipe_step pipe_inv
proof
  show "pipe_inv s" if "pipe_start s" for s
    using that by (simp add: pipe_start_def pipe_inv_def make_pipe_def)
  show "pipe_inv t" if "pipe_inv s" "pipe_step s t" for s t
    using that(2,1) by (cases rule: pipe_step.cases)
      (auto intro: do_write_inv do_read_inv pipe_inv_simple pipe_inv_flags)
qed

text \<open>
  C3. In every interleaving of readers and writers a pipe is a lossless FIFO byte stream: what has
  been read, followed by what is buffered, is what has been written, and at most 64 KiB are
  buffered. A write that returned \<open>n\<close> has put exactly the first \<open>n\<close> bytes of its data into
  the pipe and one that failed with EAGAIN none; a read returns end-of-file only when the
  writing end is closed and every byte written has been read.
\<close>

theorem pipe_stream:
  assumes "reach pipe_start pipe_step s"
  shows "delivered s @ pb_contents (pipe_buf (pst s)) = accepted s \<and>
    length (pb_contents (pipe_buf (pst s))) \<le> PIPE_BUF_SIZE \<and>
    (\<forall>t d n. wth s t = Some (WDone d (Inr n)) \<longrightarrow> n \<le> length d \<and> sent s t = take n d) \<and>
    (\<forall>t d. wth s t = Some (WDone d (Inl (-11))) \<longrightarrow> sent s t = []) \<and>
    (\<forall>t buf. rth s t = Some (RDone buf (Inr 0)) \<and> buf \<noteq> [] \<longrightarrow> writers (pst s) = 0 \<and> delivered s = accepted s)"
proof -
  have i: "pipe_inv s" using pipe.reach_inv assms .
  have "wr_ok c (sent s t)" if "wth s t = Some c" for t c
    using i that by (simp add: pipe_inv_def)
  then have w: "\<forall>t d n. wth s t = Some (WDone d (Inr n)) \<longrightarrow> n \<le> length d \<and> sent s t = take n d"
    "\<forall>t d. wth s t = Some (WDone d (Inl (-11))) \<longrightarrow> sent s t = []"
    by fastforce+
  have "rd_ok c (writers (pst s) = 0 \<and> delivered s = accepted s)" if "rth s t = Some c" for t c
    using i that unfolding pipe_inv_def by blast
  then have r: "\<forall>t buf. rth s t = Some (RDone buf (Inr 0)) \<and> buf \<noteq> [] \<longrightarrow> writers (pst s) = 0 \<and> delivered s = accepted s"
    by fastforce
  show ?thesis
    using w r i pipe_fifo.contents_le_cap by (auto simp: pipe_inv_def)
qed

section \<open>A call running alone\<close>

text \<open>At most \<open>n\<close> steps of one call, with no other thread and no signal.\<close>

fun write_run :: "nat \<Rightarrow> wcall \<Rightarrow> pipe_state \<Rightarrow> wcall \<times> u8 list \<times> pipe_state" where
  "write_run 0 c p = (c, [], p)"
| "write_run (Suc n) c p =
     (case write_step False c p of (c1, o1, p1) \<Rightarrow>
      case write_run n c1 p1 of (c2, o2, p2) \<Rightarrow> (c2, o1 @ o2, p2))"

fun read_run :: "nat \<Rightarrow> rcall \<Rightarrow> pipe_state \<Rightarrow> rcall \<times> u8 list \<times> pipe_state" where
  "read_run 0 c p = (c, [], p)"
| "read_run (Suc n) c p =
     (case read_step False c p of (c1, o1, p1) \<Rightarrow>
      case read_run n c1 p1 of (c2, o2, p2) \<Rightarrow> (c2, o1 @ o2, p2))"

lemma write_run_done [simp]: "write_run n (WDone d r) p = (WDone d r, [], p)"
  by (induction n) simp_all

lemma read_run_done [simp]: "read_run n (RDone d r) p = (RDone d r, [], p)"
  by (induction n) simp_all

lemma write_run_reach:
  assumes "reach pipe_start pipe_step s" "wth s t = Some c" "write_run n c (pst s) = (c', new, p)"
  shows "reach pipe_start pipe_step
    (s\<lparr> pst := p, wth := (wth s)(t \<mapsto> c'), accepted := accepted s @ new, sent := (sent s)(t := sent s t @ new) \<rparr>)"
  using assms
proof (induction n arbitrary: s c new)
  case 0
  then show ?case by (cases s) (auto simp: fun_upd_idem)
next
  case (Suc n)
  obtain c1 o1 p1 where 1: "write_step False c (pst s) = (c1, o1, p1)" by (metis prod_cases3)
  obtain o2 where 2: "write_run n c1 p1 = (c', o2, p)" "new = o1 @ o2"
    using Suc.prems(3) 1 by (auto split: prod.splits)
  let ?s = "s\<lparr> pst := p1, wth := (wth s)(t \<mapsto> c1), accepted := accepted s @ o1, sent := (sent s)(t := sent s t @ o1) \<rparr>"
  have "reach pipe_start pipe_step ?s"
    using Suc.prems(1,2) 1 by (auto intro: reach_step pipe_step.intros)
  from Suc.IH [OF this, of c1 o2] 2 show ?case by (simp add: fun_upd_def cong: if_cong)
qed

abbreviation room :: "pipe_state \<Rightarrow> nat" where
  "room p \<equiv> PIPE_BUF_SIZE - length (pb_contents (pipe_buf p))"

lemma push_step:
  assumes "pb_inv (pipe_buf p)" "k < length d"
  shows "\<exists>p'. write_step sig (WPush d k) p =
      (let m = min (length d - k) (room p) in
       (if m = 0 then WNonblock d k else WHead d (k + m), take m (drop k d), p')) \<and>
    pb_inv (pipe_buf p') \<and> pb_contents (pipe_buf p') = pb_contents (pipe_buf p) @ take (min (length d - k) (room p)) (drop k d) \<and>
    readers p' = readers p \<and> writers p' = writers p \<and> rd_nonblock p' = rd_nonblock p \<and> wr_nonblock p' = wr_nonblock p"
proof (cases "pb_is_full (pipe_buf p)")
  case True
  then have "room p = 0" by (simp add: pb_is_full_def pb_len_contents)
  then show ?thesis using True assms by (intro exI [of _ p]) simp
next
  case False
  obtain n b where nb: "pb_push_slice (drop k d) (pipe_buf p) = (n, b)" by fastforce
  note law = pipe_fifo.push_law [OF assms(1) nb]
  show ?thesis using False nb law by (intro exI [of _ "p\<lparr> pipe_buf := b \<rparr>"]) (simp add: Let_def)
qed

lemma write_alone:
  assumes "pb_inv (pipe_buf p)" "d \<noteq> []" "readers p \<noteq> 0" "wr_nonblock p \<or> length d \<le> room p"
    and m_def: "m = min (length d) (room p)"
  shows "\<exists>p'. write_run 6 (write_call d) p = (WDone d (if m = 0 then Inl (-11) else Inr m), take m d, p') \<and>
    pb_inv (pipe_buf p') \<and> pb_contents (pipe_buf p') = pb_contents (pipe_buf p) @ take m d \<and>
    readers p' = readers p \<and> writers p' = writers p \<and> rd_nonblock p' = rd_nonblock p \<and> wr_nonblock p' = wr_nonblock p"
proof -
  have m0: "min (length d - 0) (room p) = m" by (simp add: m_def)
  obtain p1 where p1: "\<And>sig. write_step sig (WPush d 0) p = (if m = 0 then WNonblock d 0 else WHead d m, take m d, p1)"
    "pb_inv (pipe_buf p1)" "pb_contents (pipe_buf p1) = pb_contents (pipe_buf p) @ take m d"
    "readers p1 = readers p" "writers p1 = writers p" "rd_nonblock p1 = rd_nonblock p" "wr_nonblock p1 = wr_nonblock p"
    using push_step [OF assms(1), of 0 d] assms(2) unfolding m0 Let_def by auto
  have room1: "room p1 = room p - m" using p1(3) by (simp add: m_def)
  show ?thesis
  proof (cases "m = 0 \<or> m = length d")
    case True
    have "m = 0 \<Longrightarrow> wr_nonblock p" using assms(2,4) by (auto simp: m_def min_def split: if_splits)
    then show ?thesis
      using True assms(2,3) p1 by (intro exI [of _ p1])
        (cases "m = 0"; simp add: numeral_eq_Suc write_call_def del: write_step.simps(2))
  next
    case False
    then have "m < length d" "room p1 = 0" using room1 by (auto simp: m_def)
    then obtain p2 where p2: "\<And>sig. write_step sig (WPush d m) p1 = (WNonblock d m, [], p2)"
      "pb_inv (pipe_buf p2)" "pb_contents (pipe_buf p2) = pb_contents (pipe_buf p1)"
      "readers p2 = readers p1" "writers p2 = writers p1" "rd_nonblock p2 = rd_nonblock p1" "wr_nonblock p2 = wr_nonblock p1"
      using push_step [OF p1(2), of m d] by (auto simp: Let_def)
    have "wr_nonblock p" using assms(4) False by (auto simp: m_def)
    then show ?thesis
      using False \<open>m < length d\<close> assms(2,3) p1 p2 by (intro exI [of _ p2])
        (simp add: numeral_eq_Suc write_call_def del: write_step.simps(2))
  qed
qed

lemma read_alone:
  assumes "pb_inv (pipe_buf p)" "buf \<noteq> []" "rd_nonblock p"
    and m_def: "m = min (length buf) (length (pb_contents (pipe_buf p)))"
  shows "\<exists>p'. read_run 2 (read_call buf) p =
      (if m = 0 \<and> writers p \<noteq> 0 then RDone buf (Inl (-11))
       else RDone (take m (pb_contents (pipe_buf p)) @ drop m buf) (Inr m),
       take m (pb_contents (pipe_buf p)), p') \<and>
    pb_inv (pipe_buf p') \<and> pb_contents (pipe_buf p') = drop m (pb_contents (pipe_buf p)) \<and>
    readers p' = readers p \<and> writers p' = writers p \<and> rd_nonblock p' = rd_nonblock p \<and> wr_nonblock p' = wr_nonblock p"
proof (cases "pb_is_empty (pipe_buf p)")
  case True
  then have "pb_contents (pipe_buf p) = []" by (simp add: pb_is_empty_def pb_len_contents)
  then show ?thesis
    using True assms by (intro exI [of _ p]) (simp add: numeral_eq_Suc read_call_def)
next
  case False
  obtain n buf' b where nb: "pb_pop_slice buf (pipe_buf p) = (n, buf', b)" by (metis prod_cases3)
  note law = pipe_fifo.pop_law [OF assms(1) nb]
  moreover have "0 < m" using False assms(2) by (simp add: m_def pb_is_empty_def pb_len_contents)
  ultimately show ?thesis
    using False nb assms(2) by (intro exI [of _ "p\<lparr> pipe_buf := b \<rparr>"]) (simp add: numeral_eq_Suc read_call_def m_def)
qed

text \<open>
  C10. Poll tells the truth about the next non-blocking call on a pipe whose buffer is well formed.
  While poll reports \<open>POLLERR\<close> on the write end, a write of a non-empty slice fails with EPIPE and
  transfers nothing. Otherwise a non-blocking write takes as many bytes as there is room for and
  fails with EAGAIN exactly when poll does not report \<open>POLLOUT\<close>. A non-blocking read returns the
  oldest bytes and fails with EAGAIN exactly when poll does not report \<open>POLLIN\<close>.
\<close>

theorem poll_readiness:
  assumes "pb_inv (pipe_buf p)" "d \<noteq> []" "wr_nonblock p" "rd_nonblock p"
  shows "(if wr_poll POLLOUT p AND POLLERR \<noteq> 0 then write_run 6 (write_call d) p = (WDone d (Inl (-32)), [], p)
      else \<exists>p'. write_run 6 (write_call d) p =
        (WDone d (if wr_poll POLLOUT p AND POLLOUT = 0 then Inl (-11) else Inr (min (length d) (room p))),
         take (room p) d, p') \<and> pb_contents (pipe_buf p') = pb_contents (pipe_buf p) @ take (room p) d) \<and>
    (\<exists>n out p'. read_run 2 (read_call d) p = (RDone out n, take (length d) (pb_contents (pipe_buf p)), p') \<and>
       n = (if rd_poll POLLIN p AND POLLIN = 0 then Inl (-11)
            else Inr (min (length d) (length (pb_contents (pipe_buf p))))) \<and>
       pb_contents (pipe_buf p') = drop (length d) (pb_contents (pipe_buf p)))"
proof -
  let ?c = "pb_contents (pipe_buf p)"
  have full: "pb_is_full (pipe_buf p) \<longleftrightarrow> room p = 0"
    using pipe_fifo.contents_le_cap [OF assms(1)] by (auto simp: pb_is_full_def pb_len_contents)
  have e: "wr_poll POLLOUT p AND POLLERR \<noteq> 0 \<longleftrightarrow> readers p = 0"
    by (simp add: wr_poll_def POLLOUT_def POLLERR_def POLLHUP_def Let_def)
  have w: "wr_poll POLLOUT p AND POLLOUT = 0 \<longleftrightarrow> min (length d) (room p) = 0" if "readers p \<noteq> 0"
    using assms(2) that full by (auto simp: wr_poll_def POLLOUT_def)
  have r: "rd_poll POLLIN p AND POLLIN = 0 \<longleftrightarrow> min (length d) (length ?c) = 0 \<and> writers p \<noteq> 0"
    using assms(2) by (auto simp: rd_poll_def POLLIN_def POLLHUP_def Let_def pb_is_empty_def pb_len_contents)
  have tk: "take (min (length d) (room p)) d = take (room p) d"
    "take (min (length d) (length ?c)) ?c = take (length d) ?c" "drop (min (length d) (length ?c)) ?c = drop (length d) ?c"
    by (simp_all add: min_def)
  have "write_run 6 (write_call d) p = (WDone d (Inl (-32)), [], p)" if "readers p = 0"
    using that assms(2) by (simp add: numeral_eq_Suc write_call_def)
  moreover have "\<exists>p1. write_run 6 (write_call d) p =
      (WDone d (if min (length d) (room p) = 0 then Inl (-11) else Inr (min (length d) (room p))), take (room p) d, p1) \<and>
    pb_contents (pipe_buf p1) = ?c @ take (room p) d" if "readers p \<noteq> 0"
    using write_alone [OF assms(1,2) that _ refl] assms(3) unfolding tk by blast
  moreover obtain p2 out n where "read_run 2 (read_call d) p = (RDone out n, take (length d) ?c, p2)"
    "n = (if min (length d) (length ?c) = 0 \<and> writers p \<noteq> 0 then Inl (-11) else Inr (min (length d) (length ?c)))"
    "pb_contents (pipe_buf p2) = drop (length d) ?c"
    using read_alone [OF assms(1,2,4) refl] unfolding tk by (simp split: if_splits) blast+
  ultimately show ?thesis unfolding e r using w by simp
qed

definition nonblocking_pipe :: pipe_state where
  "nonblocking_pipe = set_rd_nonblock True (set_wr_nonblock True make_pipe)"

theorem poll_readiness_witness:
  "\<exists>p'. write_run 6 (write_call [1, 2]) nonblocking_pipe = (WDone [1, 2] (Inr 2), [1, 2], p') \<and>
     pb_contents (pipe_buf p') = [1, 2]"
proof -
  have n: "pipe_buf nonblocking_pipe = pipe_buffer_new" "readers nonblocking_pipe \<noteq> 0"
    "wr_nonblock nonblocking_pipe" "rd_nonblock nonblocking_pipe"
    by (simp_all add: nonblocking_pipe_def make_pipe_def set_rd_nonblock_def set_wr_nonblock_def)
  have "\<not> wr_poll POLLOUT nonblocking_pipe AND POLLOUT = 0"
    using n by (simp add: wr_poll_def pb_is_full_def pipe_buffer_new_def PIPE_BUF_SIZE_def POLLOUT_def)
  moreover have "wr_poll POLLOUT nonblocking_pipe AND POLLERR = 0"
    using n by (simp add: wr_poll_def POLLOUT_def POLLERR_def)
  moreover have "PIPE_BUF_SIZE = Suc (Suc 65534)" by (simp add: PIPE_BUF_SIZE_def)
  ultimately show ?thesis
    using poll_readiness [of nonblocking_pipe "[1, 2]"] n by (auto simp: n)
qed

text \<open>The witness of the stream property: a write that has returned.\<close>

definition pipe_init :: pipe_sys where
  "pipe_init = \<lparr> pst = make_pipe, wth = \<lambda>_. None, rth = \<lambda>_. None, accepted = [], delivered = [], sent = \<lambda>_. [] \<rparr>"

lemma pipe_call_reach:
  assumes "write_run n (write_call d) make_pipe = (c, out, p)"
  shows "\<exists>s. reach pipe_start pipe_step s \<and> wth s 0 = Some c \<and> sent s 0 = out \<and> pst s = p"
proof -
  let ?s = "pipe_init\<lparr> wth := (wth pipe_init)(0 \<mapsto> write_call d), sent := (sent pipe_init)(0 := []) \<rparr>"
  have "reach pipe_start pipe_step pipe_init" by (rule reach_init) (simp add: pipe_start_def pipe_init_def)
  moreover have "pipe_step pipe_init ?s" by (rule start_write) (simp_all add: pipe_init_def make_pipe_def)
  ultimately have "reach pipe_start pipe_step ?s" by (rule reach_step)
  from write_run_reach [OF this, of 0 "write_call d" n c out p] assms show ?thesis
    by (fastforce simp: pipe_init_def)
qed

theorem pipe_stream_witness:
  "\<exists>s. reach pipe_start pipe_step s \<and> wth s 0 = Some (WDone [1, 2, 3] (Inr 3)) \<and> sent s 0 = [1, 2, 3] \<and>
     delivered s @ pb_contents (pipe_buf (pst s)) = accepted s"
proof -
  have r: "room make_pipe = Suc (Suc (Suc 65533))" by (simp add: make_pipe_def PIPE_BUF_SIZE_def)
  obtain p where "write_run 6 (write_call [1, 2, 3]) make_pipe = (WDone [1, 2, 3] (Inr 3), [1, 2, 3], p)"
    using write_alone [of make_pipe "[1, 2, 3]", OF _ _ _ _ refl] r by (auto simp: make_pipe_def)
  then obtain s where s: "reach pipe_start pipe_step s" "wth s 0 = Some (WDone [1, 2, 3] (Inr 3))"
    using pipe_call_reach by blast
  then show ?thesis using pipe_stream [OF s(1)] by auto
qed

lemma write_sleeps:
  assumes "pb_inv (pipe_buf p)" "room p \<noteq> 0" "room p < length d" "readers p \<noteq> 0" "\<not> wr_nonblock p"
  shows "\<exists>p'. write_run 5 (write_call d) p = (WSleep d (room p), take (room p) d, p')"
proof -
  have ne: "0 < length d" using assms(3) by linarith
  obtain p1 where p1: "\<And>sig. write_step sig (WPush d 0) p = (WHead d (room p), take (room p) d, p1)"
    "pb_inv (pipe_buf p1)" "pb_contents (pipe_buf p1) = pb_contents (pipe_buf p) @ take (room p) d"
    "readers p1 = readers p" "wr_nonblock p1 = wr_nonblock p"
    using push_step [OF assms(1) ne] assms(2,3) by (auto simp: Let_def min_def)
  then have "room p1 = 0" using assms(3) by (simp add: min_def)
  then obtain p2 where "\<And>sig. write_step sig (WPush d (room p)) p1 = (WNonblock d (room p), [], p2)"
    "wr_nonblock p2 = wr_nonblock p1"
    using push_step [OF p1(2) assms(3)] by (auto simp: Let_def)
  then show ?thesis
    using assms p1 by (intro exI [of _ p2]) (auto simp: numeral_eq_Suc write_call_def simp del: write_step.simps(2))
qed

text \<open>
  A blocking write that a signal interrupts while it waits for room returns EINTR even when
  part of its data is already in the pipe: the caller is told that nothing was written, and a
  retry of the call sends the first 64 KiB again.
\<close>

theorem write_interrupted_after_transfer:
  "\<exists>s d. reach pipe_start pipe_step s \<and> wth s 0 = Some (WDone d (Inl (-4))) \<and>
     length d = PIPE_BUF_SIZE + 1 \<and> sent s 0 = take PIPE_BUF_SIZE d"
proof -
  define d :: "u8 list" where "d = replicate (PIPE_BUF_SIZE + 1) 7"
  have "room make_pipe = PIPE_BUF_SIZE" by (simp add: make_pipe_def)
  then obtain p where "write_run 5 (write_call d) make_pipe = (WSleep d PIPE_BUF_SIZE, take PIPE_BUF_SIZE d, p)"
    using write_sleeps [of make_pipe d] by (auto simp: make_pipe_def d_def)
  then obtain s where s: "reach pipe_start pipe_step s" "wth s 0 = Some (WSleep d PIPE_BUF_SIZE)"
    "sent s 0 = take PIPE_BUF_SIZE d"
    using pipe_call_reach by blast
  let ?t = "s\<lparr> pst := pst s, wth := (wth s)(0 \<mapsto> WDone d (Inl (-4))), accepted := accepted s @ [],
              sent := (sent s)(0 := sent s 0 @ []) \<rparr>"
  have "pipe_step s ?t" by (rule do_write [of s 0 _ True]) (use s in auto)
  then have "reach pipe_start pipe_step ?t" using s(1) by (auto intro: reach_step)
  then show ?thesis using s(3) by (intro exI [of _ ?t] exI [of _ d]) (simp add: d_def)
qed

section \<open>Socket pairs\<close>

text \<open>
  A \<open>UnixSocket\<close> names the pipe it reads and the pipe it writes; \<open>make_socketpair\<close> crosses two
  pipes. The second component of the result is the state of the two pipes.
\<close>

record unix_socket =
  us_reader :: nat
  us_writer :: nat

definition make_socketpair :: "bool \<Rightarrow> unix_socket \<times> unix_socket \<times> (nat \<Rightarrow> pipe_state)" where
  "make_socketpair nonblock =
     (let p = (if nonblock then set_wr_nonblock True (set_rd_nonblock True make_pipe) else make_pipe)
      in (\<lparr> us_reader = 1, us_writer = 2 \<rparr>, \<lparr> us_reader = 2, us_writer = 1 \<rparr>, \<lambda>_. p))"

definition us_write :: "nat \<Rightarrow> unix_socket \<Rightarrow> u8 list \<Rightarrow> (nat \<Rightarrow> pipe_state) \<Rightarrow> wcall \<times> (nat \<Rightarrow> pipe_state)" where
  "us_write n k data ps = (case write_run n (write_call data) (ps (us_writer k)) of
     (c, _, p) \<Rightarrow> (c, ps(us_writer k := p)))"

definition us_read :: "nat \<Rightarrow> unix_socket \<Rightarrow> u8 list \<Rightarrow> (nat \<Rightarrow> pipe_state) \<Rightarrow> rcall \<times> (nat \<Rightarrow> pipe_state)" where
  "us_read n k buf ps = (case read_run n (read_call buf) (ps (us_reader k)) of
     (c, _, p) \<Rightarrow> (c, ps(us_reader k := p)))"

definition us_poll :: "unix_socket \<Rightarrow> u32 \<Rightarrow> (nat \<Rightarrow> pipe_state) \<Rightarrow> u32" where
  "us_poll k events ps = rd_poll events (ps (us_reader k)) OR wr_poll events (ps (us_writer k))"

definition us_set_nonblocking :: "unix_socket \<Rightarrow> bool \<Rightarrow> (nat \<Rightarrow> pipe_state) \<Rightarrow> nat \<Rightarrow> pipe_state" where
  "us_set_nonblocking k nb ps =
     (let ps1 = ps(us_reader k := set_rd_nonblock nb (ps (us_reader k)))
      in ps1(us_writer k := set_wr_nonblock nb (ps1 (us_writer k))))"

text \<open>
  A non-blocking socket pair is crossed correctly: what one socket writes (up to the pipe
  size) is what the other reads, in both directions at once, and neither socket reads back its
  own data.
\<close>

theorem socketpair_crossed:
  assumes "d1 \<noteq> []" "length d1 \<le> PIPE_BUF_SIZE" "d2 \<noteq> []" "length d2 \<le> PIPE_BUF_SIZE"
    and "make_socketpair True = (a, b, ps)" "length b1 = length d2" "length b2 = length d1"
  shows "case us_write 6 a d1 ps of (w1, ps1) \<Rightarrow> case us_write 6 b d2 ps1 of (w2, ps2) \<Rightarrow>
    case us_read 2 a b1 ps2 of (r1, ps3) \<Rightarrow> case us_read 2 b b2 ps3 of (r2, ps4) \<Rightarrow>
      w1 = WDone d1 (Inr (length d1)) \<and> w2 = WDone d2 (Inr (length d2)) \<and>
      r1 = RDone d2 (Inr (length d2)) \<and> r2 = RDone d1 (Inr (length d1))"
proof -
  let ?p = "set_wr_nonblock True (set_rd_nonblock True make_pipe)"
  have ab: "a = \<lparr> us_reader = 1, us_writer = 2 \<rparr>" "b = \<lparr> us_reader = 2, us_writer = 1 \<rparr>" "ps = (\<lambda>_. ?p)"
    using assms(5) by (auto simp: make_socketpair_def)
  have n: "pipe_buf ?p = pipe_buffer_new" "readers ?p \<noteq> 0" "wr_nonblock ?p" "rd_nonblock ?p"
    by (simp_all add: make_pipe_def set_rd_nonblock_def set_wr_nonblock_def)
  have w: "\<exists>p'. write_run 6 (write_call d) ?p = (WDone d (Inr (length d)), d, p') \<and> pb_inv (pipe_buf p') \<and>
      pb_contents (pipe_buf p') = d \<and> rd_nonblock p'" if "d \<noteq> []" "length d \<le> PIPE_BUF_SIZE" for d
    using write_alone [of ?p d, OF _ that(1) n(2) _ refl] n that by (auto simp: min_absorb1)
  have r: "\<exists>p'. read_run 2 (read_call buf) p = (RDone d (Inr (length d)), d, p')"
    if "pb_inv (pipe_buf p)" "pb_contents (pipe_buf p) = d" "rd_nonblock p" "d \<noteq> []" "length buf = length d" for p d buf
  proof -
    have "buf \<noteq> []" using that(4,5) by auto
    from read_alone [OF that(1) this that(3) refl] that show ?thesis by auto
  qed
  obtain q1 where q1: "write_run 6 (write_call d1) ?p = (WDone d1 (Inr (length d1)), d1, q1)"
    "pb_inv (pipe_buf q1)" "pb_contents (pipe_buf q1) = d1" "rd_nonblock q1" using w assms by blast
  obtain q2 where q2: "write_run 6 (write_call d2) ?p = (WDone d2 (Inr (length d2)), d2, q2)"
    "pb_inv (pipe_buf q2)" "pb_contents (pipe_buf q2) = d2" "rd_nonblock q2" using w assms by blast
  obtain q3 where "read_run 2 (read_call b1) q2 = (RDone d2 (Inr (length d2)), d2, q3)"
    using r [OF q2(2,3,4) assms(3,6)] by blast
  moreover obtain q4 where "read_run 2 (read_call b2) q1 = (RDone d1 (Inr (length d1)), d1, q4)"
    using r [OF q1(2,3,4) assms(1,7)] by blast
  ultimately show ?thesis
    using q1(1) q2(1) by (simp add: ab us_write_def us_read_def)
qed

theorem socketpair_crossed_witness:
  "case make_socketpair True of (a, b, ps) \<Rightarrow>
   case us_write 6 a [1, 2] ps of (w1, ps1) \<Rightarrow> case us_write 6 b [3] ps1 of (w2, ps2) \<Rightarrow>
   case us_read 2 a [0] ps2 of (r1, ps3) \<Rightarrow> case us_read 2 b [0, 0] ps3 of (r2, ps4) \<Rightarrow>
     w1 = WDone [1, 2] (Inr 2) \<and> r1 = RDone [3] (Inr 1) \<and> r2 = RDone [1, 2] (Inr 2)"
proof -
  obtain a b ps where m: "make_socketpair True = (a, b, ps)" by (metis prod_cases3)
  show ?thesis
    using socketpair_crossed [OF _ _ _ _ m, of "[1, 2]" "[3]" "[0]" "[0, 0]"]
    by (auto simp: m PIPE_BUF_SIZE_def split: prod.splits)
qed

end
