(* ===== verification/Block_Device.thy ===== *)
theory Block_Device
  imports Kernel_Prelude
begin

text \<open>
  Block devices: the \<open>BlockDevice\<close> trait (\<open>drivers/traits.rs\<close>) as a record of operations and as
  an interface with laws, and the RAM disk (\<open>drivers/ramdisk.rs\<close>) that implements it.
\<close>

datatype driver_error =
    NotSupported | IoError | NotReady | Busy | InvalidParam | OutOfMemory | Timeout | NotFound | PermissionDenied

text \<open>The operations of the trait on a device state \<open>'d\<close>; a read is given the buffer length.\<close>

record 'd block_dev =
  dev_read :: "u64 \<Rightarrow> nat \<Rightarrow> 'd \<Rightarrow> (driver_error + u8 list) \<times> 'd"
  dev_write :: "u64 \<Rightarrow> u8 list \<Rightarrow> 'd \<Rightarrow> (driver_error + unit) \<times> 'd"
  dev_flush :: "'d \<Rightarrow> (driver_error + unit) \<times> 'd"
  dev_block_size :: nat
  dev_block_count :: "'d \<Rightarrow> nat"

section \<open>The contract\<close>

text \<open>
  \<open>view d b\<close> is the contents of block \<open>b\<close>. Accesses within the device succeed; a read returns the
  contents, a write replaces them, a flush keeps them.
\<close>

definition blocks_of :: "(nat \<Rightarrow> u8 list) \<Rightarrow> nat \<Rightarrow> nat \<Rightarrow> u8 list" where
  "blocks_of v b n = concat (map v [b..<b + n])"

definition put_blocks :: "nat \<Rightarrow> nat \<Rightarrow> u8 list \<Rightarrow> (nat \<Rightarrow> u8 list) \<Rightarrow> nat \<Rightarrow> u8 list" where
  "put_blocks bs b data v k =
     (if b \<le> k \<and> k < b + length data div bs then subslice ((k - b) * bs) bs data else v k)"

locale block_store =
  fixes dev :: "'d block_dev" and wf :: "'d \<Rightarrow> bool" and view :: "'d \<Rightarrow> nat \<Rightarrow> u8 list"
  assumes size_pos: "0 < dev_block_size dev"
    and count_bound: "wf d \<Longrightarrow> dev_block_count dev d < 2 ^ 64"
    and view_size: "wf d \<Longrightarrow> k < dev_block_count dev d \<Longrightarrow> length (view d k) = dev_block_size dev"
    and read_one_law: "wf d \<Longrightarrow> unat b < dev_block_count dev d \<Longrightarrow>
      \<exists>d'. dev_read dev b (dev_block_size dev) d = (Inr (view d (unat b)), d') \<and>
        wf d' \<and> dev_block_count dev d' = dev_block_count dev d \<and>
        (\<forall>k < dev_block_count dev d. view d' k = view d k)"
    and write_law: "wf d \<Longrightarrow> length data = n * dev_block_size dev \<Longrightarrow> unat b + n \<le> dev_block_count dev d \<Longrightarrow>
      \<exists>d'. dev_write dev b data d = (Inr (), d') \<and> wf d' \<and> dev_block_count dev d' = dev_block_count dev d \<and>
        (\<forall>k < dev_block_count dev d. view d' k = put_blocks (dev_block_size dev) (unat b) data (view d) k)"
    and flush_law: "wf d \<Longrightarrow> \<exists>d'. dev_flush dev d = (Inr (), d') \<and> wf d' \<and>
        dev_block_count dev d' = dev_block_count dev d \<and> (\<forall>k < dev_block_count dev d. view d' k = view d k)"

text \<open>A device that also reads runs of blocks with one access.\<close>

locale block_device = block_store dev wf view
  for dev :: "'d block_dev" and wf :: "'d \<Rightarrow> bool" and view :: "'d \<Rightarrow> nat \<Rightarrow> u8 list" +
  assumes read_law: "wf d \<Longrightarrow> unat b + n \<le> dev_block_count dev d \<Longrightarrow>
      \<exists>d'. dev_read dev b (n * dev_block_size dev) d = (Inr (blocks_of (view d) (unat b) n), d') \<and>
        wf d' \<and> dev_block_count dev d' = dev_block_count dev d \<and>
        (\<forall>k < dev_block_count dev d. view d' k = view d k)"

text \<open>A sequence of accesses, on a device and on an abstract array of blocks.\<close>

datatype blk_op = ReadBlock u64 | WriteBlocks u64 "u8 list" | FlushBlocks

fun dev_run :: "'d block_dev \<Rightarrow> blk_op list \<Rightarrow> 'd \<Rightarrow> (driver_error + u8 list) list \<times> 'd" where
  "dev_run dev [] d = ([], d)"
| "dev_run dev (ReadBlock b # ops) d =
     (case dev_read dev b (dev_block_size dev) d of (r, d1) \<Rightarrow>
      case dev_run dev ops d1 of (rs, d2) \<Rightarrow> (r # rs, d2))"
| "dev_run dev (WriteBlocks b data # ops) d =
     (case dev_write dev b data d of (r, d1) \<Rightarrow>
      case dev_run dev ops d1 of (rs, d2) \<Rightarrow> (map_sum id (\<lambda>_. []) r # rs, d2))"
| "dev_run dev (FlushBlocks # ops) d =
     (case dev_flush dev d of (r, d1) \<Rightarrow>
      case dev_run dev ops d1 of (rs, d2) \<Rightarrow> (map_sum id (\<lambda>_. []) r # rs, d2))"

fun array_run :: "nat \<Rightarrow> blk_op list \<Rightarrow> (nat \<Rightarrow> u8 list) \<Rightarrow> (driver_error + u8 list) list \<times> (nat \<Rightarrow> u8 list)" where
  "array_run bs [] v = ([], v)"
| "array_run bs (ReadBlock b # ops) v =
     (case array_run bs ops v of (rs, v') \<Rightarrow> (Inr (v (unat b)) # rs, v'))"
| "array_run bs (WriteBlocks b data # ops) v =
     (case array_run bs ops (put_blocks bs (unat b) data v) of (rs, v') \<Rightarrow> (Inr [] # rs, v'))"
| "array_run bs (FlushBlocks # ops) v = (case array_run bs ops v of (rs, v') \<Rightarrow> (Inr [] # rs, v'))"

text \<open>Accesses that stay within the device and transfer whole blocks.\<close>

fun op_fits :: "nat \<Rightarrow> nat \<Rightarrow> blk_op \<Rightarrow> bool" where
  "op_fits bs cnt (ReadBlock b) = (unat b < cnt)"
| "op_fits bs cnt (WriteBlocks b data) = (bs dvd length data \<and> unat b + length data div bs \<le> cnt)"
| "op_fits bs cnt FlushBlocks = True"

lemma put_blocks_cong: "v k = w k \<Longrightarrow> put_blocks bs b data v k = put_blocks bs b data w k"
  by (simp add: put_blocks_def)

lemma array_run_cong:
  assumes "\<forall>k < c. v k = w k" "\<forall>x \<in> set ops. op_fits bs c x"
  shows "fst (array_run bs ops v) = fst (array_run bs ops w) \<and>
    (\<forall>k < c. snd (array_run bs ops v) k = snd (array_run bs ops w) k)"
  using assms
proof (induction ops arbitrary: v w)
  case (Cons x ops)
  show ?case
  proof (cases x)
    case (ReadBlock b)
    then have "v (unat b) = w (unat b)" using Cons.prems by auto
    then show ?thesis using Cons.IH [of v w] Cons.prems ReadBlock by (auto split: prod.splits)
  next
    case (WriteBlocks b data)
    have "\<forall>k < c. put_blocks bs (unat b) data v k = put_blocks bs (unat b) data w k"
      using Cons.prems(1) by (auto intro: put_blocks_cong)
    from Cons.IH [OF this] Cons.prems WriteBlocks show ?thesis by (auto split: prod.splits)
  next
    case FlushBlocks
    then show ?thesis using Cons.IH [of v w] Cons.prems by (auto split: prod.splits)
  qed
qed simp

context block_store
begin

text \<open>Every device that meets the contract behaves as the array of its blocks.\<close>

lemma run_array:
  assumes "wf d" "\<forall>x \<in> set ops. op_fits (dev_block_size dev) (dev_block_count dev d) x"
  shows "\<exists>d'. dev_run dev ops d = (fst (array_run (dev_block_size dev) ops (view d)), d') \<and> wf d' \<and>
    dev_block_count dev d' = dev_block_count dev d \<and>
    (\<forall>k < dev_block_count dev d. view d' k = snd (array_run (dev_block_size dev) ops (view d)) k)"
  using assms
proof (induction ops arbitrary: d)
  case (Cons x ops)
  let ?bs = "dev_block_size dev" and ?c = "dev_block_count dev d"
  have step: "\<exists>d2. dev_run dev ops d1 = (fst (array_run ?bs ops v), d2) \<and> wf d2 \<and> dev_block_count dev d2 = ?c \<and>
      (\<forall>k < ?c. view d2 k = snd (array_run ?bs ops v) k)"
    if "wf d1" "dev_block_count dev d1 = ?c" "\<forall>k < ?c. view d1 k = v k" for d1 v
    using Cons.IH [OF that(1)] Cons.prems(2) that(2) array_run_cong [OF that(3), of ops ?bs] by fastforce
  show ?case
  proof (cases x)
    case (ReadBlock b)
    then obtain d1 where "dev_read dev b ?bs d = (Inr (view d (unat b)), d1)"
      "wf d1" "dev_block_count dev d1 = ?c" "\<forall>k < ?c. view d1 k = view d k"
      using read_one_law [OF Cons.prems(1), of b] Cons.prems(2) by auto
    with step [OF this(2,3,4)] ReadBlock show ?thesis by (auto split: prod.splits)
  next
    case (WriteBlocks b data)
    then obtain n where "length data = n * ?bs" "unat b + n \<le> ?c"
      using Cons.prems(2) size_pos by (auto simp: dvd_def mult.commute)
    then obtain d1 where "dev_write dev b data d = (Inr (), d1)" "wf d1" "dev_block_count dev d1 = ?c"
      "\<forall>k < ?c. view d1 k = put_blocks ?bs (unat b) data (view d) k"
      using write_law [OF Cons.prems(1), of data n b] by auto
    with step [OF this(2,3,4)] WriteBlocks show ?thesis by (auto split: prod.splits)
  next
    case FlushBlocks
    obtain d1 where "dev_flush dev d = (Inr (), d1)" "wf d1" "dev_block_count dev d1 = ?c"
      "\<forall>k < ?c. view d1 k = view d k"
      using flush_law [OF Cons.prems(1)] by auto
    with step [OF this(2,3,4)] FlushBlocks show ?thesis by (auto split: prod.splits)
  qed
qed simp

end

section \<open>The RAM disk\<close>

text \<open>
  A block number times 512 wraps at 64 bits, as in the code. Offset and length are then added without
  bound: where the sum of the code exceeds 64 bits it panics, here the request is refused.
\<close>

record ram_disk =
  disk_data :: "u8 list"

definition ram_offset :: "u64 \<Rightarrow> nat" where
  "ram_offset block = unat (block * 512)"

definition ram_read_block :: "u64 \<Rightarrow> nat \<Rightarrow> ram_disk \<Rightarrow> (driver_error + u8 list) \<times> ram_disk" where
  "ram_read_block block len d =
     (let offset = ram_offset block in
      if offset + len > length (disk_data d) then (Inl InvalidParam, d)
      else (Inr (subslice offset len (disk_data d)), d))"

definition ram_write_block :: "u64 \<Rightarrow> u8 list \<Rightarrow> ram_disk \<Rightarrow> (driver_error + unit) \<times> ram_disk" where
  "ram_write_block block data d =
     (let offset = ram_offset block in
      if offset + length data > length (disk_data d) then (Inl InvalidParam, d)
      else (Inr (), d\<lparr> disk_data := copy_at offset data (disk_data d) \<rparr>))"

definition ram_block_count :: "ram_disk \<Rightarrow> nat" where
  "ram_block_count d = length (disk_data d) div 512"

definition ram_dev :: "ram_disk block_dev" where
  "ram_dev = \<lparr> dev_read = ram_read_block, dev_write = ram_write_block, dev_flush = (\<lambda>d. (Inr (), d)),
               dev_block_size = 512, dev_block_count = ram_block_count \<rparr>"

text \<open>A vector holds at most \<open>isize::MAX\<close> bytes.\<close>

definition ram_wf :: "ram_disk \<Rightarrow> bool" where
  "ram_wf d \<longleftrightarrow> length (disk_data d) < 2 ^ 63"

definition ram_view :: "ram_disk \<Rightarrow> nat \<Rightarrow> u8 list" where
  "ram_view d b = subslice (b * 512) 512 (disk_data d)"

lemma ram_offset_small:
  assumes "unat b * 512 < 2 ^ 64"
  shows "ram_offset b = unat b * 512"
  unfolding ram_offset_def using assms by (simp add: unat_word_ariths)

lemma subslice_concat:
  assumes "(b + n) * s \<le> length xs"
  shows "subslice (b * s) (n * s) xs = concat (map (\<lambda>k. subslice (k * s) s xs) [b..<b + n])"
  using assms
proof (induction n arbitrary: b)
  case (Suc n)
  have "subslice (b * s) (Suc n * s) xs = subslice (b * s) s xs @ subslice (Suc b * s) (n * s) xs"
    by (simp add: subslice_def take_add add.commute)
  also have "subslice (Suc b * s) (n * s) xs = concat (map (\<lambda>k. subslice (k * s) s xs) [Suc b..<Suc b + n])"
    using Suc.prems by (intro Suc.IH) simp
  also have "[b..<b + Suc n] = b # [Suc b..<Suc b + n]" by (simp add: upt_conv_Cons)
  ultimately show ?case by simp
qed simp

lemma subslice_copy_at:
  assumes "i + length src \<le> length xs" "j + n \<le> length xs"
  shows "j + n \<le> i \<or> i + length src \<le> j \<Longrightarrow> subslice j n (copy_at i src xs) = subslice j n xs"
    "i \<le> j \<Longrightarrow> j + n \<le> i + length src \<Longrightarrow> subslice j n (copy_at i src xs) = subslice (j - i) n src"
  using assms by (auto simp: array_simps intro!: nth_equalityI)

lemma ram_block_fits:
  assumes "ram_wf d" "b + n \<le> ram_block_count d"
  shows "(b + n) * 512 \<le> length (disk_data d)" "b * 512 + n * 512 < 2 ^ 64"
proof -
  have "(b + n) * 512 \<le> ram_block_count d * 512" using assms(2) by (rule mult_le_mono1)
  also have "\<dots> \<le> length (disk_data d)" by (simp add: ram_block_count_def)
  finally show "(b + n) * 512 \<le> length (disk_data d)" .
  then show "b * 512 + n * 512 < 2 ^ 64" using assms(1) by (simp add: ram_wf_def algebra_simps)
qed

lemma ram_view_write:
  assumes "length data = n * 512" "(b + n) * 512 \<le> length xs" "(k + 1) * 512 \<le> length xs"
  shows "subslice (k * 512) 512 (copy_at (b * 512) data xs) =
    put_blocks 512 b data (\<lambda>k. subslice (k * 512) 512 xs) k"
proof (cases "b \<le> k \<and> k < b + n")
  case True
  then have "b * 512 \<le> k * 512" "k * 512 + 512 \<le> b * 512 + n * 512" by simp_all
  then show ?thesis
    using assms True by (subst subslice_copy_at(2)) (auto simp: put_blocks_def diff_mult_distrib)
next
  case False
  then have "k * 512 + 512 \<le> b * 512 \<or> b * 512 + n * 512 \<le> k * 512" by linarith
  then show ?thesis
    using assms False by (subst subslice_copy_at(1)) (auto simp: put_blocks_def)
qed

interpretation ram: block_device ram_dev ram_wf ram_view
proof
  show "0 < dev_block_size ram_dev" by (simp add: ram_dev_def)
  fix d assume wf: "ram_wf d"
  then show "dev_block_count ram_dev d < 2 ^ 64" by (simp add: ram_dev_def ram_wf_def ram_block_count_def)
  show "\<exists>d'. dev_flush ram_dev d = (Inr (), d') \<and> ram_wf d' \<and> dev_block_count ram_dev d' = dev_block_count ram_dev d \<and>
      (\<forall>k < dev_block_count ram_dev d. ram_view d' k = ram_view d k)"
    using wf by (simp add: ram_dev_def)
  show "length (ram_view d k) = dev_block_size ram_dev" if "k < dev_block_count ram_dev d" for k
    using ram_block_fits(1) [OF wf, of k 1] that by (simp add: ram_dev_def ram_view_def length_subslice)
  show "\<exists>d'. dev_read ram_dev b (dev_block_size ram_dev) d = (Inr (ram_view d (unat b)), d') \<and>
      ram_wf d' \<and> dev_block_count ram_dev d' = dev_block_count ram_dev d \<and>
      (\<forall>k < dev_block_count ram_dev d. ram_view d' k = ram_view d k)" if "unat b < dev_block_count ram_dev d" for b
    using ram_block_fits [OF wf, of "unat b" 1] that wf
    by (auto simp: ram_dev_def ram_read_block_def ram_offset_small ram_view_def)
  fix b :: u64 and n assume fits: "unat b + n \<le> dev_block_count ram_dev d"
  note ok = ram_block_fits [OF wf, of "unat b" n]
  have off: "ram_offset b = unat b * 512" "\<not> unat b * 512 + n * 512 > length (disk_data d)"
    using ok fits by (auto simp: ram_dev_def algebra_simps intro!: ram_offset_small)
  show "\<exists>d'. dev_read ram_dev b (n * dev_block_size ram_dev) d = (Inr (blocks_of (ram_view d) (unat b) n), d') \<and>
      ram_wf d' \<and> dev_block_count ram_dev d' = dev_block_count ram_dev d \<and>
      (\<forall>k < dev_block_count ram_dev d. ram_view d' k = ram_view d k)"
    using wf off subslice_concat [of "unat b" n 512 "disk_data d"] ok fits
    by (simp add: ram_dev_def ram_read_block_def blocks_of_def ram_view_def [abs_def])
  fix data :: "u8 list" assume len: "length data = n * dev_block_size ram_dev"
  let ?d = "d\<lparr> disk_data := copy_at (unat b * 512) data (disk_data d) \<rparr>"
  have l: "length (disk_data ?d) = length (disk_data d)" using len off by (simp add: ram_dev_def length_copy_at)
  have "ram_view ?d k = put_blocks 512 (unat b) data (ram_view d) k" if "k < ram_block_count d" for k
    using ram_view_write [of data n "unat b" "disk_data d" k] ram_block_fits(1) [OF wf, of k 1] that len ok fits
    by (simp add: ram_view_def [abs_def] ram_dev_def)
  then show "\<exists>d'. dev_write ram_dev b data d = (Inr (), d') \<and> ram_wf d' \<and>
      dev_block_count ram_dev d' = dev_block_count ram_dev d \<and>
      (\<forall>k < dev_block_count ram_dev d. ram_view d' k = put_blocks (dev_block_size ram_dev) (unat b) data (ram_view d) k)"
    using wf len off l by (intro exI [of _ ?d]) (simp add: ram_dev_def ram_write_block_def ram_wf_def ram_block_count_def)
qed

end
