(* ===== verification/Block_Cache.thy ===== *)
theory Block_Cache
  imports Block_Device "HOL-Library.AList"
begin

text \<open>
  The block cache (\<open>drivers/block/cache.rs\<close>): a write-back cache with second-chance eviction in
  front of any block device. The cache over a device that meets the contract of
  \<open>Block_Device\<close> meets it again; the concurrent read path is split into its two locked phases.
\<close>

section \<open>State and operations\<close>

record cache_entry =
  ce_data :: "u8 list"
  referenced :: bool
  dirty :: bool

text \<open>The \<open>BTreeMap\<close> is an association list with distinct keys; nothing depends on its order.\<close>

record block_cache =
  entries :: "(u64 \<times> cache_entry) list"
  fifo_queue :: "u64 list"
  dirty_count :: nat

definition block_cache_new :: block_cache where
  "block_cache_new = \<lparr> entries = [], fifo_queue = [], dirty_count = 0 \<rparr>"

definition find_entry :: "block_cache \<Rightarrow> u64 \<Rightarrow> cache_entry option" where
  "find_entry c b = map_of (entries c) b"

definition set_entry :: "u64 \<Rightarrow> cache_entry \<Rightarrow> block_cache \<Rightarrow> block_cache" where
  "set_entry b e c = c\<lparr> entries := AList.update b e (entries c) \<rparr>"

definition del_entry :: "u64 \<Rightarrow> block_cache \<Rightarrow> block_cache" where
  "del_entry b c = c\<lparr> entries := AList.delete b (entries c) \<rparr>"

lemma update_referenced:
  "map_of al b = Some e \<Longrightarrow> P e \<Longrightarrow> \<not> P e' \<Longrightarrow>
     length (filter (\<lambda>(k, v). P v) (AList.update b e' al)) < length (filter (\<lambda>(k, v). P v) al)"
  by (induction al) (auto split: if_splits)

text \<open>\<open>BlockCacheInner::evict_one\<close>.\<close>

function evict_one :: "nat \<Rightarrow> block_cache \<Rightarrow> (u64 \<times> u8 list) option \<times> block_cache" where
  "evict_one max_blocks c =
     (if length (entries c) \<ge> max_blocks then
        case fifo_queue c of
          [] \<Rightarrow> (None, c)
        | b # q \<Rightarrow>
            (case find_entry c b of
               None \<Rightarrow> evict_one max_blocks (c\<lparr> fifo_queue := q \<rparr>)
             | Some e \<Rightarrow>
                 if referenced e
                 then evict_one max_blocks ((set_entry b (e\<lparr> referenced := False \<rparr>) c)\<lparr> fifo_queue := q @ [b] \<rparr>)
                 else let c' = (del_entry b c)\<lparr> fifo_queue := q \<rparr>
                      in if dirty e then (Some (b, ce_data e), c'\<lparr> dirty_count := dirty_count c - 1 \<rparr>)
                         else (None, c'))
      else (None, c))"
  by pat_completeness auto
termination
proof (relation "measure (\<lambda>(m, c). length (fifo_queue c) + length (filter (\<lambda>(k, v). referenced v) (entries c)))", goal_cases)
  case (3 m c b q e)
  then show ?case
    using update_referenced [of "entries c" b e referenced "e\<lparr> referenced := False \<rparr>"]
    by (simp add: find_entry_def set_entry_def)
qed auto

declare evict_one.simps [simp del]

text \<open>
  The memory a call runs with: whether its buffer is sector aligned and whether the heap has
  room for an aligned copy.
\<close>

record mem_env =
  aligned :: bool
  heap_ok :: bool

definition write_device_aligned ::
  "'d block_dev \<Rightarrow> mem_env \<Rightarrow> u64 \<Rightarrow> u8 list \<Rightarrow> 'd \<Rightarrow> (driver_error + unit) \<times> 'd" where
  "write_device_aligned dev env block data d =
     (if aligned env then dev_write dev block data d
      else if length data \<le> 4096 then dev_write dev block data d
      else if heap_ok env then dev_write dev block data d
      else (Inl IoError, d))"

text \<open>The branches of the eviction loop.\<close>

lemma evict_branches:
  "length (entries c) < m \<Longrightarrow> evict_one m c = (None, c)"
  "fifo_queue c = [] \<Longrightarrow> evict_one m c = (None, c)"
  "m \<le> length (entries c) \<Longrightarrow> fifo_queue c = b # q \<Longrightarrow> find_entry c b = None \<Longrightarrow>
     evict_one m c = evict_one m (c\<lparr> fifo_queue := q \<rparr>)"
  "m \<le> length (entries c) \<Longrightarrow> fifo_queue c = b # q \<Longrightarrow> find_entry c b = Some e \<Longrightarrow> referenced e \<Longrightarrow>
     evict_one m c = evict_one m ((set_entry b (e\<lparr> referenced := False \<rparr>) c)\<lparr> fifo_queue := q @ [b] \<rparr>)"
  "m \<le> length (entries c) \<Longrightarrow> fifo_queue c = b # q \<Longrightarrow> find_entry c b = Some e \<Longrightarrow> \<not> referenced e \<Longrightarrow> dirty e \<Longrightarrow>
     evict_one m c = (Some (b, ce_data e), (del_entry b c)\<lparr> fifo_queue := q, dirty_count := dirty_count c - 1 \<rparr>)"
  "m \<le> length (entries c) \<Longrightarrow> fifo_queue c = b # q \<Longrightarrow> find_entry c b = Some e \<Longrightarrow> \<not> referenced e \<Longrightarrow> \<not> dirty e \<Longrightarrow>
     evict_one m c = (None, (del_entry b c)\<lparr> fifo_queue := q \<rparr>)"
  by (subst evict_one.simps, simp split: if_splits)+

lemma evict_induct [case_names keep stale second out]:
  assumes "\<And>m c. length (entries c) < m \<or> fifo_queue c = [] \<Longrightarrow> P m c"
    and "\<And>m c b q. m \<le> length (entries c) \<Longrightarrow> fifo_queue c = b # q \<Longrightarrow> find_entry c b = None \<Longrightarrow>
      P m (c\<lparr> fifo_queue := q \<rparr>) \<Longrightarrow> P m c"
    and "\<And>m c b q e. m \<le> length (entries c) \<Longrightarrow> fifo_queue c = b # q \<Longrightarrow> find_entry c b = Some e \<Longrightarrow> referenced e \<Longrightarrow>
      P m ((set_entry b (e\<lparr> referenced := False \<rparr>) c)\<lparr> fifo_queue := q @ [b] \<rparr>) \<Longrightarrow> P m c"
    and "\<And>m c b q e. m \<le> length (entries c) \<Longrightarrow> fifo_queue c = b # q \<Longrightarrow> find_entry c b = Some e \<Longrightarrow> \<not> referenced e \<Longrightarrow> P m c"
  shows "P m c"
proof (induction m c rule: evict_one.induct)
  case (1 m c)
  show ?case
  proof (cases "length (entries c) < m \<or> fifo_queue c = []")
    case False
    then obtain b q where q: "m \<le> length (entries c)" "fifo_queue c = b # q" by (cases "fifo_queue c") auto
    show ?thesis
    proof (cases "find_entry c b")
      case None
      then show ?thesis using assms(2) [OF q None] 1(1) q by simp
    next
      case (Some e)
      then show ?thesis using assms(3) [OF q Some] assms(4) [OF q Some] 1(2) q by (cases "referenced e") simp_all
    qed
  qed (rule assms(1))
qed

lemma length_update_present: "map_of al b = Some e \<Longrightarrow> length (AList.update b v al) = length al"
  by (induction al) (auto split: if_splits)

lemma length_update_entry: "find_entry c b = Some e \<Longrightarrow> length (AList.update b v (entries c)) = length (entries c)"
  unfolding find_entry_def by (rule length_update_present)

lemma length_delete_entry: "find_entry c b = Some e \<Longrightarrow> length (AList.delete b (entries c)) < length (entries c)"
  by (auto simp: find_entry_def AList.delete_eq dest!: map_of_SomeD intro!: length_filter_less)

lemma evict_shrinks: "evict_one m c = (Some x, c') \<Longrightarrow> length (entries c') < length (entries c)"
proof (induction m c rule: evict_induct)
  case (second m c b q e)
  then show ?case by (simp add: evict_branches(4) set_entry_def length_update_entry)
next
  case (out m c b q e)
  then show ?case by (cases "dirty e") (auto simp: evict_branches del_entry_def length_delete_entry)
qed (auto simp: evict_branches)

text \<open>The loop that both \<open>read_block\<close> and \<open>write_block\<close> run before an insertion.\<close>

function make_room :: "'d block_dev \<Rightarrow> nat \<Rightarrow> mem_env \<Rightarrow> block_cache \<Rightarrow> 'd \<Rightarrow> (driver_error + unit) \<times> block_cache \<times> 'd" where
  "make_room dev max_blocks env c d =
     (case evict_one max_blocks c of
        (None, c') \<Rightarrow> (Inr (), c', d)
      | (Some (b, data), c') \<Rightarrow>
          (case write_device_aligned dev env b data d of
             (Inl err, d') \<Rightarrow> (Inl err, c', d')
           | (Inr _, d') \<Rightarrow> make_room dev max_blocks env c' d'))"
  by pat_completeness auto
termination
  by (relation "measure (\<lambda>(dev, m, env, c, d). length (entries c))") (auto dest: evict_shrinks [OF sym])

declare make_room.simps [simp del]

definition split_blocks :: "nat \<Rightarrow> u8 list \<Rightarrow> u8 list list" where
  "split_blocks bs buf = map (\<lambda>i. subslice (i * bs) bs buf) [0..<length buf div bs]"

definition touch :: "u64 \<Rightarrow> cache_entry \<Rightarrow> block_cache \<Rightarrow> block_cache" where
  "touch b e c = set_entry b (e\<lparr> referenced := True \<rparr>) c"

definition insert_entry :: "u64 \<Rightarrow> u8 list \<Rightarrow> bool \<Rightarrow> block_cache \<Rightarrow> block_cache" where
  "insert_entry b x drt c =
     (set_entry b \<lparr> ce_data = x, referenced = False, dirty = drt \<rparr> c)\<lparr> fifo_queue := fifo_queue c @ [b] \<rparr>"

text \<open>Phase 1 of \<open>read_block\<close>, under the lock: all blocks cached.\<close>

fun read_hits :: "u64 \<Rightarrow> nat \<Rightarrow> block_cache \<Rightarrow> (u8 list \<times> block_cache) option" where
  "read_hits b 0 c = Some ([], c)"
| "read_hits b (Suc n) c =
     (case find_entry c b of
        None \<Rightarrow> None
      | Some e \<Rightarrow> (case read_hits (b + 1) n (touch b e c) of
                     None \<Rightarrow> None | Some (buf, c') \<Rightarrow> Some (ce_data e @ buf, c')))"

text \<open>Phase 2, without the lock: the device read.\<close>

definition read_device :: "'d block_dev \<Rightarrow> mem_env \<Rightarrow> u64 \<Rightarrow> nat \<Rightarrow> 'd \<Rightarrow> (driver_error + u8 list) \<times> 'd" where
  "read_device dev env block len d =
     (if aligned env then dev_read dev block len d
      else if len \<le> 4096 then dev_read dev block len d
      else if heap_ok env then dev_read dev block len d
      else (Inl IoError, d))"

text \<open>Phase 3, under the lock again: cached blocks win, the others are inserted.\<close>

fun read_fill ::
  "'d block_dev \<Rightarrow> nat \<Rightarrow> mem_env \<Rightarrow> u64 \<Rightarrow> u8 list list \<Rightarrow> block_cache \<Rightarrow> 'd \<Rightarrow>
   (driver_error + u8 list) \<times> block_cache \<times> 'd" where
  "read_fill dev max_blocks env b [] c d = (Inr [], c, d)"
| "read_fill dev max_blocks env b (x # xs) c d =
     (case find_entry c b of
        Some e \<Rightarrow>
          (case read_fill dev max_blocks env (b + 1) xs (touch b e c) d of
             (r, c', d') \<Rightarrow> (map_sum id (\<lambda>buf. ce_data e @ buf) r, c', d'))
      | None \<Rightarrow>
          (case make_room dev max_blocks env c d of
             (Inl err, c', d') \<Rightarrow> (Inl err, c', d')
           | (Inr _, c', d') \<Rightarrow>
               (case read_fill dev max_blocks env (b + 1) xs (insert_entry b x False c') d' of
                  (r, c'', d'') \<Rightarrow> (map_sum id (\<lambda>buf. x @ buf) r, c'', d''))))"

text \<open>\<open>BlockCache::read_block\<close>, the three phases in sequence.\<close>

definition cache_read_block ::
  "'d block_dev \<Rightarrow> nat \<Rightarrow> mem_env \<Rightarrow> u64 \<Rightarrow> nat \<Rightarrow> block_cache \<times> 'd \<Rightarrow>
   (driver_error + u8 list) \<times> block_cache \<times> 'd" where
  "cache_read_block dev max_blocks env block len = (\<lambda>(c, d).
     if len mod dev_block_size dev \<noteq> 0 then (Inl InvalidParam, c, d)
     else case read_hits block (len div dev_block_size dev) c of
            Some (buf, c') \<Rightarrow> (Inr buf, c', d)
          | None \<Rightarrow>
              (case read_device dev env block len d of
                 (Inl err, d') \<Rightarrow> (Inl err, c, d')
               | (Inr buf, d') \<Rightarrow> read_fill dev max_blocks env block (split_blocks (dev_block_size dev) buf) c d'))"

fun write_blocks ::
  "'d block_dev \<Rightarrow> nat \<Rightarrow> mem_env \<Rightarrow> u64 \<Rightarrow> u8 list list \<Rightarrow> block_cache \<Rightarrow> 'd \<Rightarrow>
   (driver_error + unit) \<times> block_cache \<times> 'd" where
  "write_blocks dev max_blocks env b [] c d = (Inr (), c, d)"
| "write_blocks dev max_blocks env b (x # xs) c d =
     (case find_entry c b of
        Some e \<Rightarrow>
          (let c1 = set_entry b \<lparr> ce_data = x, referenced = True, dirty = True \<rparr> c;
               c2 = (if \<not> dirty e then c1\<lparr> dirty_count := dirty_count c1 + 1 \<rparr> else c1)
           in write_blocks dev max_blocks env (b + 1) xs c2 d)
      | None \<Rightarrow>
          (case make_room dev max_blocks env c d of
             (Inl err, c', d') \<Rightarrow> (Inl err, c', d')
           | (Inr _, c', d') \<Rightarrow>
               write_blocks dev max_blocks env (b + 1) xs
                 ((insert_entry b x True c')\<lparr> dirty_count := dirty_count c' + 1 \<rparr>) d'))"

definition cache_write_block ::
  "'d block_dev \<Rightarrow> nat \<Rightarrow> mem_env \<Rightarrow> u64 \<Rightarrow> u8 list \<Rightarrow> block_cache \<times> 'd \<Rightarrow>
   (driver_error + unit) \<times> block_cache \<times> 'd" where
  "cache_write_block dev max_blocks env block data = (\<lambda>(c, d).
     if length data mod dev_block_size dev \<noteq> 0 then (Inl InvalidParam, c, d)
     else write_blocks dev max_blocks env block (split_blocks (dev_block_size dev) data) c d)"

text \<open>
  \<open>flush\<close>: runs of at most 128 consecutive dirty blocks are gathered and written with one device
  access. \<open>gather\<close> returns the blocks of the run that starts at \<open>start\<close> and what is left of the
  sorted list; \<open>clean_blocks\<close> clears the dirty flags of the entries that still hold what was written.
\<close>

fun gather :: "block_cache \<Rightarrow> u64 \<Rightarrow> nat \<Rightarrow> u64 list \<Rightarrow> u8 list list \<times> u64 list" where
  "gather c start k [] = ([], [])"
| "gather c start k (b # bs) =
     (if b = start + of_nat k \<and> k < 128 then
        case find_entry c b of
          Some e \<Rightarrow> (case gather c start (Suc k) bs of (ds, rest) \<Rightarrow> (ce_data e # ds, rest))
        | None \<Rightarrow> ([], if k = 0 then bs else b # bs)
      else ([], b # bs))"

definition clean_block :: "u64 \<Rightarrow> u8 list \<Rightarrow> block_cache \<Rightarrow> block_cache" where
  "clean_block b x c =
     (case find_entry c b of
        Some e \<Rightarrow> if ce_data e = x \<and> dirty e
                  then (set_entry b (e\<lparr> dirty := False \<rparr>) c)\<lparr> dirty_count := dirty_count c - 1 \<rparr> else c
      | None \<Rightarrow> c)"

fun clean_blocks :: "u64 \<Rightarrow> u8 list list \<Rightarrow> block_cache \<Rightarrow> block_cache" where
  "clean_blocks b [] c = c"
| "clean_blocks b (x # xs) c =
     clean_blocks (b + 1) xs (clean_block b x c)"

lemma gather_rest: "length (snd (gather c start k bs)) \<le> length bs"
proof (induction bs arbitrary: k)
  case (Cons b bs)
  obtain ds rest where "gather c start (Suc k) bs = (ds, rest)" by fastforce
  then show ?case
    using Cons [of "Suc k"] by (cases "b = start + of_nat k \<and> k < 128"; cases "find_entry c b") auto
qed simp

lemma gather_progress: "(ds, rest) = gather c b 0 (b # bs) \<Longrightarrow> length rest < Suc (length bs)"
  using gather_rest [of c b "Suc 0" bs] by (auto split: option.splits prod.splits)

text \<open>\<open>staged\<close>: the staging buffer could be allocated.\<close>

function flush_loop ::
  "'d block_dev \<Rightarrow> mem_env \<Rightarrow> bool \<Rightarrow> u64 list \<Rightarrow> block_cache \<Rightarrow> 'd \<Rightarrow> (driver_error + unit) \<times> block_cache \<times> 'd" where
  "flush_loop dev env staged [] c d = (Inr (), c, d)"
| "flush_loop dev env staged (b # bs) c d =
     (case gather c b 0 (b # bs) of
        ([], rest) \<Rightarrow> flush_loop dev env staged rest c d
      | (x # xs, rest) \<Rightarrow>
          (case (if staged then dev_write dev b (concat (x # xs)) d
                 else write_device_aligned dev env b (concat (x # xs)) d) of
             (Inl err, d') \<Rightarrow> (Inl err, c, d')
           | (Inr _, d') \<Rightarrow> flush_loop dev env staged rest (clean_blocks b (x # xs) c) d'))"
  by pat_completeness auto
termination
  by (relation "measure (\<lambda>(dev, env, staged, bs, c, d). length bs)")
    (auto simp del: gather.simps dest: gather_progress)

definition cache_flush :: "'d block_dev \<Rightarrow> mem_env \<Rightarrow> bool \<Rightarrow> block_cache \<times> 'd \<Rightarrow> (driver_error + unit) \<times> block_cache \<times> 'd" where
  "cache_flush dev env staged = (\<lambda>(c, d).
     let dirty_block_nums = map fst (filter (\<lambda>(b, e). dirty e) (entries c))
     in if dirty_block_nums \<noteq> [] then
          case flush_loop dev env staged (remdups (sort dirty_block_nums)) c d of
            (Inl err, c', d') \<Rightarrow> (Inl err, c', d')
          | (Inr _, c', d') \<Rightarrow> (case dev_flush dev d' of (r, d'') \<Rightarrow> (r, c', d''))
        else (case dev_flush dev d of (r, d') \<Rightarrow> (r, c, d')))"

definition has_dirty_blocks :: "block_cache \<Rightarrow> bool" where
  "has_dirty_blocks c \<longleftrightarrow> dirty_count c > 0"

definition cached_dev :: "'d block_dev \<Rightarrow> nat \<Rightarrow> mem_env \<Rightarrow> bool \<Rightarrow> (block_cache \<times> 'd) block_dev" where
  "cached_dev dev max_blocks env staged =
     \<lparr> dev_read = cache_read_block dev max_blocks env, dev_write = cache_write_block dev max_blocks env,
       dev_flush = cache_flush dev env staged, dev_block_size = dev_block_size dev,
       dev_block_count = (\<lambda>(c, d). dev_block_count dev d) \<rparr>"

section \<open>The invariant\<close>

abbreviation keys :: "block_cache \<Rightarrow> u64 set" where
  "keys c \<equiv> fst ` set (entries c)"

abbreviation n_dirty :: "block_cache \<Rightarrow> nat" where
  "n_dirty c \<equiv> length (filter (\<lambda>(b, e). dirty e) (entries c))"

text \<open>The structural part: keys and queue agree, the dirty counter is exact.\<close>

definition cache_struct :: "block_cache \<Rightarrow> bool" where
  "cache_struct c \<longleftrightarrow> distinct (map fst (entries c)) \<and> distinct (fifo_queue c) \<and>
     set (fifo_queue c) = keys c \<and> dirty_count c = n_dirty c"

text \<open>The part that relates the entries to the device: clean entries are copies.\<close>

definition cache_coherent :: "nat \<Rightarrow> nat \<Rightarrow> (nat \<Rightarrow> u8 list) \<Rightarrow> block_cache \<Rightarrow> bool" where
  "cache_coherent bs cnt v c \<longleftrightarrow> (\<forall>b e. find_entry c b = Some e \<longrightarrow>
     length (ce_data e) = bs \<and> unat b < cnt \<and> (\<not> dirty e \<longrightarrow> ce_data e = v (unat b)))"

definition cache_inv :: "'d block_dev \<Rightarrow> ('d \<Rightarrow> bool) \<Rightarrow> ('d \<Rightarrow> nat \<Rightarrow> u8 list) \<Rightarrow> nat \<Rightarrow> block_cache \<times> 'd \<Rightarrow> bool" where
  "cache_inv dev wfd view max_blocks = (\<lambda>(c, d).
     wfd d \<and> cache_struct c \<and> length (entries c) \<le> max_blocks \<and>
     cache_coherent (dev_block_size dev) (dev_block_count dev d) (view d) c)"

definition cache_view :: "('d \<Rightarrow> nat \<Rightarrow> u8 list) \<Rightarrow> block_cache \<times> 'd \<Rightarrow> nat \<Rightarrow> u8 list" where
  "cache_view view = (\<lambda>(c, d) k. case find_entry c (of_nat k) of Some e \<Rightarrow> ce_data e | None \<Rightarrow> view d k)"

lemma find_entry_set [simp]: "find_entry (set_entry b e c) x = (if x = b then Some e else find_entry c x)"
  by (simp add: find_entry_def set_entry_def AList.update_conv)

lemma find_entry_del [simp]: "find_entry (del_entry b c) x = (if x = b then None else find_entry c x)"
  by (simp add: find_entry_def del_entry_def AList.delete_conv)

lemma find_entry_other [simp]:
  "find_entry (c\<lparr> fifo_queue := q \<rparr>) = find_entry c" "find_entry (c\<lparr> dirty_count := n \<rparr>) = find_entry c"
  by (simp_all add: find_entry_def fun_eq_iff)

lemma keys_find: "b \<in> keys c \<longleftrightarrow> find_entry c b \<noteq> None"
  by (simp add: find_entry_def map_of_eq_None_iff)

lemma n_dirty_set_present:
  assumes "distinct (map fst al)" "map_of al b = Some e"
  shows "length (filter (\<lambda>(k, v). P v) (AList.update b e' al)) + (if P e then 1 else 0) =
    length (filter (\<lambda>(k, v). P v) al) + (if P e' then 1 else 0)"
  using assms by (induction al) auto

lemma n_dirty_set_absent:
  "map_of al b = None \<Longrightarrow> length (filter (\<lambda>(k, v). P v) (AList.update b e' al)) =
    length (filter (\<lambda>(k, v). P v) al) + (if P e' then 1 else 0)"
  by (induction al) (auto split: if_splits)

lemma n_dirty_del:
  assumes "distinct (map fst al)" "map_of al b = Some e"
  shows "length (filter (\<lambda>(k, v). P v) (AList.delete b al)) + (if P e then 1 else 0) = length (filter (\<lambda>(k, v). P v) al)"
  using assms
proof (induction al)
  case (Cons p al)
  then show ?case
    by (cases p) (auto simp: AList.delete_notin_dom [of b al] dest: map_of_SomeD split: if_splits)
qed simp

lemma struct_set_present:
  assumes "cache_struct c" "find_entry c b = Some e"
    "n + (if dirty e then 1 else 0) = dirty_count c + (if dirty e' then 1 else 0)"
  shows "cache_struct ((set_entry b e' c)\<lparr> dirty_count := n \<rparr>)"
proof -
  have b: "b \<in> keys c" using assms(2) by (simp add: keys_find)
  have "n_dirty (set_entry b e' c) + (if dirty e then 1 else 0) = n_dirty c + (if dirty e' then 1 else 0)"
    using assms(1,2) n_dirty_set_present [of "entries c" b e dirty e']
    by (simp add: cache_struct_def set_entry_def find_entry_def)
  then show ?thesis
    using assms(1,3) b by (simp add: cache_struct_def set_entry_def AList.distinct_update AList.dom_update insert_absorb
        split: if_splits)
qed

lemma struct_insert:
  assumes "cache_struct c" "find_entry c b = None"
  shows "cache_struct ((insert_entry b x drt c)\<lparr> dirty_count := dirty_count c + (if drt then 1 else 0) \<rparr>)"
  using assms n_dirty_set_absent [of "entries c" b dirty]
  by (auto simp: cache_struct_def insert_entry_def set_entry_def find_entry_def AList.distinct_update AList.dom_update
      map_of_eq_None_iff)

lemma struct_del:
  assumes "cache_struct c" "fifo_queue c = b # q" "find_entry c b = Some e"
  shows "cache_struct ((del_entry b c)\<lparr> fifo_queue := q, dirty_count := dirty_count c - (if dirty e then 1 else 0) \<rparr>)"
proof -
  have "n_dirty (del_entry b c) + (if dirty e then 1 else 0) = n_dirty c"
    using assms(1,3) n_dirty_del [of "entries c" b e dirty] by (simp add: cache_struct_def del_entry_def find_entry_def)
  moreover have "keys (del_entry b c) = keys c - {b}" "distinct (map fst (entries (del_entry b c)))"
    using assms(1) by (auto simp: del_entry_def cache_struct_def AList.delete_eq distinct_map_filter simp del: AList.delete_keys)
  ultimately show ?thesis
    using assms(1,2) by (auto simp: cache_struct_def del_entry_def simp del: AList.delete_keys)
qed

section \<open>Eviction\<close>

text \<open>The contents of the cache, without the reference bits.\<close>

definition cstate :: "block_cache \<Rightarrow> u64 \<Rightarrow> (u8 list \<times> bool) option" where
  "cstate c b = map_option (\<lambda>e. (ce_data e, dirty e)) (find_entry c b)"

lemma cstate_count [simp]: "cstate (c\<lparr> dirty_count := n \<rparr>) = cstate c"
  by (simp add: cstate_def fun_eq_iff)

lemma cstate_second:
  "find_entry c b = Some e \<Longrightarrow> cstate ((set_entry b (e\<lparr> referenced := r \<rparr>) c)\<lparr> fifo_queue := q \<rparr>) = cstate c"
  by (auto simp: cstate_def fun_eq_iff)

lemma struct_second:
  assumes "cache_struct c" "fifo_queue c = b # q" "find_entry c b = Some e"
  shows "cache_struct ((set_entry b (e\<lparr> referenced := r \<rparr>) c)\<lparr> fifo_queue := q @ [b] \<rparr>)"
  using struct_set_present [OF assms(1,3), of "dirty_count c" "e\<lparr> referenced := r \<rparr>"] assms(1,2)
  by (auto simp: cache_struct_def set_entry_def)

lemma evict_spec:
  assumes "cache_struct c" "evict_one m c = (r, c')"
  shows "cache_struct c' \<and>
    (r = None \<and> cstate c' = cstate c \<and> length (entries c') = length (entries c) \<and> (length (entries c') < m \<or> entries c' = []) \<or>
     (\<exists>b x. cstate c b = Some (x, r \<noteq> None) \<and> (r \<noteq> None \<longrightarrow> r = Some (b, x)) \<and> cstate c' = (cstate c)(b := None) \<and>
        length (entries c') < length (entries c)))"
  using assms
proof (induction m c rule: evict_induct)
  case (keep m c)
  then have "r = None" "c' = c" by (auto simp: evict_branches)
  then show ?case using keep by (auto simp: cache_struct_def)
next
  case (stale m c b q)
  then have "b \<in> keys c" by (auto simp: cache_struct_def)
  then show ?case using stale(3) by (simp add: keys_find)
next
  case (second m c b q e)
  note s = struct_second [OF second.prems(1) second.hyps(2,3)] and v = cstate_second [OF second.hyps(3)]
  have l: "length (entries ((set_entry b (e\<lparr> referenced := False \<rparr>) c)\<lparr> fifo_queue := q @ [b] \<rparr>)) = length (entries c)"
    using second.hyps(3) by (simp add: set_entry_def length_update_entry)
  show ?case
    using second.IH [OF s] second.prems(2) second.hyps unfolding v l by (simp add: evict_branches(4))
next
  case (out m c b q e)
  let ?d = "if dirty e then 1 else (0::nat)"
  let ?c = "(del_entry b c)\<lparr> fifo_queue := q, dirty_count := dirty_count c - ?d \<rparr>"
  have e: "r = (if dirty e then Some (b, ce_data e) else None)" "c' = ?c"
    using out by (cases "dirty e"; auto simp: evict_branches del_entry_def)+
  have "cstate c' = (cstate c)(b := None)" by (auto simp: e cstate_def fun_eq_iff)
  moreover have "length (entries c') < length (entries c)"
    using out(3) by (simp add: e del_entry_def length_delete_entry)
  moreover have "cache_struct c'" unfolding e using struct_del out by blast
  moreover have "cstate c b = Some (ce_data e, dirty e)" using out(3) by (simp add: cstate_def)
  ultimately show ?case using e(1) by (cases "dirty e") auto
qed

lemma put_one: "length x = bs \<Longrightarrow> 0 < bs \<Longrightarrow> put_blocks bs b x v = v(b := x)"
  by (auto simp: put_blocks_def fun_eq_iff subslice_def)

lemma coherent_cstate:
  "cache_coherent bs cnt v c \<longleftrightarrow> (\<forall>b x drt. cstate c b = Some (x, drt) \<longrightarrow>
     length x = bs \<and> unat b < cnt \<and> (\<not> drt \<longrightarrow> x = v (unat b)))"
  by (auto simp: cache_coherent_def cstate_def)

lemma cache_view_cstate:
  "cache_view view (c, d) k = (case cstate c (of_nat k) of Some (x, _) \<Rightarrow> x | None \<Rightarrow> view d k)"
  by (simp add: cache_view_def cstate_def split: option.splits)

lemma cstate_None: "cstate c b = None \<longleftrightarrow> find_entry c b = None"
  by (simp add: cstate_def)

lemma blocks_of_Suc: "blocks_of v b (Suc n) = v b @ blocks_of v (Suc b) n"
  by (simp add: blocks_of_def upt_conv_Cons del: upt_Suc)

lemma blocks_of_0 [simp]: "blocks_of v b 0 = []"
  by (simp add: blocks_of_def)

context block_device
begin

abbreviation cinv :: "nat \<Rightarrow> block_cache \<times> 'd \<Rightarrow> bool" where
  "cinv \<equiv> cache_inv dev wf view"

lemma write_aligned_one:
  assumes "wf d" "length x = dev_block_size dev" "unat b < dev_block_count dev d" "heap_ok env"
  shows "\<exists>d'. write_device_aligned dev env b x d = (Inr (), d') \<and> wf d' \<and> dev_block_count dev d' = dev_block_count dev d \<and>
    (\<forall>k < dev_block_count dev d. view d' k = (if k = unat b then x else view d k))"
  using write_law [OF assms(1), of x 1 b] assms size_pos put_one [OF assms(2) size_pos, of "unat b" "view d"]
  by (auto simp: write_device_aligned_def)

lemma make_room_spec:
  assumes "cinv m (c, d)" "0 < m" "heap_ok env"
  shows "\<exists>c' d'. make_room dev m env c d = (Inr (), c', d') \<and> cinv m (c', d') \<and> length (entries c') < m \<and>
    dev_block_count dev d' = dev_block_count dev d \<and>
    (\<forall>k < dev_block_count dev d. cache_view view (c', d') k = cache_view view (c, d) k) \<and>
    (\<forall>b. cstate c' b = None \<or> cstate c' b = cstate c b) \<and>
    (\<forall>k < dev_block_count dev d. \<not> (\<exists>x. cstate c (of_nat k) = Some (x, True)) \<longrightarrow> view d' k = view d k)"
  using assms
proof (induction "length (entries c)" arbitrary: c d rule: less_induct)
  case less
  let ?cnt = "dev_block_count dev d"
  note inv = less.prems(1) [unfolded cache_inv_def prod.case]
  obtain r c1 where ev: "evict_one m c = (r, c1)" by fastforce
  note sp = evict_spec [OF _ ev] and co = inv [THEN conjunct2, THEN conjunct2, THEN conjunct2, unfolded coherent_cstate]
  have small: "unat (of_nat k :: u64) = k" if "k < ?cnt" for k
    using that count_bound inv by (intro unat_of_nat_small) fastforce
  show ?case
  proof (cases r)
    case None
    have c1: "cache_struct c1" "length (entries c1) < m" "cstate c1 = cstate c \<or> (\<exists>b x. cstate c b = Some (x, False) \<and> cstate c1 = (cstate c)(b := None))"
      using sp inv None less.prems(2) by auto
    have "cache_coherent (dev_block_size dev) ?cnt (view d) c1"
      using c1(3) co by (auto simp: coherent_cstate split: if_splits)
    moreover have "cache_view view (c1, d) k = cache_view view (c, d) k" if "k < ?cnt" for k
      using c1(3) co small [OF that] by (fastforce simp: cache_view_cstate split: option.splits)
    moreover have "\<forall>b. cstate c1 b = None \<or> cstate c1 b = cstate c b" using c1(3) by auto
    ultimately show ?thesis
      using c1 inv ev None by (subst make_room.simps) (simp add: cache_inv_def)
  next
    case (Some p)
    then obtain b x where b: "r = Some (b, x)" "cstate c b = Some (x, True)" "cstate c1 = (cstate c)(b := None)"
      "length (entries c1) < length (entries c)" "cache_struct c1"
      using sp inv by auto
    then obtain d1 where d1: "write_device_aligned dev env b x d = (Inr (), d1)" "wf d1" "dev_block_count dev d1 = ?cnt"
      "\<forall>k < ?cnt. view d1 k = (if k = unat b then x else view d k)"
      using write_aligned_one [of d x b env] inv co less.prems(3) by blast
    have "cache_coherent (dev_block_size dev) ?cnt (view d1) c1"
      using co b(3) d1(4) by (auto simp: coherent_cstate word_unat_eq_iff split: if_splits)
    then have i1: "cinv m (c1, d1)" using b inv d1 by (simp add: cache_inv_def)
    have v: "cache_view view (c1, d1) k = cache_view view (c, d) k" if "k < ?cnt" for k
      using b(2,3) d1(4) small [OF that] that by (auto simp: cache_view_cstate split: option.splits)
    obtain c2 d2 where "make_room dev m env c1 d1 = (Inr (), c2, d2)" "cinv m (c2, d2)" "length (entries c2) < m"
      "dev_block_count dev d2 = ?cnt" "\<forall>k < ?cnt. cache_view view (c2, d2) k = cache_view view (c1, d1) k"
      "\<forall>b. cstate c2 b = None \<or> cstate c2 b = cstate c1 b"
      "\<forall>k < ?cnt. \<not> (\<exists>x. cstate c1 (of_nat k) = Some (x, True)) \<longrightarrow> view d2 k = view d1 k"
      using less.hyps [OF b(4) i1 less.prems(2,3)] unfolding d1(3) by blast
    moreover have "\<forall>b. cstate c1 b = None \<or> cstate c1 b = cstate c b" using b(3) by auto
    moreover have "view d1 k = view d k" if "k < ?cnt" "\<not> (\<exists>x. cstate c (of_nat k) = Some (x, True))" for k
      using that d1(4) b(2) by auto
    moreover have "\<not> (\<exists>x. cstate c1 (of_nat k) = Some (x, True))" if "\<not> (\<exists>x. cstate c (of_nat k) = Some (x, True))" for k
      using that b(3) by auto
    ultimately show ?thesis
      using ev b(1) d1(1) v by (subst make_room.simps) (simp, metis)
  qed
qed

text \<open>How a change of the cache contents changes what the cached device shows.\<close>

lemma cinv_same:
  assumes "cinv m (c, d)" "cstate c' = cstate c" "cache_struct c'" "length (entries c') = length (entries c)"
  shows "cinv m (c', d) \<and> cache_view view (c', d) = cache_view view (c, d)"
  using assms by (auto simp: cache_inv_def coherent_cstate cache_view_cstate fun_eq_iff)

lemma cinv_put:
  assumes "cinv m (c, d)" "cstate c' = (cstate c)(b \<mapsto> (x, drt))" "cache_struct c'" "length (entries c') \<le> m"
    "length x = dev_block_size dev" "unat b < dev_block_count dev d" "\<not> drt \<longrightarrow> x = view d (unat b)"
  shows "cinv m (c', d) \<and>
    (\<forall>k < dev_block_count dev d. cache_view view (c', d) k = (if k = unat b then x else cache_view view (c, d) k))"
proof -
  have "cinv m (c', d)" using assms by (auto simp: cache_inv_def coherent_cstate split: if_splits)
  moreover have "cache_view view (c', d) k = (if k = unat b then x else cache_view view (c, d) k)"
    if "k < dev_block_count dev d" for k
  proof -
    have "unat (of_nat k :: u64) = k"
      using that count_bound [of d] assms(1) by (intro unat_of_nat_small) (auto simp: cache_inv_def)
    then have "of_nat k = b \<longleftrightarrow> k = unat b" by auto
    then show ?thesis using assms(2) by (auto simp: cache_view_cstate)
  qed
  ultimately show ?thesis by blast
qed

lemma touch_ok:
  assumes "cinv m (c, d)" "find_entry c b = Some e"
  shows "cinv m (touch b e c, d) \<and> cache_view view (touch b e c, d) = cache_view view (c, d)"
proof (rule cinv_same [OF assms(1)])
  show "cstate (touch b e c) = cstate c" using assms(2) by (auto simp: touch_def cstate_def fun_eq_iff)
  show "length (entries (touch b e c)) = length (entries c)"
    using assms(2) by (simp add: touch_def set_entry_def length_update_entry)
  have "cache_struct c" using assms(1) by (simp add: cache_inv_def)
  from struct_set_present [OF this assms(2), of "dirty_count c" "e\<lparr> referenced := True \<rparr>"]
  show "cache_struct (touch b e c)" by (simp add: touch_def set_entry_def)
qed

lemma cstate_touch [simp]: "find_entry c b = Some e \<Longrightarrow> cstate (touch b e c) = cstate c"
  by (auto simp: touch_def cstate_def fun_eq_iff)

lemma cstate_insert [simp]: "cstate (insert_entry b x drt c) = (cstate c)(b \<mapsto> (x, drt))"
  by (auto simp: insert_entry_def cstate_def fun_eq_iff)

lemma length_insert: "find_entry c b = None \<Longrightarrow> length (entries (insert_entry b x drt c)) = Suc (length (entries c))"
  using n_dirty_set_absent [of "entries c" b "\<lambda>_. True"] by (simp add: insert_entry_def set_entry_def find_entry_def case_prod_beta)

lemma insert_ok:
  assumes "cinv m (c, d)" "find_entry c b = None" "length (entries c) < m" "length x = dev_block_size dev"
    "unat b < dev_block_count dev d" "\<not> drt \<longrightarrow> x = view d (unat b)"
  defines "c' \<equiv> (insert_entry b x drt c)\<lparr> dirty_count := dirty_count c + (if drt then 1 else 0) \<rparr>"
  shows "cinv m (c', d) \<and>
    (\<forall>k < dev_block_count dev d. cache_view view (c', d) k = (if k = unat b then x else cache_view view (c, d) k))"
proof (rule cinv_put [OF assms(1) _ _ _ assms(4,5,6)])
  show "cstate c' = (cstate c)(b \<mapsto> (x, drt))"
    by (simp add: c'_def)
  show "cache_struct c'" unfolding c'_def using assms(1,2) by (intro struct_insert) (simp_all add: cache_inv_def)
  show "length (entries c') \<le> m" using assms(2,3) by (simp add: c'_def length_insert)
qed

lemma next_block:
  fixes b :: u64
  assumes "wf d" "unat b + Suc n \<le> dev_block_count dev d"
  shows "unat (b + 1) = Suc (unat b)"
proof -
  have "unat b + unat (1 :: u64) < 2 ^ LENGTH(64)" using assms count_bound [of d] by simp
  from unat_add_small [OF this] show ?thesis by simp
qed

lemma cached_data:
  assumes "cinv m (c, d)" "find_entry c b = Some e"
  shows "cache_view view (c, d) (unat b) = ce_data e \<and> length (ce_data e) = dev_block_size dev"
  using assms by (auto simp: cache_view_def cache_inv_def cache_coherent_def)

lemma read_hits_spec:
  assumes "cinv m (c, d)" "unat b + n \<le> dev_block_count dev d" "read_hits b n c = Some (buf, c')"
  shows "buf = blocks_of (cache_view view (c, d)) (unat b) n \<and> cinv m (c', d) \<and>
    cache_view view (c', d) = cache_view view (c, d)"
  using assms
proof (induction n arbitrary: b c buf)
  case (Suc n)
  then obtain e buf1 where e: "find_entry c b = Some e" "read_hits (b + 1) n (touch b e c) = Some (buf1, c')" "buf = ce_data e @ buf1"
    by (auto split: option.splits)
  have nb: "unat (b + 1) = Suc (unat b)" using Suc.prems next_block by (auto simp: cache_inv_def)
  note t = touch_ok [OF Suc.prems(1) e(1)]
  show ?case
    using Suc.IH [OF t [THEN conjunct1] _ e(2)] Suc.prems(2) nb t e(3) cached_data [OF Suc.prems(1) e(1)]
    by (simp add: blocks_of_Suc)
qed simp

text \<open>A miss: make room, then insert the block.\<close>

lemma miss_ok:
  assumes "cinv m (c, d)" "0 < m" "heap_ok env" "find_entry c b = None" "unat b < dev_block_count dev d"
    "length x = dev_block_size dev" "\<not> drt \<longrightarrow> x = view d (unat b)"
  shows "\<exists>c1 d1. make_room dev m env c d = (Inr (), c1, d1) \<and>
    (let c2 = (insert_entry b x drt c1)\<lparr> dirty_count := dirty_count c1 + (if drt then 1 else 0) \<rparr> in
     cinv m (c2, d1) \<and> dev_block_count dev d1 = dev_block_count dev d \<and>
     (\<forall>k < dev_block_count dev d. cache_view view (c2, d1) k = (if k = unat b then x else cache_view view (c, d) k)) \<and>
     (\<forall>a. a \<noteq> b \<longrightarrow> cstate c2 a = None \<or> cstate c2 a = cstate c a) \<and>
     (\<forall>k < dev_block_count dev d. \<not> (\<exists>x. cstate c (of_nat k) = Some (x, True)) \<longrightarrow> view d1 k = view d k))"
proof -
  let ?cnt = "dev_block_count dev d"
  obtain c1 d1 where r: "make_room dev m env c d = (Inr (), c1, d1)" "cinv m (c1, d1)" "length (entries c1) < m"
    "dev_block_count dev d1 = ?cnt" "\<forall>k < ?cnt. cache_view view (c1, d1) k = cache_view view (c, d) k"
    "\<forall>b. cstate c1 b = None \<or> cstate c1 b = cstate c b"
    "\<forall>k < ?cnt. \<not> (\<exists>x. cstate c (of_nat k) = Some (x, True)) \<longrightarrow> view d1 k = view d k"
    using make_room_spec [OF assms(1,2,3)] by blast
  have n1: "find_entry c1 b = None" using r(6) assms(4) by (metis cstate_None)
  have "view d1 (unat b) = view d (unat b)" using r(7) assms(4,5) by (simp add: cstate_def)
  then have "\<not> drt \<longrightarrow> x = view d1 (unat b)" using assms(7) by simp
  from insert_ok [OF r(2) n1 r(3) assms(6) _ this, unfolded r(4), OF assms(5)] r show ?thesis
    by (auto simp: Let_def)
qed

lemma read_fill_spec:
  assumes "cinv m (c, d)" "0 < m" "heap_ok env" "unat b + length xs \<le> dev_block_count dev d"
    "\<forall>i < length xs. xs ! i = view d (unat b + i)"
    "\<forall>i < length xs. 0 < i \<longrightarrow> \<not> (\<exists>x. cstate c (of_nat (unat b + i)) = Some (x, True))"
  shows "\<exists>c' d'. read_fill dev m env b xs c d = (Inr (blocks_of (cache_view view (c, d)) (unat b) (length xs)), c', d') \<and>
    cinv m (c', d') \<and> dev_block_count dev d' = dev_block_count dev d \<and>
    (\<forall>k < dev_block_count dev d. cache_view view (c', d') k = cache_view view (c, d) k)"
  using assms
proof (induction xs arbitrary: b c d)
  case (Cons x xs)
  let ?cnt = "dev_block_count dev d"
  have nb: "unat (b + 1) = Suc (unat b)" "unat b < ?cnt"
    using Cons.prems(1,4) next_block [of d b "length xs"] by (auto simp: cache_inv_def)
  have xs: "\<forall>i < length xs. xs ! i = view d (unat (b + 1) + i)"
    "\<forall>i < length xs. \<not> (\<exists>x. cstate c (of_nat (unat (b + 1) + i)) = Some (x, True))"
  proof -
    show "\<forall>i < length xs. xs ! i = view d (unat (b + 1) + i)" using Cons.prems(5) nb(1) by auto
    show "\<forall>i < length xs. \<not> (\<exists>x. cstate c (of_nat (unat (b + 1) + i)) = Some (x, True))"
      using Cons.prems(6) unfolding nb(1) by (metis Suc_less_eq add_Suc_shift length_Cons zero_less_Suc)
  qed
  have vx: "x = view d (unat b)" "length x = dev_block_size dev"
    using Cons.prems(1,5) view_size [of d "unat b"] nb(2) by (auto simp: cache_inv_def)
  show ?case
  proof (cases "find_entry c b")
    case (Some e)
    note t = touch_ok [OF Cons.prems(1) Some]
    have le: "unat (b + 1) + length xs \<le> ?cnt" using Cons.prems(4) nb(1) by simp
    have "\<forall>i < length xs. 0 < i \<longrightarrow> \<not> (\<exists>x. cstate (touch b e c) (of_nat (unat (b + 1) + i)) = Some (x, True))"
      using xs(2) Some by simp
    from Cons.IH [OF t [THEN conjunct1] Cons.prems(2,3) le xs(1) this]
    obtain c' d' where "read_fill dev m env (b + 1) xs (touch b e c) d =
        (Inr (blocks_of (cache_view view (c, d)) (unat (b + 1)) (length xs)), c', d')"
      "cinv m (c', d')" "dev_block_count dev d' = ?cnt" "\<forall>k < ?cnt. cache_view view (c', d') k = cache_view view (c, d) k"
      using t by auto
    then show ?thesis
      using Some cached_data [OF Cons.prems(1) Some] nb(1) by (simp add: blocks_of_Suc)
  next
    case None
    from miss_ok [OF Cons.prems(1,2,3) None nb(2) vx(2), of False] vx(1)
    obtain c1 d1 where r: "make_room dev m env c d = (Inr (), c1, d1)" and
      i2: "cinv m ((insert_entry b x False c1)\<lparr> dirty_count := dirty_count c1 \<rparr>, d1)" and
      r4: "dev_block_count dev d1 = ?cnt" and
      v2: "\<forall>k < ?cnt. cache_view view ((insert_entry b x False c1)\<lparr> dirty_count := dirty_count c1 \<rparr>, d1) k =
        (if k = unat b then x else cache_view view (c, d) k)" and
      r6: "\<forall>a. a \<noteq> b \<longrightarrow> cstate (insert_entry b x False c1) a = None \<or> cstate (insert_entry b x False c1) a = cstate c a" and
      r7: "\<forall>k < ?cnt. \<not> (\<exists>x. cstate c (of_nat k) = Some (x, True)) \<longrightarrow> view d1 k = view d k"
      by (auto simp: Let_def)
    let ?c2 = "(insert_entry b x False c1)\<lparr> dirty_count := dirty_count c1 \<rparr>"
    have c2: "?c2 = insert_entry b x False c1" by (simp add: insert_entry_def set_entry_def)
    have vb: "cache_view view (c, d) (unat b) = x" using None vx(1) by (simp add: cache_view_def)
    have le: "unat (b + 1) + length xs \<le> dev_block_count dev d1" using Cons.prems(4) nb(1) r4 by simp
    have nd: "\<not> (\<exists>x. cstate c (of_nat (unat (b + 1) + i)) = Some (x, True))" if "i < length xs" for i
      using xs(2) that by blast
    have "\<forall>i < length xs. xs ! i = view d1 (unat (b + 1) + i)"
      using xs(1) r7 nd Cons.prems(4) nb(1) by auto
    moreover have "\<forall>i < length xs. 0 < i \<longrightarrow> \<not> (\<exists>y. cstate ?c2 (of_nat (unat (b + 1) + i)) = Some (y, True))"
    proof (intro allI impI notI)
      fix i assume i: "i < length xs" "0 < i" "\<exists>y. cstate ?c2 (of_nat (unat (b + 1) + i)) = Some (y, True)"
      then have "of_nat (unat (b + 1) + i) \<noteq> b" by auto
      then show False using i(3) nd [OF i(1)] r6 by (metis c2 option.distinct(1))
    qed
    ultimately obtain c' d' where "read_fill dev m env (b + 1) xs ?c2 d1 =
        (Inr (blocks_of (cache_view view (?c2, d1)) (unat (b + 1)) (length xs)), c', d')"
      "cinv m (c', d')" "dev_block_count dev d' = ?cnt" "\<forall>k < ?cnt. cache_view view (c', d') k = cache_view view (?c2, d1) k"
      using Cons.IH [OF i2 Cons.prems(2,3) le] r4 by auto
    moreover have "blocks_of (cache_view view (?c2, d1)) (unat (b + 1)) (length xs) =
        blocks_of (cache_view view (c, d)) (unat (b + 1)) (length xs)"
      unfolding blocks_of_def using v2 vb le r4 by (intro arg_cong [where f = concat] map_cong) auto
    ultimately show ?thesis using None r nb(1) v2 vb c2 by (simp add: blocks_of_Suc)
  qed
qed simp

text \<open>A hit on a write: the entry is overwritten and counted as dirty.\<close>

lemma overwrite_ok:
  assumes "cinv m (c, d)" "find_entry c b = Some e" "length x = dev_block_size dev"
  defines "c1 \<equiv> set_entry b \<lparr> ce_data = x, referenced = True, dirty = True \<rparr> c"
  defines "c2 \<equiv> (if \<not> dirty e then c1\<lparr> dirty_count := dirty_count c1 + 1 \<rparr> else c1)"
  shows "cinv m (c2, d) \<and>
    (\<forall>k < dev_block_count dev d. cache_view view (c2, d) k = (if k = unat b then x else cache_view view (c, d) k))"
proof -
  have c2: "c2 = (set_entry b \<lparr> ce_data = x, referenced = True, dirty = True \<rparr> c)
      \<lparr> dirty_count := dirty_count c + (if dirty e then 0 else 1) \<rparr>"
    by (simp add: c2_def c1_def set_entry_def)
  have s: "cache_struct c" and l: "length (entries c) \<le> m" and b: "unat b < dev_block_count dev d"
    using assms(1,2) by (auto simp: cache_inv_def cache_coherent_def)
  have "cache_struct c2"
    unfolding c2 by (rule struct_set_present [OF s assms(2)]) simp
  moreover have "cstate c2 = (cstate c)(b \<mapsto> (x, True))" unfolding c2 by (auto simp: cstate_def fun_eq_iff)
  moreover have "length (entries c2) \<le> m"
    using l assms(2) by (simp add: c2 set_entry_def length_update_entry)
  ultimately show ?thesis using cinv_put [OF assms(1) _ _ _ assms(3) b] by blast
qed

lemma write_blocks_spec:
  assumes "cinv m (c, d)" "0 < m" "heap_ok env" "unat b + length xs \<le> dev_block_count dev d"
    "\<forall>x \<in> set xs. length x = dev_block_size dev"
  shows "\<exists>c' d'. write_blocks dev m env b xs c d = (Inr (), c', d') \<and> cinv m (c', d') \<and>
    dev_block_count dev d' = dev_block_count dev d \<and>
    (\<forall>k < dev_block_count dev d. cache_view view (c', d') k =
       (if unat b \<le> k \<and> k < unat b + length xs then xs ! (k - unat b) else cache_view view (c, d) k))"
  using assms
proof (induction xs arbitrary: b c d)
  case (Cons x xs)
  let ?cnt = "dev_block_count dev d"
  have nb: "unat (b + 1) = Suc (unat b)" "unat b < ?cnt"
    using Cons.prems(1,4) next_block [of d b "length xs"] by (auto simp: cache_inv_def)
  have step: "\<exists>c' d'. write_blocks dev m env (b + 1) xs c1 d1 = (Inr (), c', d') \<and> cinv m (c', d') \<and>
      dev_block_count dev d' = ?cnt \<and> (\<forall>k < ?cnt. cache_view view (c', d') k =
       (if unat b \<le> k \<and> k < unat b + length (x # xs) then (x # xs) ! (k - unat b) else cache_view view (c, d) k))"
    if i: "cinv m (c1, d1)" and n: "dev_block_count dev d1 = ?cnt"
      and v: "\<forall>k < ?cnt. cache_view view (c1, d1) k = (if k = unat b then x else cache_view view (c, d) k)" for c1 d1
  proof -
    obtain c' d' where "write_blocks dev m env (b + 1) xs c1 d1 = (Inr (), c', d')" "cinv m (c', d')"
      "dev_block_count dev d' = ?cnt" "\<forall>k < ?cnt. cache_view view (c', d') k =
       (if Suc (unat b) \<le> k \<and> k < Suc (unat b) + length xs then xs ! (k - Suc (unat b)) else cache_view view (c1, d1) k)"
      using Cons.IH [OF i Cons.prems(2,3), of "b + 1"] Cons.prems(4,5) nb(1) n by auto
    then show ?thesis using v by (auto simp: nth_Cons' Suc_le_eq)
  qed
  show ?case
  proof (cases "find_entry c b")
    case (Some e)
    from overwrite_ok [OF Cons.prems(1) Some, of x] Cons.prems(5)
    show ?thesis using Some step [OF _ refl] by (simp add: Let_def)
  next
    case None
    from miss_ok [OF Cons.prems(1,2,3) None nb(2), of x True] Cons.prems(5)
    obtain c1 d1 where "make_room dev m env c d = (Inr (), c1, d1)"
      "cinv m ((insert_entry b x True c1)\<lparr> dirty_count := dirty_count c1 + 1 \<rparr>, d1)" "dev_block_count dev d1 = ?cnt"
      "\<forall>k < ?cnt. cache_view view ((insert_entry b x True c1)\<lparr> dirty_count := dirty_count c1 + 1 \<rparr>, d1) k =
        (if k = unat b then x else cache_view view (c, d) k)"
      by (auto simp: Let_def)
    then show ?thesis using None step by simp
  qed
qed auto

end

text \<open>Cutting a buffer into blocks.\<close>

lemma split_blocks_length [simp]: "length (split_blocks s buf) = length buf div s"
  by (simp add: split_blocks_def)

lemma split_blocks_nth: "i < length buf div s \<Longrightarrow> split_blocks s buf ! i = subslice (i * s) s buf"
  by (simp add: split_blocks_def)

lemma block_end: "i < (n :: nat) div s \<Longrightarrow> i * s + s \<le> n"
  by (metis Suc_leI add.commute mult_Suc mult_le_mono1 order_trans times_div_less_eq_dividend mult.commute)

lemma split_blocks_sizes: "\<forall>x \<in> set (split_blocks s buf). length x = s"
  by (auto simp: split_blocks_def length_subslice block_end)

lemma subslice_concat_nth:
  "\<forall>x \<in> set ds. length x = s \<Longrightarrow> i < length ds \<Longrightarrow> subslice (i * s) s (concat ds) = ds ! i"
proof (induction ds arbitrary: i)
  case (Cons x ds)
  then show ?case by (cases i) (auto simp: subslice_def)
qed simp

lemma length_concat_blocks: "\<forall>x \<in> set ds. length x = s \<Longrightarrow> length (concat ds) = length ds * s"
  by (induction ds) auto

section \<open>Flush\<close>

lemma gather_spec:
  assumes "\<forall>b \<in> set bs. find_entry c b \<noteq> None" "gather c start k bs = (ds, rest)"
  shows "length ds \<le> length bs \<and> rest = drop (length ds) bs \<and>
    (\<forall>i < length ds. bs ! i = start + of_nat (k + i) \<and> (\<exists>e. find_entry c (bs ! i) = Some e \<and> ds ! i = ce_data e))"
  using assms
proof (induction bs arbitrary: k ds)
  case (Cons b bs)
  show ?case
  proof (cases "b = start + of_nat k \<and> k < 128")
    case True
    obtain e where e: "find_entry c b = Some e" using Cons.prems(1) by auto
    obtain ds1 where d: "gather c start (Suc k) bs = (ds1, rest)" "ds = ce_data e # ds1"
      using Cons.prems(2) True e by (auto split: prod.splits)
    show ?thesis
      using Cons.IH [OF _ d(1)] Cons.prems(1) d(2) e True
      by (auto simp: less_Suc_eq_0_disj algebra_simps)
  next
    case False
    then show ?thesis using Cons.prems(2) by auto
  qed
qed simp

lemma gather_nonempty:
  assumes "\<forall>a \<in> set (b # bs). find_entry c a \<noteq> None" "gather c b 0 (b # bs) = (ds, rest)"
  shows "ds \<noteq> []"
  using assms by (auto split: option.splits prod.splits)

lemma clean_block_spec:
  assumes "cache_struct c"
  shows "cache_struct (clean_block b x c) \<and> length (entries (clean_block b x c)) = length (entries c) \<and>
    cstate (clean_block b x c) = (if cstate c b = Some (x, True) then (cstate c)(b \<mapsto> (x, False)) else cstate c)"
proof (cases "cstate c b = Some (x, True)")
  case True
  then obtain e where e: "find_entry c b = Some e" "ce_data e = x" "dirty e" by (auto simp: cstate_def)
  have "dirty_count c \<noteq> 0"
    using assms e(1,3) by (auto simp: cache_struct_def find_entry_def filter_empty_conv dest!: map_of_SomeD)
  then have "cache_struct ((set_entry b (e\<lparr> dirty := False \<rparr>) c)\<lparr> dirty_count := dirty_count c - 1 \<rparr>)"
    using e by (intro struct_set_present [OF assms e(1)]) simp
  then show ?thesis
    using e True by (auto simp: clean_block_def set_entry_def length_update_entry cstate_def fun_eq_iff find_entry_def AList.update_conv)
next
  case False
  then have "clean_block b x c = c" by (auto simp: clean_block_def cstate_def split: option.splits)
  then show ?thesis using False assms by simp
qed

lemma clean_blocks_spec:
  assumes "cache_struct c"
  shows "cache_struct (clean_blocks b xs c) \<and> length (entries (clean_blocks b xs c)) = length (entries c) \<and>
    (\<forall>a. cstate (clean_blocks b xs c) a = cstate c a \<or>
       (\<exists>i < length xs. a = b + of_nat i \<and> cstate c a = Some (xs ! i, True) \<and> cstate (clean_blocks b xs c) a = Some (xs ! i, False))) \<and>
    (\<forall>i < length xs. \<forall>drt. cstate c (b + of_nat i) = Some (xs ! i, drt) \<longrightarrow>
       cstate (clean_blocks b xs c) (b + of_nat i) = Some (xs ! i, False))"
  using assms
proof (induction xs arbitrary: b c)
  case (Cons x xs)
  define c1 where "c1 = clean_block b x c"
  have c1: "cache_struct c1" "length (entries c1) = length (entries c)"
    "cstate c1 = (if cstate c b = Some (x, True) then (cstate c)(b \<mapsto> (x, False)) else cstate c)"
    using clean_block_spec [OF Cons.prems] unfolding c1_def by blast+
  have r: "clean_blocks b (x # xs) c = clean_blocks (b + 1) xs c1" by (simp add: c1_def)
  note IH = Cons.IH [OF c1(1), of "b + 1"]
  have sh: "b + 1 + of_nat i = b + of_nat (Suc i)" for i by simp
  let ?f = "clean_blocks (b + 1) xs c1"
  have A: "cstate ?f a = cstate c a \<or> (\<exists>i < length (x # xs). a = b + of_nat i \<and>
      cstate c a = Some ((x # xs) ! i, True) \<and> cstate ?f a = Some ((x # xs) ! i, False))" for a
  proof -
    from IH consider "cstate ?f a = cstate c1 a" | i where "i < length xs" "a = b + of_nat (Suc i)"
      "cstate c1 a = Some (xs ! i, True)" "cstate ?f a = Some (xs ! i, False)" unfolding sh by blast
    then show ?thesis
    proof cases
      case 1
      then show ?thesis unfolding c1(3) by (auto intro!: exI [of _ 0])
    next
      case (2 i)
      then have "cstate c a = Some (xs ! i, True)" by (auto simp: c1(3) split: if_splits)
      with 2 show ?thesis by (intro disjI2 exI [of _ "Suc i"]) simp
    qed
  qed
  moreover have "cstate ?f (b + of_nat i) = Some ((x # xs) ! i, False)"
    if i: "i < length (x # xs)" "cstate c (b + of_nat i) = Some ((x # xs) ! i, drt)" for i drt
  proof (cases i)
    case 0
    then have "cstate c1 b = Some (x, False)" using i by (cases drt) (auto simp: c1(3))
    moreover have "cstate ?f b = cstate c1 b \<or> (\<exists>y. cstate c1 b = Some (y, True))" using IH by blast
    ultimately show ?thesis using 0 by auto
  next
    case (Suc j)
    then have "\<exists>drt. cstate c1 (b + of_nat (Suc j)) = Some (xs ! j, drt)" using i by (auto simp: c1(3))
    then show ?thesis using IH Suc i(1) unfolding sh by auto
  qed
  ultimately show ?case
    using IH c1(2) unfolding r by (intro conjI allI impI) (simp, simp, presburger, blast)
qed simp

context block_device
begin

lemma run_addresses:
  assumes "wf d" "\<forall>i < n. unat (b + of_nat i :: u64) < dev_block_count dev d" "i < n"
  shows "unat (b + of_nat i) = unat b + i"
  using assms(3)
proof (induction i)
  case (Suc i)
  then have "unat (b + of_nat i) = unat b + i" "unat (b + of_nat i) < dev_block_count dev d"
    using assms(2) [rule_format, of i] by simp_all
  then have "unat (b + of_nat i + 1) = Suc (unat b + i)" using next_block [OF assms(1), of "b + of_nat i" 0] by simp
  moreover have "b + of_nat (Suc i) = b + of_nat i + 1" by simp
  ultimately show ?case by (simp only: add_Suc_right)
qed simp

lemma flush_chunk:
  assumes inv: "cinv m (c, d)" and "heap_ok env" and all: "\<forall>a \<in> set (b # bs). find_entry c a \<noteq> None"
    and dirty: "\<forall>a x. cstate c a = Some (x, True) \<longrightarrow> a \<in> set (b # bs)"
    and g: "gather c b 0 (b # bs) = (ds, rest)"
  defines "c1 \<equiv> clean_blocks b ds c"
  shows "\<exists>d1. (if staged then dev_write dev b (concat ds) d else write_device_aligned dev env b (concat ds) d) = (Inr (), d1) \<and>
    cinv m (c1, d1) \<and> dev_block_count dev d1 = dev_block_count dev d \<and>
    (\<forall>k < dev_block_count dev d. cache_view view (c1, d1) k = cache_view view (c, d) k) \<and>
    (\<forall>a x. cstate c1 a = Some (x, True) \<longrightarrow> a \<in> set rest) \<and> (\<forall>a \<in> set rest. find_entry c1 a \<noteq> None)"
proof -
  let ?n = "length ds" and ?s = "dev_block_size dev" and ?cnt = "dev_block_count dev d"
  note co = inv [unfolded cache_inv_def prod.case, THEN conjunct2, THEN conjunct2, THEN conjunct2, unfolded coherent_cstate]
  have wf: "wf d" and st: "cache_struct c" and lm: "length (entries c) \<le> m" using inv by (auto simp: cache_inv_def)
  note gs = gather_spec [OF all g]
  have entry: "\<exists>drt. cstate c (b + of_nat i) = Some (ds ! i, drt)" if "i < ?n" for i
    using gs that by (fastforce simp: cstate_def)
  then have sizes: "\<forall>x \<in> set ds. length x = ?s" and lt: "\<forall>i < ?n. unat (b + of_nat i) < ?cnt"
    using co by (auto simp: in_set_conv_nth) blast+
  note addr = run_addresses [OF wf lt]
  have ne: "?n \<noteq> 0" using gather_nonempty [OF all g] by simp
  then obtain j where "?n = Suc j" by (cases ?n) auto
  then have fit: "unat b + ?n \<le> ?cnt" using addr [of j] lt [rule_format, of j] by simp
  obtain d1 where d1: "dev_write dev b (concat ds) d = (Inr (), d1)" "wf d1" "dev_block_count dev d1 = ?cnt"
    "\<forall>k < ?cnt. view d1 k = put_blocks ?s (unat b) (concat ds) (view d) k"
    using write_law [OF wf length_concat_blocks [OF sizes] fit] by blast
  have v1: "view d1 k = (if unat b \<le> k \<and> k < unat b + ?n then ds ! (k - unat b) else view d k)" if "k < ?cnt" for k
    using d1(4) that size_pos length_concat_blocks [OF sizes] subslice_concat_nth [OF sizes]
    by (auto simp: put_blocks_def)
  note cl = clean_blocks_spec [OF st, of b ds, folded c1_def]
  let ?run = "\<lambda>a. \<exists>i < ?n. a = b + of_nat i"
  have f1: "cstate c1 a = cstate c a" if "\<not> ?run a" for a using cl that by blast
  have r1: "cstate c1 (b + of_nat i) = Some (ds ! i, False)" if "i < ?n" for i using cl entry [OF that] that by blast
  have run: "?run a \<longleftrightarrow> unat b \<le> unat a \<and> unat a < unat b + ?n" for a
  proof
    assume "unat b \<le> unat a \<and> unat a < unat b + ?n"
    then have "unat (b + of_nat (unat a - unat b)) = unat a" "unat a - unat b < ?n"
      using addr [of "unat a - unat b"] by auto
    then show "?run a" by (metis word_unat_eq_iff)
  qed (use addr in auto)
  have "cache_coherent ?s ?cnt (view d1) c1"
    unfolding coherent_cstate
  proof (intro allI impI)
    fix a x drt assume a: "cstate c1 a = Some (x, drt)"
    show "length x = ?s \<and> unat a < ?cnt \<and> (\<not> drt \<longrightarrow> x = view d1 (unat a))"
    proof (cases "?run a")
      case True
      then obtain i where i: "i < ?n" "a = b + of_nat i" by blast
      then have "unat b + i < ?cnt" using lt addr by metis
      then show ?thesis using a i r1 [OF i(1)] sizes [rule_format, OF nth_mem [OF i(1)]] addr [OF i(1)] v1 [of "unat b + i"] by simp
    next
      case False
      then show ?thesis using a f1 [OF False] co v1 run by auto
    qed
  qed
  then have i1: "cinv m (c1, d1)" using d1 cl lm by (simp add: cache_inv_def)
  have vw: "cache_view view (c1, d1) k = cache_view view (c, d) k" if k: "k < ?cnt" for k
  proof -
    have u: "unat (of_nat k :: u64) = k" using k count_bound [OF wf] by (intro unat_of_nat_small) simp
    show ?thesis
    proof (cases "?run (of_nat k)")
      case True
      then obtain i where i: "i < ?n" "of_nat k = b + of_nat i" by blast
      then show ?thesis using r1 [OF i(1)] entry [OF i(1)] by (auto simp: cache_view_cstate)
    next
      case False
      then have "\<not> (unat b \<le> k \<and> k < unat b + ?n)" using run [of "of_nat k"] u by simp
      then show ?thesis using f1 [OF False] v1 [OF k] by (auto simp: cache_view_cstate split: option.splits)
    qed
  qed
  have "set (b # bs) = set (take ?n (b # bs)) \<union> set rest"
    using gs by (metis append_take_drop_id set_append)
  moreover have "?run a" if "a \<in> set (take ?n (b # bs))" for a
    using that gs by (auto simp: in_set_conv_nth)
  moreover have "\<not> ?run a" "a \<in> set (b # bs)" if "cstate c1 a = Some (x, True)" for a x
  proof -
    show "\<not> ?run a" using that r1 by auto
    then show "a \<in> set (b # bs)" using that f1 dirty by metis
  qed
  ultimately have "\<forall>a x. cstate c1 a = Some (x, True) \<longrightarrow> a \<in> set rest" by blast
  moreover have "\<forall>a \<in> set rest. find_entry c1 a \<noteq> None"
    using all gs cl by (metis cstate_None in_set_dropD option.distinct(1))
  moreover have "write_device_aligned dev env b (concat ds) d = dev_write dev b (concat ds) d"
    using assms(2) by (simp add: write_device_aligned_def)
  ultimately show ?thesis using d1 i1 vw by (intro exI [of _ d1]) simp
qed

lemma flush_loop_spec:
  assumes "cinv m (c, d)" "heap_ok env" "\<forall>a \<in> set bs. find_entry c a \<noteq> None"
    "\<forall>a x. cstate c a = Some (x, True) \<longrightarrow> a \<in> set bs"
  shows "\<exists>c' d'. flush_loop dev env staged bs c d = (Inr (), c', d') \<and> cinv m (c', d') \<and>
    dev_block_count dev d' = dev_block_count dev d \<and>
    (\<forall>k < dev_block_count dev d. cache_view view (c', d') k = cache_view view (c, d) k) \<and>
    (\<forall>a x. cstate c' a \<noteq> Some (x, True))"
  using assms
proof (induction "length bs" arbitrary: bs c d rule: less_induct)
  case less
  show ?case
  proof (cases bs)
    case Nil
    then show ?thesis using less.prems by auto
  next
    case (Cons b bs1)
    obtain ds rest where g: "gather c b 0 (b # bs1) = (ds, rest)" by fastforce
    obtain x xs where ds: "ds = x # xs"
      using gather_nonempty [OF _ g] less.prems(3) Cons by (cases ds) auto
    let ?c = "clean_blocks b ds c"
    obtain d1 where d1: "(if staged then dev_write dev b (concat ds) d else write_device_aligned dev env b (concat ds) d) = (Inr (), d1)"
      "cinv m (?c, d1)" "dev_block_count dev d1 = dev_block_count dev d"
      "\<forall>k < dev_block_count dev d. cache_view view (?c, d1) k = cache_view view (c, d) k"
      "\<forall>a x. cstate ?c a = Some (x, True) \<longrightarrow> a \<in> set rest" "\<forall>a \<in> set rest. find_entry ?c a \<noteq> None"
      using flush_chunk [OF less.prems(1,2) less.prems(3,4) [unfolded Cons] g] by blast
    have "length rest < length bs" using gather_progress [OF g [symmetric]] Cons by simp
    from less.hyps [OF this d1(2) less.prems(2) d1(6,5)] d1 show ?thesis
      using g ds by (auto simp: Cons simp del: gather.simps clean_blocks.simps concat.simps split: if_splits)
  qed
qed

lemma flush_spec:
  assumes "cinv m (c, d)" "heap_ok env"
  shows "\<exists>c' d'. cache_flush dev env staged (c, d) = (Inr (), c', d') \<and> cinv m (c', d') \<and>
    dev_block_count dev d' = dev_block_count dev d \<and>
    (\<forall>k < dev_block_count dev d. cache_view view (c', d') k = cache_view view (c, d) k \<and> view d' k = cache_view view (c, d) k) \<and>
    \<not> has_dirty_blocks c'"
proof -
  let ?L = "map fst (filter (\<lambda>(b, e). dirty e) (entries c))" and ?cnt = "dev_block_count dev d"
  have dist: "distinct (map fst (entries c))" using assms(1) by (simp add: cache_inv_def cache_struct_def)
  have L: "a \<in> set ?L \<longleftrightarrow> (\<exists>x. cstate c a = Some (x, True))" for a
    using dist by (force simp: cstate_def find_entry_def)
  have "\<exists>c1 d1. (if ?L \<noteq> [] then flush_loop dev env staged (remdups (sort ?L)) c d else (Inr (), c, d)) = (Inr (), c1, d1) \<and>
      cinv m (c1, d1) \<and> dev_block_count dev d1 = ?cnt \<and>
      (\<forall>k < ?cnt. cache_view view (c1, d1) k = cache_view view (c, d) k) \<and> (\<forall>a x. cstate c1 a \<noteq> Some (x, True))"
  proof (cases "?L = []")
    case True
    then have "\<forall>a x. cstate c a \<noteq> Some (x, True)" using L by (metis empty_iff empty_set)
    then show ?thesis using True assms(1) by auto
  next
    case False
    have "\<forall>a \<in> set (remdups (sort ?L)). find_entry c a \<noteq> None"
      "\<forall>a x. cstate c a = Some (x, True) \<longrightarrow> a \<in> set (remdups (sort ?L))"
      using L unfolding set_remdups set_sort by (metis cstate_None option.distinct(1), blast)
    from flush_loop_spec [OF assms this] show ?thesis using False by simp
  qed
  then obtain c1 d1 where r: "(if ?L \<noteq> [] then flush_loop dev env staged (remdups (sort ?L)) c d else (Inr (), c, d)) = (Inr (), c1, d1)"
    and i: "cinv m (c1, d1)" "dev_block_count dev d1 = ?cnt" "\<forall>k < ?cnt. cache_view view (c1, d1) k = cache_view view (c, d) k"
    and nd: "\<forall>a x. cstate c1 a \<noteq> Some (x, True)" by blast
  obtain d2 where f: "dev_flush dev d1 = (Inr (), d2)" "wf d2" "dev_block_count dev d2 = ?cnt" "\<forall>k < ?cnt. view d2 k = view d1 k"
    using flush_law [of d1] i by (auto simp: cache_inv_def)
  have i2: "cinv m (c1, d2)" using i f by (auto simp: cache_inv_def coherent_cstate)
  have v2: "cache_view view (c1, d2) k = cache_view view (c1, d1) k" if "k < ?cnt" for k
    using that f(4) by (simp add: cache_view_cstate split: option.splits)
  have c2: "view d2 k = cache_view view (c1, d1) k" if k: "k < ?cnt" for k
  proof -
    have "unat (of_nat k :: u64) = k"
      using k count_bound [of d1] i by (intro unat_of_nat_small) (auto simp: cache_inv_def)
    moreover have "x = view d1 (unat a)" if "cstate c1 a = Some (x, False)" for a x
      using i(1) that unfolding cache_inv_def coherent_cstate by auto
    ultimately show ?thesis
      using f(4) k nd by (cases "cstate c1 (of_nat k)") (auto simp: cache_view_cstate split: prod.splits, metis (full_types))
  qed
  have "n_dirty c1 = 0"
  proof -
    have "\<not> dirty e" if "(a, e) \<in> set (entries c1)" for a e
      using that nd i(1) by (auto simp: cstate_def find_entry_def cache_inv_def cache_struct_def)
    then show ?thesis by (auto simp: filter_empty_conv)
  qed
  then have "\<not> has_dirty_blocks c1" using i(1) by (simp add: has_dirty_blocks_def cache_inv_def cache_struct_def)
  moreover have "cache_flush dev env staged (c, d) = (Inr (), c1, d2)"
    using r f(1) by (auto simp: cache_flush_def Let_def split: if_splits)
  ultimately show ?thesis using i2 i f(3) v2 c2 by auto
qed

lemma cinv_dev:
  assumes "cinv m (c, d)" "wf d1" "dev_block_count dev d1 = dev_block_count dev d"
    "\<forall>k < dev_block_count dev d. view d1 k = view d k"
  shows "cinv m (c, d1) \<and> (\<forall>k < dev_block_count dev d. cache_view view (c, d1) k = cache_view view (c, d) k)"
  using assms by (auto simp: cache_inv_def coherent_cstate cache_view_cstate split: option.splits)

lemma cache_view_size:
  assumes "cinv m (c, d)" "k < dev_block_count dev d"
  shows "length (cache_view view (c, d) k) = dev_block_size dev"
  using assms view_size [of d k] by (auto simp: cache_inv_def coherent_cstate cache_view_cstate split: option.splits)

text \<open>
  A read of several blocks returns the current contents as long as, apart from the first one, no
  block of the run is dirty in the cache.
\<close>

lemma read_block_spec:
  assumes inv: "cinv m (c, d)" and "0 < m" "heap_ok env" and fit: "unat b + n \<le> dev_block_count dev d"
    and clean: "\<forall>i < n. 0 < i \<longrightarrow> \<not> (\<exists>x. cstate c (of_nat (unat b + i)) = Some (x, True))"
  shows "\<exists>c' d'. cache_read_block dev m env b (n * dev_block_size dev) (c, d) =
      (Inr (blocks_of (cache_view view (c, d)) (unat b) n), c', d') \<and> cinv m (c', d') \<and>
    dev_block_count dev d' = dev_block_count dev d \<and>
    (\<forall>k < dev_block_count dev d. cache_view view (c', d') k = cache_view view (c, d) k)"
proof (cases "read_hits b n c")
  case (Some p)
  then show ?thesis
    using read_hits_spec [OF inv fit, of "fst p" "snd p"] size_pos by (cases p) (simp add: cache_read_block_def)
next
  case None
  let ?s = "dev_block_size dev" and ?cnt = "dev_block_count dev d"
  have wf: "wf d" using inv by (simp add: cache_inv_def)
  obtain d1 where d1: "dev_read dev b (n * ?s) d = (Inr (blocks_of (view d) (unat b) n), d1)" "wf d1"
    "dev_block_count dev d1 = ?cnt" "\<forall>k < ?cnt. view d1 k = view d k" using read_law [OF wf fit] by blast
  note i1 = cinv_dev [OF inv d1(2,3,4)]
  have vs: "\<forall>x \<in> set (map (view d) [unat b..<unat b + n]). length x = ?s" using fit view_size [OF wf] by auto
  then have l: "length (blocks_of (view d) (unat b) n) = n * ?s"
    unfolding blocks_of_def using length_concat_blocks by fastforce
  have xs: "\<forall>i < length (split_blocks ?s (blocks_of (view d) (unat b) n)).
      split_blocks ?s (blocks_of (view d) (unat b) n) ! i = view d1 (unat b + i)"
    using l size_pos subslice_concat_nth [OF vs] d1(4) fit by (simp add: split_blocks_nth blocks_of_def)
  have bo: "blocks_of (cache_view view (c, d1)) (unat b) n = blocks_of (cache_view view (c, d)) (unat b) n"
    unfolding blocks_of_def using i1 fit by (intro arg_cong [where f = concat] map_cong) auto
  have "read_device dev env b (n * ?s) d = dev_read dev b (n * ?s) d" using assms(3) by (simp add: read_device_def)
  then show ?thesis
    using read_fill_spec [OF i1 [THEN conjunct1] assms(2,3) _ xs] l size_pos fit clean d1(1,3) i1 None bo
    by (simp add: cache_read_block_def)
qed

lemma write_block_spec:
  assumes "cinv m (c, d)" "0 < m" "heap_ok env" "length data = n * dev_block_size dev" "unat b + n \<le> dev_block_count dev d"
  shows "\<exists>c' d'. cache_write_block dev m env b data (c, d) = (Inr (), c', d') \<and> cinv m (c', d') \<and>
    dev_block_count dev d' = dev_block_count dev d \<and>
    (\<forall>k < dev_block_count dev d. cache_view view (c', d') k =
       put_blocks (dev_block_size dev) (unat b) data (cache_view view (c, d)) k)"
proof -
  let ?s = "dev_block_size dev"
  have n: "length (split_blocks ?s data) = n" using assms(4) size_pos by simp
  obtain c' d' where w: "write_blocks dev m env b (split_blocks ?s data) c d = (Inr (), c', d')" "cinv m (c', d')"
    "dev_block_count dev d' = dev_block_count dev d"
    "\<forall>k < dev_block_count dev d. cache_view view (c', d') k =
       (if unat b \<le> k \<and> k < unat b + n then split_blocks ?s data ! (k - unat b) else cache_view view (c, d) k)"
    using write_blocks_spec [OF assms(1,2,3) _ split_blocks_sizes, of b data] n assms(5) by auto
  have "split_blocks ?s data ! (k - unat b) = subslice ((k - unat b) * ?s) ?s data" if "unat b \<le> k" "k < unat b + n" for k
    using that n by (intro split_blocks_nth) auto
  then show ?thesis
    using w n assms(4) size_pos by (intro exI [of _ c'] exI [of _ d']) (auto simp: cache_write_block_def put_blocks_def)
qed

end

section \<open>The cached device meets the contract again\<close>

locale cached_device = block_device dev wf view
  for dev :: "'d block_dev" and wf :: "'d \<Rightarrow> bool" and view :: "'d \<Rightarrow> nat \<Rightarrow> u8 list" +
  fixes max_blocks :: nat and env :: mem_env and staged :: bool
  assumes capacity: "0 < max_blocks" and memory: "heap_ok env"

sublocale cached_device \<subseteq> cached: block_store "cached_dev dev max_blocks env staged" "cache_inv dev wf view max_blocks" "cache_view view"
proof
  let ?cd = "cached_dev dev max_blocks env staged"
  show "0 < dev_block_size ?cd" using size_pos by (simp add: cached_dev_def)
  fix s assume "cache_inv dev wf view max_blocks s"
  then obtain c d where s: "s = (c, d)" and inv: "cache_inv dev wf view max_blocks (c, d)" by (cases s) auto
  then have wf: "wf d" by (simp add: cache_inv_def)
  show "dev_block_count ?cd s < 2 ^ 64" using count_bound [OF wf] by (simp add: cached_dev_def s)
  show "length (cache_view view s k) = dev_block_size ?cd" if "k < dev_block_count ?cd s" for k
    using cache_view_size [OF inv] that by (simp add: cached_dev_def s)
  show "\<exists>s'. dev_flush ?cd s = (Inr (), s') \<and> cache_inv dev wf view max_blocks s' \<and>
      dev_block_count ?cd s' = dev_block_count ?cd s \<and> (\<forall>k < dev_block_count ?cd s. cache_view view s' k = cache_view view s k)"
    using flush_spec [OF inv memory, of staged] by (auto simp: cached_dev_def s)
  show "\<exists>s'. dev_read ?cd b (dev_block_size ?cd) s = (Inr (cache_view view s (unat b)), s') \<and>
      cache_inv dev wf view max_blocks s' \<and> dev_block_count ?cd s' = dev_block_count ?cd s \<and>
      (\<forall>k < dev_block_count ?cd s. cache_view view s' k = cache_view view s k)" if "unat b < dev_block_count ?cd s" for b
    using read_block_spec [OF inv capacity memory, of b 1] that by (auto simp: cached_dev_def s blocks_of_def)
  show "\<exists>s'. dev_write ?cd b data s = (Inr (), s') \<and> cache_inv dev wf view max_blocks s' \<and>
      dev_block_count ?cd s' = dev_block_count ?cd s \<and>
      (\<forall>k < dev_block_count ?cd s. cache_view view s' k = put_blocks (dev_block_size ?cd) (unat b) data (cache_view view s) k)"
    if "length data = n * dev_block_size ?cd" "unat b + n \<le> dev_block_count ?cd s" for b data n
    using write_block_spec [OF inv capacity memory, of data n b] that by (auto simp: cached_dev_def s)
qed

context cached_device
begin

lemmas cached_run = cached.run_array

end

text \<open>The cache of the boot volume: 65536 blocks.\<close>

interpretation kcache: cached_device ram_dev ram_wf ram_view 65536 "\<lparr> aligned = False, heap_ok = True \<rparr>" True
  by unfold_locales simp_all

lemma empty_cache_inv:
  "wfd d \<Longrightarrow> cache_inv dev wfd view m (block_cache_new, d) \<and> cache_view view (block_cache_new, d) = view d"
  by (auto simp: cache_inv_def block_cache_new_def cache_struct_def cache_coherent_def find_entry_def cache_view_def)

text \<open>
  C2. The block cache is transparent: for every sequence of single-block reads, writes of any
  number of blocks and flushes within the device, the cached RAM disk returns exactly what the
  bare RAM disk returns, for every capacity, and never holds more blocks than that; after a
  flush the disk below holds exactly the contents the bare disk has, and no block is dirty.
\<close>

theorem cache_transparent:
  assumes "ram_wf d" "0 < m" "heap_ok env" "\<forall>x \<in> set ops. op_fits 512 (ram_block_count d) x"
    and "dev_run (cached_dev ram_dev m env staged) ops (block_cache_new, d) = (rs, c1, d1)"
    and "dev_run ram_dev ops d = (rs', d')"
  shows "rs = rs' \<and> length (entries c1) \<le> m \<and>
    (\<exists>c2 d2. cache_flush ram_dev env staged (c1, d1) = (Inr (), c2, d2) \<and> \<not> has_dirty_blocks c2 \<and>
       (\<forall>k < ram_block_count d. ram_view d2 k = ram_view d' k))"
proof -
  have loc: "cached_device ram_dev ram_wf ram_view m env"
    using assms(2,3) by (intro cached_device.intro ram.block_device_axioms cached_device_axioms.intro)
  have n: "dev_block_size ram_dev = 512" "dev_block_count ram_dev = ram_block_count" by (simp_all add: ram_dev_def)
  let ?i = "cache_inv ram_dev ram_wf ram_view m" and ?a = "array_run 512 ops (ram_view d)"
  note e = empty_cache_inv [of ram_wf d ram_dev ram_view m, OF assms(1)]
  have c: "rs = fst ?a" "?i (c1, d1)" "ram_block_count d1 = ram_block_count d"
    "\<forall>k < ram_block_count d. cache_view ram_view (c1, d1) k = snd ?a k"
    using cached_device.cached_run [OF loc, of "(block_cache_new, d)" ops staged] e assms(4,5)
    by (auto simp: cached_dev_def n)
  moreover have "rs' = fst ?a" "\<forall>k < ram_block_count d. ram_view d' k = snd ?a k"
    using ram.run_array [OF assms(1), of ops] assms(4,6) by (auto simp: n)
  moreover from ram.flush_spec [OF c(2) assms(3), of staged]
  obtain c2 d2 where "cache_flush ram_dev env staged (c1, d1) = (Inr (), c2, d2)" "\<not> has_dirty_blocks c2"
    "\<forall>k < ram_block_count d. ram_view d2 k = cache_view ram_view (c1, d1) k"
    using c(3) by (auto simp: n)
  moreover have "length (entries c1) \<le> m" using c(2) by (simp add: cache_inv_def)
  ultimately show ?thesis by auto
qed

definition demo_disk :: ram_disk where
  "demo_disk = \<lparr> disk_data = replicate 2048 0 \<rparr>"

definition demo_mem :: mem_env where
  "demo_mem = \<lparr> aligned = False, heap_ok = True \<rparr>"

definition demo_ops :: "blk_op list" where
  "demo_ops = [WriteBlocks 1 (replicate 1024 7), ReadBlock 0, ReadBlock 2, WriteBlocks 0 (replicate 512 9), ReadBlock 1]"

theorem cache_transparent_witness:
  "fst (dev_run (cached_dev ram_dev 1 demo_mem True) demo_ops (block_cache_new, demo_disk)) =
     fst (dev_run ram_dev demo_ops demo_disk)"
proof -
  obtain rs c1 d1 where a: "dev_run (cached_dev ram_dev 1 demo_mem True) demo_ops (block_cache_new, demo_disk) = (rs, c1, d1)"
    by (metis prod_cases3)
  obtain rs' d' where b: "dev_run ram_dev demo_ops demo_disk = (rs', d')" by fastforce
  have "ram_wf demo_disk" "heap_ok demo_mem" "\<forall>x \<in> set demo_ops. op_fits 512 (ram_block_count demo_disk) x"
    by (simp_all add: demo_disk_def demo_mem_def demo_ops_def ram_wf_def ram_block_count_def)
  from cache_transparent [OF this(1) zero_less_one this(2,3) a b] show ?thesis unfolding a b by simp
qed

section \<open>Reads of several blocks\<close>

context block_device
begin

lemma make_room_idle: "length (entries c) < m \<Longrightarrow> make_room dev m env c d = (Inr (), c, d)"
  by (subst make_room.simps) (simp add: evict_branches(1))

lemma make_room_dirty:
  assumes "m \<le> length (entries c)" "fifo_queue c = b # q" "find_entry c b = Some e" "\<not> referenced e" "dirty e"
    "length (entries (del_entry b c)) < m" "write_device_aligned dev env b (ce_data e) d = (Inr (), d1)"
  shows "make_room dev m env c d = (Inr (), (del_entry b c)\<lparr> fifo_queue := q, dirty_count := dirty_count c - 1 \<rparr>, d1)"
  using assms by (subst make_room.simps) (simp add: evict_branches(5) make_room_idle)

text \<open>
  A cache of two blocks. Blocks 0 and 1 are written, then block 2, which evicts block 0. The read
  of blocks 0 and 1 misses block 0 and reads both from the device, where block 1 is still
  old; making room for block 0 evicts block 1, so the old contents are taken for block 1.
\<close>

lemma stale_read:
  assumes "wf d" "3 \<le> dev_block_count dev d" "heap_ok env"
    and l: "length n0 = dev_block_size dev" "length n1 = dev_block_size dev" "length w = dev_block_size dev"
    and w1: "cache_write_block dev 2 env 0 (n0 @ n1) (block_cache_new, d) = (r1, s1)"
    and w2: "cache_write_block dev 2 env 2 w s1 = (r2, s2)"
  shows "r1 = Inr () \<and> r2 = Inr () \<and>
    fst (cache_read_block dev 2 env 0 (2 * dev_block_size dev) s2) = Inr (n0 @ view d 1)"
proof -
  let ?s = "dev_block_size dev" and ?e = "\<lambda>x drt. \<lparr> ce_data = x, referenced = False, dirty = drt \<rparr>"
  have split2: "split_blocks ?s (x @ y) = [x, y]" if "length x = ?s" "length y = ?s" for x y
  proof -
    have "length (x @ y) = 2 * ?s" using that by simp
    then have "length (x @ y) div ?s = 2" using size_pos by simp
    moreover have "[0..<2] = [0, 1]" by (simp add: upt_rec)
    ultimately show ?thesis using that by (simp add: split_blocks_def subslice_def del: length_append)
  qed
  have split1: "split_blocks ?s w = [w]" using l(3) size_pos by (simp add: split_blocks_def subslice_def)
  define c1 where "c1 = \<lparr> entries = [(0, ?e n0 True), (1, ?e n1 True)], fifo_queue = [0, 1], dirty_count = 2 \<rparr>"
  define c2 where "c2 = \<lparr> entries = [(1, ?e n1 True), (2, ?e w True)], fifo_queue = [1, 2], dirty_count = 2 \<rparr>"
  note ev = make_room_idle find_entry_def set_entry_def del_entry_def insert_entry_def block_cache_new_def
  have "length (n0 @ n1) mod ?s = 0" using l by simp
  then have "cache_write_block dev 2 env 0 (n0 @ n1) (block_cache_new, d) = (Inr (), c1, d)"
    using split2 [OF l(1,2)] by (simp add: cache_write_block_def ev c1_def del: length_append)
  then have s1: "r1 = Inr ()" "s1 = (c1, d)" using w1 by simp_all
  obtain d1 where d1: "write_device_aligned dev env 0 n0 d = (Inr (), d1)" "wf d1" "dev_block_count dev d1 = dev_block_count dev d"
    "\<forall>k < dev_block_count dev d. view d1 k = (if k = unat (0::u64) then n0 else view d k)"
    using write_aligned_one [OF assms(1) l(1), of 0 env] assms(2,3) by auto
  have "make_room dev 2 env c1 d = (Inr (), \<lparr> entries = [(1, ?e n1 True)], fifo_queue = [1], dirty_count = 1 \<rparr>, d1)"
    using d1(1) by (subst make_room_dirty [where b = 0 and q = "[1]" and e = "?e n0 True"]) (auto simp: c1_def ev)
  moreover have "find_entry c1 2 = None" by (simp add: c1_def find_entry_def)
  moreover have "length w mod ?s = 0" using l by simp
  ultimately have "cache_write_block dev 2 env 2 w (c1, d) = (Inr (), c2, d1)"
    by (simp add: cache_write_block_def split1 c2_def set_entry_def insert_entry_def)
  then have s2: "r2 = Inr ()" "s2 = (c2, d1)" using w2 s1 by simp_all
  obtain d2 where d2: "dev_read dev 0 (2 * ?s) d1 = (Inr (n0 @ view d 1), d2)" "wf d2"
    "dev_block_count dev d2 = dev_block_count dev d"
    using read_law [OF d1(2), of 0 2] d1(3,4) assms(2) by (auto simp: blocks_of_def numeral_2_eq_2)
  obtain d3 where d3: "write_device_aligned dev env 1 n1 d2 = (Inr (), d3)" "wf d3" "dev_block_count dev d3 = dev_block_count dev d"
    using write_aligned_one [OF d2(2) l(2), of 1 env] d2(3) assms(2,3) by auto
  obtain d4 where d4: "write_device_aligned dev env 2 w d3 = (Inr (), d4)"
    using write_aligned_one [OF d3(2) l(3), of 2 env] d3(3) assms(2,3) by auto
  let ?c3 = "\<lparr> entries = [(2, ?e w True), (0, ?e n0 False)], fifo_queue = [2, 0], dirty_count = 1 \<rparr>"
  have r3: "make_room dev 2 env c2 d2 = (Inr (), \<lparr> entries = [(2, ?e w True)], fifo_queue = [2], dirty_count = 1 \<rparr>, d3)"
    using d3(1) by (subst make_room_dirty [where b = 1 and q = "[2]" and e = "?e n1 True"]) (auto simp: c2_def ev)
  have r4: "make_room dev 2 env ?c3 d3 = (Inr (), \<lparr> entries = [(0, ?e n0 False)], fifo_queue = [0], dirty_count = 0 \<rparr>, d4)"
    using d4 by (subst make_room_dirty [where b = 2 and q = "[0]" and e = "?e w True"]) (auto simp: ev)
  have f2: "find_entry c2 0 = None" "find_entry ?c3 1 = None" by (simp_all add: c2_def find_entry_def)
  have ins: "insert_entry 0 n0 False \<lparr> entries = [(2, ?e w True)], fifo_queue = [2], dirty_count = 1 \<rparr> = ?c3"
    by (simp add: insert_entry_def set_entry_def)
  have "length (view d 1) = ?s" using view_size [OF assms(1), of 1] assms(2) by simp
  then have "fst (read_fill dev 2 env 0 (split_blocks ?s (n0 @ view d 1)) c2 d2) = Inr (n0 @ view d 1)"
    using l(1) r3 r4 f2 ins by (simp add: split2)
  moreover have "read_hits 0 2 c2 = None" using f2(1) by (simp add: numeral_2_eq_2)
  moreover have "read_device dev env 0 (2 * ?s) d1 = (Inr (n0 @ view d 1), d2)"
    using d2(1) assms(3) by (simp add: read_device_def)
  ultimately show ?thesis using s1 s2 size_pos by (simp add: cache_read_block_def)
qed

end

text \<open>
  C35. A read of several blocks through the cache can return stale data. With a cache of two blocks
  over a RAM disk of at least three: after blocks 0 and 1 have been written and then block
  2, reading blocks 0 and 1 in one call succeeds but returns for block 1 the contents it had
  before the write.
\<close>

theorem multi_block_read_stale:
  assumes "ram_wf d" "3 \<le> ram_block_count d" "heap_ok env"
    and "length n0 = 512" "length n1 = 512" "length w = 512"
    and "cache_write_block ram_dev 2 env 0 (n0 @ n1) (block_cache_new, d) = (r1, s1)"
    and "cache_write_block ram_dev 2 env 2 w s1 = (r2, s2)"
  shows "r1 = Inr () \<and> r2 = Inr () \<and> fst (cache_read_block ram_dev 2 env 0 1024 s2) = Inr (n0 @ ram_view d 1)"
proof -
  have "dev_block_size ram_dev = 512" "dev_block_count ram_dev = ram_block_count" by (simp_all add: ram_dev_def)
  then show ?thesis using ram.stale_read [of d env n0 n1 w] assms by auto
qed

theorem multi_block_read_stale_witness:
  "\<exists>s1 s2. cache_write_block ram_dev 2 demo_mem 0 (replicate 1024 1) (block_cache_new, demo_disk) = (Inr (), s1) \<and>
     cache_write_block ram_dev 2 demo_mem 2 (replicate 512 2) s1 = (Inr (), s2) \<and>
     fst (cache_read_block ram_dev 2 demo_mem 0 1024 s2) = Inr (replicate 512 1 @ replicate 512 0)"
proof -
  have e: "replicate 1024 (1::u8) = replicate 512 1 @ replicate 512 1"
    by (simp only: replicate_add [symmetric]) simp
  obtain r1 s1 where 1: "cache_write_block ram_dev 2 demo_mem 0 (replicate 512 1 @ replicate 512 1) (block_cache_new, demo_disk) = (r1, s1)"
    by (meson surj_pair)
  obtain r2 s2 where 2: "cache_write_block ram_dev 2 demo_mem 2 (replicate 512 2) s1 = (r2, s2)" by (meson surj_pair)
  have v: "ram_view demo_disk 1 = replicate 512 0"
    unfolding demo_disk_def ram_view_def subslice_def by (simp only: ram_disk.simps drop_replicate take_replicate) simp
  have d: "ram_wf demo_disk" "3 \<le> ram_block_count demo_disk" "heap_ok demo_mem"
    by (simp_all add: demo_disk_def demo_mem_def ram_wf_def ram_block_count_def)
  show ?thesis
    using multi_block_read_stale [OF d length_replicate length_replicate length_replicate 1 2] 1 2 unfolding e v by blast
qed

end
