(* ===== verification/Inet_Checksum.thy ===== *)
theory Inet_Checksum
  imports Kernel_Prelude
begin

text \<open>
  IPv4 addresses and the Internet checksum of \<open>net/ipv4.rs\<close>: the unrolled accumulation loops over a
  32-bit sum, the fold loop, the pseudo-header sum of the transport protocols. The reference is the
  one's-complement sum of RFC 1071.
\<close>

section \<open>Byte order\<close>

text \<open>\<open>to_be_bytes\<close> of the two widths the headers use, and the little-endian layout in memory.\<close>

definition be_bytes16 :: "u16 \<Rightarrow> u8 list" where
  "be_bytes16 w = [ucast (drop_bit 8 w), ucast w]"

definition be_bytes32 :: "u32 \<Rightarrow> u8 list" where
  "be_bytes32 w = [ucast (drop_bit 24 w), ucast (drop_bit 16 w), ucast (drop_bit 8 w), ucast w]"

lemma length_be_bytes [simp]: "length (be_bytes16 w) = 2" "length (be_bytes32 v) = 4"
  by (simp_all add: be_bytes16_def be_bytes32_def)

definition le_bytes16 :: "u16 \<Rightarrow> u8 list" where
  "le_bytes16 w = rev (be_bytes16 w)"

definition le_bytes32 :: "u32 \<Rightarrow> u8 list" where
  "le_bytes32 w = rev (be_bytes32 w)"

text \<open>\<open>u16::from_be\<close> and \<open>to_be\<close> on a little-endian machine: both swap the bytes.\<close>

definition swap16 :: "u16 \<Rightarrow> u16" where
  "swap16 w = from_le_bytes (be_bytes16 w)"

definition swap32 :: "u32 \<Rightarrow> u32" where
  "swap32 w = from_le_bytes (be_bytes32 w)"

section \<open>Addresses\<close>

datatype ipv4_addr = Ipv4Addr u8 u8 u8 u8

fun octets :: "ipv4_addr \<Rightarrow> u8 list" where
  "octets (Ipv4Addr a b c d) = [a, b, c, d]"

definition UNSPECIFIED :: ipv4_addr where "UNSPECIFIED = Ipv4Addr 0 0 0 0"
definition LOCALHOST :: ipv4_addr where "LOCALHOST = Ipv4Addr 127 0 0 1"
definition BROADCAST :: ipv4_addr where "BROADCAST = Ipv4Addr 255 255 255 255"

definition to_u32 :: "ipv4_addr \<Rightarrow> u32" where
  "to_u32 a = from_be_bytes (octets a)"

definition from_u32 :: "u32 \<Rightarrow> ipv4_addr" where
  "from_u32 w = (case be_bytes32 w of [a, b, c, d] \<Rightarrow> Ipv4Addr a b c d | _ \<Rightarrow> UNSPECIFIED)"

fun is_loopback :: "ipv4_addr \<Rightarrow> bool" where
  "is_loopback (Ipv4Addr a b c d) \<longleftrightarrow> a = 127"

definition is_broadcast :: "ipv4_addr \<Rightarrow> bool" where
  "is_broadcast a \<longleftrightarrow> a = BROADCAST"

fun is_multicast :: "ipv4_addr \<Rightarrow> bool" where
  "is_multicast (Ipv4Addr a b c d) \<longleftrightarrow> 224 \<le> a \<and> a \<le> 239"

fun is_private :: "ipv4_addr \<Rightarrow> bool" where
  "is_private (Ipv4Addr a b c d) \<longleftrightarrow>
     (if a = 10 then True else if a = 172 then 16 \<le> b \<and> b \<le> 31 else if a = 192 then b = 168 else False)"

section \<open>The checksum routines\<close>

text \<open>\<open>u16::from_be_bytes([data[i], data[i + 1]]) as u32\<close>.\<close>

definition be16_at :: "u8 list \<Rightarrow> nat \<Rightarrow> u32" where
  "be16_at data i = ucast (from_be_bytes [data ! i, data ! (i + 1)] :: u16)"

text \<open>The right-hand side of the unrolled loop: sixteen words.\<close>

definition block_sum :: "u8 list \<Rightarrow> nat \<Rightarrow> u32" where
  "block_sum d i =
     be16_at d i + be16_at d (i + 2) + be16_at d (i + 4) + be16_at d (i + 6) +
     be16_at d (i + 8) + be16_at d (i + 10) + be16_at d (i + 12) + be16_at d (i + 14) +
     be16_at d (i + 16) + be16_at d (i + 18) + be16_at d (i + 20) + be16_at d (i + 22) +
     be16_at d (i + 24) + be16_at d (i + 26) + be16_at d (i + 28) + be16_at d (i + 30)"

function sum_unrolled :: "u8 list \<Rightarrow> nat \<Rightarrow> u32 \<Rightarrow> nat \<times> u32" where
  "sum_unrolled d i s = (if i + 32 \<le> length d then sum_unrolled d (i + 32) (s + block_sum d i) else (i, s))"
  by pat_completeness auto
termination by (relation "measure (\<lambda>(d, i, s). length d - i)") auto

function sum_words :: "u8 list \<Rightarrow> nat \<Rightarrow> u32 \<Rightarrow> nat \<times> u32" where
  "sum_words d i s = (if i + 1 < length d then sum_words d (i + 2) (s + be16_at d i) else (i, s))"
  by pat_completeness auto
termination by (relation "measure (\<lambda>(d, i, s). length d - i)") auto

definition sum_tail :: "u8 list \<Rightarrow> nat \<Rightarrow> u32 \<Rightarrow> u32" where
  "sum_tail d i s = (if i < length d then s + push_bit 8 (ucast (d ! i)) else s)"

text \<open>The three accumulation phases, from a given start value.\<close>

definition sum_data :: "u8 list \<Rightarrow> u32 \<Rightarrow> u32" where
  "sum_data d s0 =
     (case sum_unrolled d 0 s0 of (i, s) \<Rightarrow> case sum_words d i s of (i', s') \<Rightarrow> sum_tail d i' s')"

lemma unat_u8: "unat (a :: u8) < 256" "unat (a :: u8) \<le> 255"
  using unsigned_less [of a, where ?'a = nat] by simp_all

lemma unat_u32: "unat (a :: u32) < 4294967296"
  using unsigned_less [of a, where ?'a = nat] by simp

lemma unat_high_half: "unat (drop_bit 16 s :: u32) = unat s div 65536"
  unfolding unat_drop_bit_eq by (simp add: drop_bit_eq_div)

lemma unat_low_half: "unat (s AND 0xFFFF :: u32) = unat s mod 65536"
  using unat_and_mask [of s 16] by simp

lemma unat_fold_step:
  "unat ((s AND 0xFFFF) + drop_bit 16 s :: u32) = unat s mod 65536 + unat s div 65536"
proof -
  have "unat s div 65536 < 65536"
    using unat_u32 [of s] by (simp add: less_mult_imp_div_less)
  then show ?thesis
    by (subst unat_add_small) (simp_all add: unat_high_half unat_low_half)
qed

function fold_sum :: "u32 \<Rightarrow> u32" where
  "fold_sum s = (if drop_bit 16 s \<noteq> 0 then fold_sum ((s AND 0xFFFF) + drop_bit 16 s) else s)"
  by pat_completeness auto
termination
proof (relation "measure unat")
  fix s :: u32
  assume "drop_bit 16 s \<noteq> 0"
  then have "unat (drop_bit 16 s) \<noteq> 0" using unat_eq_zero by blast
  then have "unat s mod 65536 + unat s div 65536 < unat s"
    unfolding unat_high_half using div_mult_mod_eq [of "unat s" 65536] by linarith
  then show "((s AND 0xFFFF) + drop_bit 16 s, s) \<in> measure unat"
    by (simp add: unat_fold_step)
qed simp

declare sum_unrolled.simps [simp del] sum_words.simps [simp del] fold_sum.simps [simp del]

definition internet_checksum :: "u8 list \<Rightarrow> u16" where
  "internet_checksum d = NOT (ucast (fold_sum (sum_data d 0)))"

text \<open>The pseudo-header of the transport protocols.\<close>

definition pseudo_sum :: "ipv4_addr \<Rightarrow> ipv4_addr \<Rightarrow> u8 \<Rightarrow> nat \<Rightarrow> u32" where
  "pseudo_sum src dst protocol len =
     be16_at (octets src) 0 + be16_at (octets src) 2 + be16_at (octets dst) 0 + be16_at (octets dst) 2 +
     ucast protocol + of_nat len"

definition compute_transport_checksum :: "ipv4_addr \<Rightarrow> ipv4_addr \<Rightarrow> u8 \<Rightarrow> u8 list \<Rightarrow> u16" where
  "compute_transport_checksum src dst protocol seg =
     (let csum = NOT (ucast (fold_sum (sum_data seg (pseudo_sum src dst protocol (length seg))))) :: u16
      in if csum = 0 then 0xFFFF else csum)"

section \<open>The reference: one's-complement sums\<close>

text \<open>The 16-bit words of a message, the last one padded with a zero byte.\<close>

fun be_words :: "u8 list \<Rightarrow> nat list" where
  "be_words [] = []"
| "be_words [a] = [256 * unat a]"
| "be_words (a # b # r) = (256 * unat a + unat b) # be_words r"

text \<open>16-bit addition with end-around carry.\<close>

definition oc_add :: "nat \<Rightarrow> nat \<Rightarrow> nat" where
  "oc_add a b = (if 65536 \<le> a + b then a + b - 65535 else a + b)"

definition oc_sum :: "nat list \<Rightarrow> nat" where
  "oc_sum ws = foldr oc_add ws 0"

text \<open>The one's-complement value of a plain sum.\<close>

definition oc_value :: "nat \<Rightarrow> nat" where
  "oc_value n = (if n = 0 then 0 else (n - 1) mod 65535 + 1)"

lemma oc_value_le: "oc_value n \<le> 65535"
  using mod_less_divisor [of 65535 "n - 1"] by (simp add: oc_value_def) linarith

lemma oc_value_small: "n < 65536 \<Longrightarrow> oc_value n = n"
  by (simp add: oc_value_def)

lemma oc_value_minus: "65535 < n \<Longrightarrow> oc_value n = oc_value (n - 65535)"
  by (auto simp: oc_value_def le_mod_geq)

lemma oc_value_shift: "0 < n \<Longrightarrow> oc_value (n + 65535 * k) = oc_value n"
proof (induction k)
  case (Suc k)
  then have "oc_value (n + 65535 * Suc k) = oc_value (n + 65535 * k)"
    by (subst oc_value_minus) (simp_all add: algebra_simps)
  with Suc show ?case by simp
qed simp

lemma oc_value_add: "oc_value (oc_value a + b) = oc_value (a + b)"
proof (cases "a = 0")
  case False
  define k where "k = (a - 1) div 65535"
  have a: "a = oc_value a + 65535 * k"
    using False div_mult_mod_eq [of "a - 1" 65535] by (simp add: oc_value_def k_def)
  have "oc_value (a + b) = oc_value (oc_value a + b + 65535 * k)"
    by (subst a) (simp add: algebra_simps)
  also have "\<dots> = oc_value (oc_value a + b)"
    using False by (intro oc_value_shift) (simp add: oc_value_def)
  finally show ?thesis by simp
qed (simp add: oc_value_def)

lemma oc_add_value: "a < 65536 \<Longrightarrow> b < 65536 \<Longrightarrow> oc_add a b = oc_value (a + b)"
  by (cases "a + b < 65536") (auto simp: oc_add_def oc_value_small oc_value_minus)

lemma oc_sum_value: "\<forall>w \<in> set ws. w < 65536 \<Longrightarrow> oc_sum ws = oc_value (sum_list ws)"
proof (induction ws)
  case (Cons w ws)
  then have "oc_sum (w # ws) = oc_value (w + oc_value (sum_list ws))"
    using oc_value_le [of "sum_list ws"] by (simp add: oc_sum_def oc_add_value)
  also have "\<dots> = oc_value (w + sum_list ws)"
    using oc_value_add [of "sum_list ws" w] by (simp add: add.commute)
  finally show ?case by simp
qed (simp add: oc_sum_def oc_value_def)

lemma be_words_bound: "\<forall>w \<in> set (be_words d). w < 65536"
proof (induction d rule: be_words.induct)
  case (2 a)
  then show ?case using unat_u8 [of a] by simp
next
  case (3 a b r)
  then show ?case using unat_u8 [of a] unat_u8 [of b] by simp
qed simp

lemma sum_be_words_bound: "sum_list (be_words d) \<le> 65535 * ((length d + 1) div 2)"
proof (induction d rule: be_words.induct)
  case (2 a)
  then show ?case using unat_u8 [of a] by simp
next
  case (3 a b r)
  then show ?case using unat_u8 [of a] unat_u8 [of b] by simp
qed simp

section \<open>The loops compute the sum\<close>

lemma from_le_bytes_Cons:
  "from_le_bytes (b # bs) = of_nat (unat b) + 256 * (from_le_bytes bs :: 'a::len word)"
proof -
  have "ucast b AND push_bit 8 (from_le_bytes bs) = (0 :: 'a word)"
    by (rule bit_word_eqI) (auto simp: bit_simps dest: bit_imp_le_length)
  then have "from_le_bytes (b # bs) = ucast b + push_bit 8 (from_le_bytes bs :: 'a word)"
    by (simp add: disjunctive_add_eq_or)
  then show ?thesis by (simp add: push_bit_eq_mult mult.commute)
qed

lemma be16_at_nat: "be16_at d i = of_nat (256 * unat (d ! i) + unat (d ! (i + 1)))"
proof -
  have "from_be_bytes [d ! i, d ! (i + 1)] = (of_nat (256 * unat (d ! i) + unat (d ! (i + 1))) :: u16)"
    by (simp add: from_be_bytes_def from_le_bytes_Cons del: from_le_bytes.simps(2))
  moreover have "256 * unat (d ! i) + unat (d ! (i + 1)) < 65536"
    using unat_u8 [of "d ! i"] unat_u8 [of "d ! (i + 1)"] by simp
  ultimately show ?thesis
    unfolding be16_at_def by (simp only: unsigned_of_nat) (simp add: take_bit_nat_eq_self)
qed

text \<open>The sum of the words from a position on, modulo \<open>2 ^ 32\<close>.\<close>

definition wsum :: "u8 list \<Rightarrow> nat \<Rightarrow> u32" where
  "wsum d i = of_nat (sum_list (be_words (drop i d)))"

lemma wsum_step: "i + 1 < length d \<Longrightarrow> wsum d i = be16_at d i + wsum d (i + 2)"
  by (simp add: wsum_def be16_at_nat Cons_nth_drop_Suc [symmetric])

lemma wsum_block:
  assumes "i + 32 \<le> length d"
  shows "wsum d i = block_sum d i + wsum d (i + 32)"
proof -
  have "wsum d (i + 2 * k) = be16_at d (i + 2 * k) + wsum d (i + 2 * Suc k)" if "k < 16" for k
    using wsum_step [of "i + 2 * k" d] assms that by (simp add: algebra_simps)
  from this [of 0] this [of 1] this [of 2] this [of 3] this [of 4] this [of 5] this [of 6] this [of 7]
    this [of 8] this [of 9] this [of 10] this [of 11] this [of 12] this [of 13] this [of 14] this [of 15]
  show ?thesis by (simp add: block_sum_def add.assoc)
qed

lemma sum_unrolled_wsum:
  "sum_unrolled d i s = (j, t) \<Longrightarrow> t + wsum d j = s + wsum d i"
proof (induction d i s rule: sum_unrolled.induct)
  case (1 d i s)
  then show ?case
    using wsum_block [of i d] sum_unrolled.simps [of d i s]
    by (cases "i + 32 \<le> length d") (auto simp: algebra_simps)
qed

lemma sum_words_wsum: "case sum_words d i s of (j, t) \<Rightarrow> sum_tail d j t = s + wsum d i"
proof (induction d i s rule: sum_words.induct)
  case (1 d i s)
  show ?case
  proof (cases "i + 1 < length d")
    case True
    with 1 show ?thesis
      using wsum_step [of i d] sum_words.simps [of d i s] by (simp add: algebra_simps)
  next
    case False
    then have "drop i d = (if i < length d then [d ! i] else [])"
      by (auto simp: Cons_nth_drop_Suc [symmetric])
    then show ?thesis
      using False sum_words.simps [of d i s]
      by (simp add: sum_tail_def wsum_def push_bit_eq_mult mult.commute)
  qed
qed

lemma sum_data_wsum: "sum_data d s = s + of_nat (sum_list (be_words d))"
proof -
  obtain i t where u: "sum_unrolled d 0 s = (i, t)" by (meson surj_pair)
  from sum_unrolled_wsum [OF u] sum_words_wsum [where d = d and i = i and s = t] show ?thesis
    by (simp add: sum_data_def u split: prod.splits) (simp add: wsum_def)
qed

lemma fold_sum_value: "unat (fold_sum s) = oc_value (unat s)"
proof (induction s rule: fold_sum.induct)
  case (1 s)
  show ?case
  proof (cases "drop_bit 16 s = 0")
    case True
    then have "unat (drop_bit 16 s) = 0" by simp
    then have "unat s < 65536" unfolding unat_high_half by (simp add: div_eq_0_iff)
    with True show ?thesis by (subst fold_sum.simps) (simp add: oc_value_small)
  next
    case False
    then have "0 < unat (drop_bit 16 s)" using unat_eq_zero by blast
    then have pos: "0 < unat s div 65536" by (simp add: unat_high_half)
    have "oc_value (unat s) =
          oc_value ((unat s mod 65536 + unat s div 65536) + 65535 * (unat s div 65536))"
      by (rule arg_cong [where f = oc_value]) (use div_mult_mod_eq [of "unat s" 65536] in linarith)
    also have "\<dots> = oc_value (unat s mod 65536 + unat s div 65536)"
      using pos by (intro oc_value_shift) simp
    finally show ?thesis
      using False 1 by (subst fold_sum.simps) (simp add: unat_fold_step)
  qed
qed

lemma unat_not: "unat (NOT w :: 'a::len word) = 2 ^ LENGTH('a) - 1 - unat w"
proof -
  have "unat (- 1 - w) = unat (- 1 :: 'a word) - unat w"
    by (rule unat_sub) simp
  moreover have "NOT w = - 1 - w" by (simp add: not_eq_complement)
  ultimately show ?thesis by (simp only: unsigned_minus_1_eq_mask mask_eq_exp_minus_1)
qed

lemma not_fold_value: "unat (NOT (ucast (fold_sum s)) :: u16) = 65535 - oc_value (unat s)"
proof -
  have "unat (ucast (fold_sum s) :: u16) = oc_value (unat s)"
    using oc_value_le [of "unat s"]
    by (simp add: unsigned_ucast_eq fold_sum_value take_bit_nat_eq_self)
  then show ?thesis by (simp add: unat_not)
qed

lemma internet_checksum_value:
  assumes "length d \<le> 131072"
  shows "unat (internet_checksum d) = 65535 - oc_value (sum_list (be_words d))"
proof -
  have "sum_list (be_words d) < 2 ^ 32"
    using sum_be_words_bound [of d] assms by simp
  then have "unat (of_nat (sum_list (be_words d)) :: u32) = sum_list (be_words d)"
    by (simp add: unat_of_nat_small)
  then show ?thesis
    by (simp add: internet_checksum_def not_fold_value sum_data_wsum)
qed

text \<open>
  C11. The Internet checksum computed by the unrolled loops over a 32-bit accumulator is the
  complement of the one's-complement sum of the message's 16-bit words (RFC 1071), for every message
  of up to 131072 bytes, which is twice the largest IPv4 packet: the accumulator does not overflow
  and the fold loop ends with the end-around carries applied.
\<close>

theorem internet_checksum_rfc1071:
  assumes "length d \<le> 131072"
  shows "internet_checksum d = of_nat (65535 - oc_sum (be_words d))"
proof -
  have "of_nat (unat (internet_checksum d)) = (of_nat (65535 - oc_sum (be_words d)) :: u16)"
    by (simp only: internet_checksum_value [OF assms] oc_sum_value [OF be_words_bound])
  then show ?thesis by simp
qed

theorem internet_checksum_rfc1071_witness:
  "length [0x45, 0, 0xFF :: u8] \<le> 131072 \<and> internet_checksum [0x45, 0, 0xFF] = 0xBBFE"
  using internet_checksum_rfc1071 [of "[0x45, 0, 0xFF]"] by (simp add: oc_sum_def oc_add_def)

section \<open>A checksum field makes the sum verify\<close>

lemma be_words_append: "even (length xs) \<Longrightarrow> be_words (xs @ ys) = be_words xs @ be_words ys"
  by (induction xs rule: be_words.induct) auto

lemma unat_be_bytes16: "256 * unat (ucast (drop_bit 8 c) :: u8) + unat (ucast c :: u8) = unat (c :: u16)"
proof -
  have "unat c < 65536" using unsigned_less [of c, where ?'a = nat] by simp
  then have "unat c div 256 < 256" by (simp add: less_mult_imp_div_less)
  then show ?thesis
    using div_mult_mod_eq [of "unat c" 256]
    by (simp only: unsigned_ucast_eq unat_drop_bit_eq) (simp add: drop_bit_eq_div take_bit_eq_mod)
qed

lemma be_words_be_bytes16: "be_words (be_bytes16 c @ r) = unat c # be_words r"
  by (simp add: be_bytes16_def unat_be_bytes16)

text \<open>Filling a zero 16-bit field at an even position adds its value to the sum.\<close>

lemma sum_be_words_field:
  assumes "even p" "p + 2 \<le> length d" "d ! p = 0" "d ! (p + 1) = 0"
  shows "sum_list (be_words (copy_at p (be_bytes16 c) d)) = sum_list (be_words d) + unat c"
proof -
  have e: "even (length (take p d))" using assms by simp
  have "be_words d = be_words (take p d @ drop p d)" by simp
  also have "\<dots> = be_words (take p d) @ be_words (drop p d)" using e by (rule be_words_append)
  also have "drop p d = 0 # 0 # drop (p + 2) d"
    using assms by (simp add: Cons_nth_drop_Suc [symmetric])
  finally have d: "sum_list (be_words d) = sum_list (be_words (take p d)) + sum_list (be_words (drop (p + 2) d))"
    by simp
  have "copy_at p (be_bytes16 c) d = take p d @ be_bytes16 c @ drop (p + 2) d"
    by (simp add: copy_at_def be_bytes16_def)
  with d e show ?thesis by (simp add: be_words_append be_words_be_bytes16)
qed

lemma internet_checksum_field:
  assumes "even p" "p + 2 \<le> length d" "d ! p = 0" "d ! (p + 1) = 0" "length d \<le> 131072"
  shows "internet_checksum (copy_at p (be_bytes16 (internet_checksum d)) d) = 0"
proof -
  let ?s = "sum_list (be_words d)" and ?d = "copy_at p (be_bytes16 (internet_checksum d)) d"
  have len: "length ?d \<le> 131072"
    using assms by (simp add: length_copy_at be_bytes16_def)
  have "oc_value (?s + (65535 - oc_value ?s)) = oc_value (oc_value ?s + (65535 - oc_value ?s))"
    by (simp add: oc_value_add)
  also have "\<dots> = 65535" using oc_value_le [of ?s] by (simp add: oc_value_small)
  finally have "unat (internet_checksum ?d) = 0"
    using assms(1-5) by (simp add: internet_checksum_value [OF len] sum_be_words_field internet_checksum_value)
  then show ?thesis using unat_eq_zero by blast
qed

text \<open>The sum a receiver of a transport segment computes: pseudo-header words and segment words.\<close>

definition transport_sum :: "ipv4_addr \<Rightarrow> ipv4_addr \<Rightarrow> u8 \<Rightarrow> u8 list \<Rightarrow> nat" where
  "transport_sum src dst protocol seg =
     sum_list (be_words (octets src @ octets dst)) + unat protocol + length seg + sum_list (be_words seg)"

lemma be16_at_octets: "be16_at (octets a) 0 + be16_at (octets a) 2 = of_nat (sum_list (be_words (octets a)))"
  by (cases a) (simp add: be16_at_nat add.assoc)

lemma transport_checksum_value:
  assumes "length seg \<le> 65535"
  shows "unat (NOT (ucast (fold_sum (sum_data seg (pseudo_sum src dst protocol (length seg))))) :: u16) =
         65535 - oc_value (transport_sum src dst protocol seg)"
proof -
  have "sum_list (be_words (octets src @ octets dst)) \<le> 65535 * 4"
    using sum_be_words_bound [of "octets src @ octets dst"] by (cases src; cases dst) auto
  moreover have "sum_list (be_words seg) \<le> 65535 * 32768"
    by (rule order_trans [OF sum_be_words_bound]) (use assms in simp)
  ultimately have b: "transport_sum src dst protocol seg < 2 ^ 32"
    using assms unat_u8 [of protocol] by (simp add: transport_sum_def)
  have "be_words (octets src @ octets dst) = be_words (octets src) @ be_words (octets dst)"
    by (rule be_words_append) (cases src; simp)
  then have "sum_data seg (pseudo_sum src dst protocol (length seg)) = of_nat (transport_sum src dst protocol seg)"
    using be16_at_octets [of src] be16_at_octets [of dst]
    by (simp add: sum_data_wsum pseudo_sum_def transport_sum_def add.assoc [symmetric])
  then show ?thesis using b by (simp add: not_fold_value unat_of_nat_small)
qed

lemma transport_checksum_field:
  assumes "even p" "p + 2 \<le> length seg" "seg ! p = 0" "seg ! (p + 1) = 0" "length seg \<le> 65535"
  shows "oc_value (transport_sum src dst protocol
           (copy_at p (be_bytes16 (compute_transport_checksum src dst protocol seg)) seg)) = 65535"
proof -
  let ?c = "compute_transport_checksum src dst protocol seg"
  let ?s = "transport_sum src dst protocol seg"
  let ?v = "65535 - oc_value ?s"
  define w :: u16 where
    "w = NOT (ucast (fold_sum (sum_data seg (pseudo_sum src dst protocol (length seg)))))"
  have w: "unat w = ?v" unfolding w_def by (rule transport_checksum_value [OF assms(5)])
  have "?c = (if w = 0 then 0xFFFF else w)"
    by (simp only: compute_transport_checksum_def Let_def w_def)
  then have c: "unat ?c = (if ?v = 0 then 65535 else ?v)"
    using w by (cases "w = 0") (simp, metis unat_eq_zero)
  have "oc_value (oc_value ?s + unat ?c) = 65535"
    unfolding c using oc_value_le [of ?s] by (auto simp: oc_value_def)
  moreover have "transport_sum src dst protocol (copy_at p (be_bytes16 ?c) seg) = ?s + unat ?c"
    using assms by (simp add: transport_sum_def sum_be_words_field length_copy_at)
  ultimately show ?thesis by (simp add: oc_value_add)
qed

end
