(* ===== verification/Net_Wire.thy ===== *)
theory Net_Wire
  imports Inet_Checksum
begin

text \<open>
  Wire formats of \<open>net/\<close>: the packed header structures, their \<open>parse\<close> functions and the functions
  that build Ethernet frames, ARP packets, IPv4 packets, ICMP echo replies, UDP datagrams and TCP
  segments into a buffer. Multi-byte fields of a parsed header hold the raw little-endian reading
  of the bytes, as the packed structures do; the \<open>_host\<close> accessors swap them.
\<close>

type_synonym bytes = "u8 list"

datatype mac = Mac u8 u8 u8 u8 u8 u8

fun mac_bytes :: "mac \<Rightarrow> bytes" where
  "mac_bytes (Mac a b c d e f) = [a, b, c, d, e, f]"

text \<open>Fields of a packed structure laid over the bytes of a packet.\<close>

definition raw16 :: "bytes \<Rightarrow> nat \<Rightarrow> u16" where
  "raw16 data i = from_le_bytes (subslice i 2 data)"

definition raw32 :: "bytes \<Rightarrow> nat \<Rightarrow> u32" where
  "raw32 data i = from_le_bytes (subslice i 4 data)"

definition mac_at :: "bytes \<Rightarrow> nat \<Rightarrow> mac" where
  "mac_at d i = Mac (d ! i) (d ! (i + 1)) (d ! (i + 2)) (d ! (i + 3)) (d ! (i + 4)) (d ! (i + 5))"

definition addr_at :: "bytes \<Rightarrow> nat \<Rightarrow> ipv4_addr" where
  "addr_at d i = Ipv4Addr (d ! i) (d ! (i + 1)) (d ! (i + 2)) (d ! (i + 3))"

section \<open>Ethernet\<close>

record ethernet_header =
  eth_dst_mac :: mac
  eth_src_mac :: mac
  eth_ethertype :: u16

definition ETHERTYPE_IPV4 :: u16 where "ETHERTYPE_IPV4 = 0x0800"
definition ETHERTYPE_ARP :: u16 where "ETHERTYPE_ARP = 0x0806"
definition BROADCAST_MAC :: mac where "BROADCAST_MAC = Mac 0xFF 0xFF 0xFF 0xFF 0xFF 0xFF"

definition ethernet_parse :: "bytes \<Rightarrow> (ethernet_header \<times> bytes) option" where
  "ethernet_parse data =
     (if length data < 14 then None
      else Some (\<lparr> eth_dst_mac = mac_at data 0, eth_src_mac = mac_at data 6, eth_ethertype = raw16 data 12 \<rparr>,
                 drop 14 data))"

definition ethertype_host :: "ethernet_header \<Rightarrow> u16" where
  "ethertype_host h = swap16 (eth_ethertype h)"

definition eth_is_broadcast :: "ethernet_header \<Rightarrow> bool" where
  "eth_is_broadcast h \<longleftrightarrow> eth_dst_mac h = BROADCAST_MAC"

text \<open>The functions that fill a buffer return it with the number of bytes written.\<close>

definition build_frame :: "bytes \<Rightarrow> mac \<Rightarrow> mac \<Rightarrow> u16 \<Rightarrow> bytes \<Rightarrow> (bytes \<times> nat) option" where
  "build_frame buf dst src ethertype payload =
     (let total_len = 14 + length payload in
      if length buf < total_len then None
      else Some (copy_at 14 payload
                  (copy_at 12 (be_bytes16 ethertype)
                    (copy_at 6 (mac_bytes src)
                      (copy_at 0 (mac_bytes dst) buf))), total_len))"

section \<open>ARP\<close>

record arp_packet =
  arp_hw_type :: u16
  arp_proto_type :: u16
  arp_hw_len :: u8
  arp_proto_len :: u8
  arp_operation :: u16
  arp_sender_mac :: mac
  arp_sender_ip :: ipv4_addr
  arp_target_mac :: mac
  arp_target_ip :: ipv4_addr

definition ARP_HW_ETHERNET :: u16 where "ARP_HW_ETHERNET = 1"
definition ARP_OP_REQUEST :: u16 where "ARP_OP_REQUEST = 1"
definition ARP_OP_REPLY :: u16 where "ARP_OP_REPLY = 2"

definition arp_of_bytes :: "bytes \<Rightarrow> arp_packet" where
  "arp_of_bytes d =
     \<lparr> arp_hw_type = raw16 d 0, arp_proto_type = raw16 d 2, arp_hw_len = d ! 4, arp_proto_len = d ! 5,
       arp_operation = raw16 d 6, arp_sender_mac = mac_at d 8, arp_sender_ip = addr_at d 14,
       arp_target_mac = mac_at d 18, arp_target_ip = addr_at d 24 \<rparr>"

definition arp_bytes :: "arp_packet \<Rightarrow> bytes" where
  "arp_bytes p =
     le_bytes16 (arp_hw_type p) @ le_bytes16 (arp_proto_type p) @ [arp_hw_len p, arp_proto_len p] @
     le_bytes16 (arp_operation p) @ mac_bytes (arp_sender_mac p) @ octets (arp_sender_ip p) @
     mac_bytes (arp_target_mac p) @ octets (arp_target_ip p)"

definition arp_parse :: "bytes \<Rightarrow> arp_packet option" where
  "arp_parse data =
     (if length data < 28 then None
      else let packet = arp_of_bytes data in
        if swap16 (arp_hw_type packet) \<noteq> ARP_HW_ETHERNET then None
        else if arp_hw_len packet \<noteq> 6 \<or> arp_proto_len packet \<noteq> 4 then None
        else Some packet)"

definition operation_host :: "arp_packet \<Rightarrow> u16" where
  "operation_host p = swap16 (arp_operation p)"

section \<open>IPv4\<close>

record ipv4_header =
  ip_version_ihl :: u8
  ip_tos :: u8
  ip_total_length :: u16
  ip_identification :: u16
  ip_flags_fragment :: u16
  ip_ttl :: u8
  ip_protocol :: u8
  ip_checksum :: u16
  ip_src_addr :: ipv4_addr
  ip_dst_addr :: ipv4_addr

definition PROTO_ICMP :: u8 where "PROTO_ICMP = 1"
definition PROTO_TCP :: u8 where "PROTO_TCP = 6"
definition PROTO_UDP :: u8 where "PROTO_UDP = 17"

definition ipv4_of_bytes :: "bytes \<Rightarrow> ipv4_header" where
  "ipv4_of_bytes d =
     \<lparr> ip_version_ihl = d ! 0, ip_tos = d ! 1, ip_total_length = raw16 d 2, ip_identification = raw16 d 4,
       ip_flags_fragment = raw16 d 6, ip_ttl = d ! 8, ip_protocol = d ! 9, ip_checksum = raw16 d 10,
       ip_src_addr = addr_at d 12, ip_dst_addr = addr_at d 16 \<rparr>"

definition ipv4_bytes :: "ipv4_header \<Rightarrow> bytes" where
  "ipv4_bytes h =
     [ip_version_ihl h, ip_tos h] @ le_bytes16 (ip_total_length h) @ le_bytes16 (ip_identification h) @
     le_bytes16 (ip_flags_fragment h) @ [ip_ttl h, ip_protocol h] @ le_bytes16 (ip_checksum h) @
     octets (ip_src_addr h) @ octets (ip_dst_addr h)"

definition header_length :: "ipv4_header \<Rightarrow> nat" where
  "header_length h = unat (ip_version_ihl h AND 0x0F) * 4"

definition total_length_host :: "ipv4_header \<Rightarrow> u16" where
  "total_length_host h = swap16 (ip_total_length h)"

definition ipv4_parse :: "bytes \<Rightarrow> (ipv4_header \<times> bytes) option" where
  "ipv4_parse data =
     (if length data < 20 then None
      else let header = ipv4_of_bytes data in
        if drop_bit 4 (ip_version_ihl header) \<noteq> 4 then None
        else let ihl = header_length header in
          if ihl < 20 \<or> length data < ihl then None
          else let total_len = unat (total_length_host header) in
            if total_len < ihl \<or> length data < total_len then None
            else Some (header, subslice ihl (total_len - ihl) data))"

text \<open>\<open>verify_checksum\<close> reads the header's bytes in place, from the packet it was parsed from.\<close>

definition ipv4_verify_checksum :: "bytes \<Rightarrow> ipv4_header \<Rightarrow> bool" where
  "ipv4_verify_checksum data h \<longleftrightarrow> internet_checksum (take (header_length h) data) = 0"

text \<open>The identification counter is drawn, and advanced, only once the packet is known to fit.\<close>

definition build_ipv4_packet ::
  "u16 \<Rightarrow> bytes \<Rightarrow> ipv4_addr \<Rightarrow> ipv4_addr \<Rightarrow> u8 \<Rightarrow> bytes \<Rightarrow> u16 \<times> (bytes \<times> nat) option" where
  "build_ipv4_packet ip_ident buf src_ip dst_ip protocol payload =
     (let total_len = 20 + length payload in
      if length buf < total_len \<or> 65535 < total_len then (ip_ident, None)
      else
        let header = \<lparr> ip_version_ihl = 0x45, ip_tos = 0, ip_total_length = swap16 (of_nat total_len),
              ip_identification = swap16 ip_ident, ip_flags_fragment = 0, ip_ttl = 64,
              ip_protocol = protocol, ip_checksum = 0, ip_src_addr = src_ip, ip_dst_addr = dst_ip \<rparr>;
            header' = header \<lparr> ip_checksum := swap16 (internet_checksum (ipv4_bytes header)) \<rparr>
        in (ip_ident + 1, Some (copy_at 20 payload (copy_at 0 (ipv4_bytes header') buf), total_len)))"

section \<open>ICMP\<close>

record icmp_header =
  icmp_type :: u8
  icmp_code :: u8
  icmp_checksum :: u16

record icmp_echo =
  echo_header :: icmp_header
  echo_identifier :: u16
  echo_sequence :: u16

definition ICMP_ECHO_REPLY :: u8 where "ICMP_ECHO_REPLY = 0"
definition ICMP_ECHO_REQUEST :: u8 where "ICMP_ECHO_REQUEST = 8"

definition icmp_of_bytes :: "bytes \<Rightarrow> icmp_header" where
  "icmp_of_bytes d = \<lparr> icmp_type = d ! 0, icmp_code = d ! 1, icmp_checksum = raw16 d 2 \<rparr>"

definition icmp_parse :: "bytes \<Rightarrow> (icmp_header \<times> bytes) option" where
  "icmp_parse data = (if length data < 4 then None else Some (icmp_of_bytes data, drop 4 data))"

definition icmp_verify_checksum :: "bytes \<Rightarrow> bool" where
  "icmp_verify_checksum data \<longleftrightarrow> internet_checksum data = 0"

definition echo_parse :: "bytes \<Rightarrow> (icmp_echo \<times> bytes) option" where
  "echo_parse data =
     (if length data < 8 then None
      else Some (\<lparr> echo_header = icmp_of_bytes data, echo_identifier = raw16 data 4, echo_sequence = raw16 data 6 \<rparr>,
                 drop 8 data))"

definition identifier_host :: "icmp_echo \<Rightarrow> u16" where
  "identifier_host e = swap16 (echo_identifier e)"

definition sequence_host :: "icmp_echo \<Rightarrow> u16" where
  "sequence_host e = swap16 (echo_sequence e)"

definition build_echo_reply :: "bytes \<Rightarrow> u16 \<Rightarrow> u16 \<Rightarrow> bytes \<Rightarrow> (bytes \<times> nat) option" where
  "build_echo_reply buf identifier sequence echo_data =
     (let total_len = 8 + length echo_data in
      if length buf < total_len then None
      else
        let b1 = copy_at 8 echo_data
                   (copy_at 6 (be_bytes16 sequence)
                     (copy_at 4 (be_bytes16 identifier) (buf[0 := ICMP_ECHO_REPLY, 1 := 0, 2 := 0, 3 := 0])));
            checksum = internet_checksum (take total_len b1)
        in Some (copy_at 2 (be_bytes16 checksum) b1, total_len))"

section \<open>UDP\<close>

record udp_header =
  udp_src_port :: u16
  udp_dst_port :: u16
  udp_length :: u16
  udp_checksum :: u16

definition udp_parse :: "bytes \<Rightarrow> (udp_header \<times> bytes) option" where
  "udp_parse data =
     (if length data < 8 then None
      else
        let header = \<lparr> udp_src_port = raw16 data 0, udp_dst_port = raw16 data 2,
                       udp_length = raw16 data 4, udp_checksum = raw16 data 6 \<rparr>;
            len = unat (swap16 (udp_length header))
        in if len < 8 \<or> length data < len then None
           else Some (header, subslice 8 (len - 8) data))"

definition udp_src_port_host :: "udp_header \<Rightarrow> u16" where
  "udp_src_port_host h = swap16 (udp_src_port h)"

definition udp_dst_port_host :: "udp_header \<Rightarrow> u16" where
  "udp_dst_port_host h = swap16 (udp_dst_port h)"

definition udp_length_host :: "udp_header \<Rightarrow> u16" where
  "udp_length_host h = swap16 (udp_length h)"

definition build_datagram ::
  "bytes \<Rightarrow> ipv4_addr \<Rightarrow> ipv4_addr \<Rightarrow> u16 \<Rightarrow> u16 \<Rightarrow> bytes \<Rightarrow> (bytes \<times> nat) option" where
  "build_datagram buf src_ip dst_ip src_port dst_port payload =
     (let total_len = 8 + length payload in
      if length buf < total_len \<or> 65535 < total_len then None
      else
        let b1 = copy_at 8 payload
                   (copy_at 6 [0, 0]
                     (copy_at 4 (be_bytes16 (of_nat total_len))
                       (copy_at 2 (be_bytes16 dst_port)
                         (copy_at 0 (be_bytes16 src_port) buf))));
            checksum = compute_transport_checksum src_ip dst_ip PROTO_UDP (take total_len b1)
        in Some (copy_at 6 (be_bytes16 checksum) b1, total_len))"

section \<open>TCP\<close>

record tcp_header =
  tcp_src_port :: u16
  tcp_dst_port :: u16
  tcp_seq_num :: u32
  tcp_ack_num :: u32
  tcp_data_offset_flags :: u16
  tcp_window :: u16
  tcp_checksum :: u16
  tcp_urgent_ptr :: u16

definition TCP_FIN :: u16 where "TCP_FIN = 0x001"
definition TCP_SYN :: u16 where "TCP_SYN = 0x002"
definition TCP_RST :: u16 where "TCP_RST = 0x004"
definition TCP_PSH :: u16 where "TCP_PSH = 0x008"
definition TCP_ACK :: u16 where "TCP_ACK = 0x010"

definition tcp_of_bytes :: "bytes \<Rightarrow> tcp_header" where
  "tcp_of_bytes d =
     \<lparr> tcp_src_port = raw16 d 0, tcp_dst_port = raw16 d 2, tcp_seq_num = raw32 d 4, tcp_ack_num = raw32 d 8,
       tcp_data_offset_flags = raw16 d 12, tcp_window = raw16 d 14, tcp_checksum = raw16 d 16,
       tcp_urgent_ptr = raw16 d 18 \<rparr>"

definition tcp_bytes :: "tcp_header \<Rightarrow> bytes" where
  "tcp_bytes h =
     le_bytes16 (tcp_src_port h) @ le_bytes16 (tcp_dst_port h) @ le_bytes32 (tcp_seq_num h) @
     le_bytes32 (tcp_ack_num h) @ le_bytes16 (tcp_data_offset_flags h) @ le_bytes16 (tcp_window h) @
     le_bytes16 (tcp_checksum h) @ le_bytes16 (tcp_urgent_ptr h)"

definition tcp_parse :: "bytes \<Rightarrow> (tcp_header \<times> bytes) option" where
  "tcp_parse data =
     (if length data < 20 then None
      else
        let header = tcp_of_bytes data;
            data_offset = unat (drop_bit 12 (swap16 (tcp_data_offset_flags header)) AND 0xF) * 4
        in if data_offset < 20 \<or> length data < data_offset then None
           else Some (header, drop data_offset data))"

definition tcp_src_port_host :: "tcp_header \<Rightarrow> u16" where
  "tcp_src_port_host h = swap16 (tcp_src_port h)"

definition tcp_dst_port_host :: "tcp_header \<Rightarrow> u16" where
  "tcp_dst_port_host h = swap16 (tcp_dst_port h)"

definition seq_num_host :: "tcp_header \<Rightarrow> u32" where
  "seq_num_host h = swap32 (tcp_seq_num h)"

definition ack_num_host :: "tcp_header \<Rightarrow> u32" where
  "ack_num_host h = swap32 (tcp_ack_num h)"

definition tcp_flags :: "tcp_header \<Rightarrow> u16" where
  "tcp_flags h = swap16 (tcp_data_offset_flags h) AND 0x1FF"

definition build_tcp_packet ::
  "bytes \<Rightarrow> ipv4_addr \<Rightarrow> ipv4_addr \<Rightarrow> u16 \<Rightarrow> u16 \<Rightarrow> u32 \<Rightarrow> u32 \<Rightarrow> u16 \<Rightarrow> u16 \<Rightarrow> bytes \<Rightarrow> (bytes \<times> nat) option" where
  "build_tcp_packet buf src_ip dst_ip src_port dst_port seq ack flags window payload =
     (let total_len = 20 + length payload in
      if length buf < total_len then None
      else
        let data_offset_flags = push_bit 12 5 OR (flags AND 0x1FF);
            header = \<lparr> tcp_src_port = swap16 src_port, tcp_dst_port = swap16 dst_port,
              tcp_seq_num = swap32 seq, tcp_ack_num = swap32 ack,
              tcp_data_offset_flags = swap16 data_offset_flags, tcp_window = swap16 window,
              tcp_checksum = 0, tcp_urgent_ptr = 0 \<rparr>;
            b1 = copy_at 20 payload (copy_at 0 (tcp_bytes header) buf);
            checksum = compute_transport_checksum src_ip dst_ip PROTO_TCP (take total_len b1)
        in Some (copy_at 16 (be_bytes16 checksum) b1, total_len))"

section \<open>Byte order lemmas\<close>

named_theorems wire_simps "bytes of packet fields"

lemma le_bytes16_from_le: "le_bytes16 (from_le_bytes [a, b]) = [a, b]"
proof -
  have "ucast (drop_bit 8 (ucast a OR push_bit 8 (ucast b) :: u16)) = b"
    by (rule bit_word_eqI) (auto simp: bit_simps dest: bit_imp_le_length)
  moreover have "ucast (ucast a OR push_bit 8 (ucast b) :: u16) = a"
    by (rule bit_word_eqI) (auto simp: bit_simps)
  ultimately show ?thesis by (simp add: le_bytes16_def be_bytes16_def)
qed

lemma le_bytes32_from_le: "le_bytes32 (from_le_bytes [a, b, c, d]) = [a, b, c, d]"
proof -
  let ?w = "from_le_bytes [a, b, c, d] :: u32"
  have "ucast (drop_bit (8 * k) ?w) = [a, b, c, d] ! k" if "k < 4" for k
  proof (rule bit_word_eqI)
    fix n assume "n < LENGTH(8)"
    then have "n < 8" by simp
    then have "(n + 8 * k) div 8 = k" "(n + 8 * k) mod 8 = n" by simp_all
    then show "bit (ucast (drop_bit (8 * k) ?w) :: u8) n = bit ([a, b, c, d] ! k) n"
      using that \<open>n < 8\<close>
      by (simp add: bit_simps from_le_bytes_bit add.commute del: from_le_bytes.simps)
  qed
  from this [of 0] this [of 1] this [of 2] this [of 3]
  show ?thesis by (simp add: le_bytes32_def be_bytes32_def del: from_le_bytes.simps)
qed

lemma from_le_le_bytes16: "from_le_bytes (le_bytes16 w) = w"
  by (rule bit_word_eqI) (auto simp: le_bytes16_def be_bytes16_def bit_simps)

lemma from_le_le_bytes32: "from_le_bytes (le_bytes32 w) = w"
proof (rule bit_word_eqI)
  fix n assume n: "n < LENGTH(32)"
  have k: "le_bytes32 w ! k = ucast (drop_bit (8 * k) w)" if "k < 4" for k
    using that by (cases k rule: nat.exhaust) (auto simp: le_bytes32_def be_bytes32_def less_Suc_eq numeral_eq_Suc)
  have "n div 8 < 4" "8 * (n div 8) + n mod 8 = n" "length (le_bytes32 w) = 4"
    using n by (auto simp: le_bytes32_def)
  then show "bit (from_le_bytes (le_bytes32 w) :: u32) n = bit w n"
    using n by (simp add: from_le_bytes_bit k bit_simps)
qed

lemma be_bytes16_list: "\<exists>a b. be_bytes16 w = [a, b]" and be_bytes32_list: "\<exists>a b c d. be_bytes32 v = [a, b, c, d]"
  by (simp_all add: be_bytes16_def be_bytes32_def)

lemma swap16_swap16 [wire_simps]: "swap16 (swap16 w) = w"
proof -
  obtain a b where w: "be_bytes16 w = [a, b]" using be_bytes16_list by blast
  then have "be_bytes16 (swap16 w) = rev (be_bytes16 w)"
    using le_bytes16_from_le [of a b] by (simp add: swap16_def le_bytes16_def rev_swap)
  then show ?thesis
    using from_le_le_bytes16 [of w] by (simp add: swap16_def le_bytes16_def)
qed

lemma swap32_swap32 [wire_simps]: "swap32 (swap32 w) = w"
proof -
  obtain a b c d where w: "be_bytes32 w = [a, b, c, d]" using be_bytes32_list by blast
  then have "be_bytes32 (swap32 w) = rev (be_bytes32 w)"
    using le_bytes32_from_le [of a b c d] by (simp add: swap32_def le_bytes32_def rev_swap)
  then show ?thesis
    using from_le_le_bytes32 [of w] by (simp add: swap32_def le_bytes32_def)
qed

lemma le_bytes_swap [wire_simps]: "le_bytes16 (swap16 w) = be_bytes16 w" "le_bytes32 (swap32 v) = be_bytes32 v"
proof -
  obtain a b c d e f where "be_bytes16 w = [a, b]" "be_bytes32 v = [c, d, e, f]"
    using be_bytes16_list [of w] be_bytes32_list [of v] by blast
  then show "le_bytes16 (swap16 w) = be_bytes16 w" "le_bytes32 (swap32 v) = be_bytes32 v"
    using le_bytes16_from_le [of a b] le_bytes32_from_le [of c d e f]
    by (simp_all add: swap16_def swap32_def)
qed

lemma le_bytes16_0 [wire_simps]: "le_bytes16 0 = [0, 0]"
  by (simp add: le_bytes16_def be_bytes16_def)

lemma length_addr_bytes [simp]:
  "length (octets a) = 4" "length (mac_bytes m) = 6" "length (le_bytes16 w) = 2" "length (le_bytes32 v) = 4"
  by (cases a; cases m; simp add: le_bytes16_def le_bytes32_def)+

text \<open>Reading a field that starts behind a prefix of known length.\<close>

lemma raw16_at [wire_simps]: "i = length xs \<Longrightarrow> raw16 (xs @ be_bytes16 w @ ys) i = swap16 w"
  by (simp add: raw16_def subslice_def swap16_def)

lemma raw32_at [wire_simps]: "i = length xs \<Longrightarrow> raw32 (xs @ be_bytes32 w @ ys) i = swap32 w"
  by (simp add: raw32_def subslice_def swap32_def)

lemma mac_at_prefix [wire_simps]: "i = length xs \<Longrightarrow> mac_at (xs @ mac_bytes m @ ys) i = m"
  by (cases m) (simp add: mac_at_def nth_append)

lemma addr_at_prefix [wire_simps]: "i = length xs \<Longrightarrow> addr_at (xs @ octets a @ ys) i = a"
  by (cases a) (simp add: addr_at_def nth_append)

text \<open>Consecutive copies into a buffer leave their concatenation at its start.\<close>

lemma take_copy_at_end:
  "n = i + length src \<Longrightarrow> i \<le> length dst \<Longrightarrow> take n (copy_at i src dst) = take i dst @ src"
  by (simp add: copy_at_def)

lemma take_copy_at_inside:
  "i + length src \<le> n \<Longrightarrow> n \<le> length dst \<Longrightarrow> take n (copy_at i src dst) = copy_at i src (take n dst)"
  by (simp add: copy_at_def drop_take)

lemma copy_at_prefix: "i = length xs \<Longrightarrow> length src = length ys \<Longrightarrow> copy_at i src (xs @ ys @ zs) = xs @ src @ zs"
  by (simp add: copy_at_def)

section \<open>Frames and datagrams as byte strings\<close>

lemmas take_copies = take_copy_at_end length_copy_at

lemma build_frame_bytes:
  assumes "14 + length payload \<le> length buf"
  obtains buf' where "build_frame buf dst src t payload = Some (buf', 14 + length payload)"
    "take (14 + length payload) buf' = mac_bytes dst @ mac_bytes src @ be_bytes16 t @ payload"
    "length buf' = length buf"
  using assms by (auto simp: build_frame_def Let_def take_copies)

lemma ethernet_parse_frame:
  "ethernet_parse (mac_bytes dst @ mac_bytes src @ be_bytes16 t @ payload) =
     Some (\<lparr> eth_dst_mac = dst, eth_src_mac = src, eth_ethertype = swap16 t \<rparr>, payload)"
  using mac_at_prefix [of 0 "[]" dst "mac_bytes src @ be_bytes16 t @ payload"]
    mac_at_prefix [of 6 "mac_bytes dst" src "be_bytes16 t @ payload"]
    raw16_at [of 12 "mac_bytes dst @ mac_bytes src" t payload]
  by (simp add: ethernet_parse_def)

definition ipv4_packet_header :: "u16 \<Rightarrow> ipv4_addr \<Rightarrow> ipv4_addr \<Rightarrow> u8 \<Rightarrow> bytes \<Rightarrow> ipv4_header" where
  "ipv4_packet_header ident src dst protocol payload =
     \<lparr> ip_version_ihl = 0x45, ip_tos = 0, ip_total_length = swap16 (of_nat (20 + length payload)),
       ip_identification = swap16 ident, ip_flags_fragment = 0, ip_ttl = 64, ip_protocol = protocol,
       ip_checksum = 0, ip_src_addr = src, ip_dst_addr = dst \<rparr>"

lemma length_ipv4_bytes [simp]: "length (ipv4_bytes h) = 20"
  by (simp add: ipv4_bytes_def)

text \<open>The header bytes determine the header.\<close>

lemma ipv4_of_ipv4_bytes: "ipv4_of_bytes (ipv4_bytes h @ payload) = h"
proof -
  have raw: "raw16 (xs @ le_bytes16 w @ ys) i = w" if "i = length xs" for i xs w ys
    using that by (simp add: raw16_def subslice_def from_le_le_bytes16)
  let ?a = "[ip_version_ihl h, ip_tos h]" and ?tl = "le_bytes16 (ip_total_length h)"
    and ?id = "le_bytes16 (ip_identification h)" and ?ff = "le_bytes16 (ip_flags_fragment h)"
    and ?tp = "[ip_ttl h, ip_protocol h]" and ?ck = "le_bytes16 (ip_checksum h)"
    and ?src = "octets (ip_src_addr h)" and ?dst = "octets (ip_dst_addr h)"
  have b: "ipv4_bytes h @ payload = ?a @ ?tl @ ?id @ ?ff @ ?tp @ ?ck @ ?src @ ?dst @ payload"
    by (simp add: ipv4_bytes_def)
  have nth: "(xs @ ys) ! i = ys ! (i - length xs)" if "length xs \<le> i" for xs ys :: bytes and i
    using that by (simp add: nth_append)
  show ?thesis
    unfolding ipv4_of_bytes_def b
    using raw [of 2 ?a "ip_total_length h" "?id @ ?ff @ ?tp @ ?ck @ ?src @ ?dst @ payload"]
      raw [of 4 "?a @ ?tl" "ip_identification h" "?ff @ ?tp @ ?ck @ ?src @ ?dst @ payload"]
      raw [of 6 "?a @ ?tl @ ?id" "ip_flags_fragment h" "?tp @ ?ck @ ?src @ ?dst @ payload"]
      raw [of 10 "?a @ ?tl @ ?id @ ?ff @ ?tp" "ip_checksum h" "?src @ ?dst @ payload"]
      addr_at_prefix [of 12 "?a @ ?tl @ ?id @ ?ff @ ?tp @ ?ck" "ip_src_addr h" "?dst @ payload"]
      addr_at_prefix [of 16 "?a @ ?tl @ ?id @ ?ff @ ?tp @ ?ck @ ?src" "ip_dst_addr h" payload]
      nth [of "?a @ ?tl @ ?id @ ?ff" 8 "?tp @ ?ck @ ?src @ ?dst @ payload"]
      nth [of "?a @ ?tl @ ?id @ ?ff" 9 "?tp @ ?ck @ ?src @ ?dst @ payload"]
    by (intro ipv4_header.equality) simp_all
qed

lemma build_ipv4_packet_bytes:
  assumes "20 + length payload \<le> length buf" "20 + length payload \<le> 65535"
  obtains buf' h where
    "build_ipv4_packet ident buf src dst protocol payload = (ident + 1, Some (buf', 20 + length payload))"
    "take (20 + length payload) buf' = ipv4_bytes h @ payload" "length buf' = length buf"
    "h = (ipv4_packet_header ident src dst protocol payload)
           \<lparr> ip_checksum := swap16 (internet_checksum (ipv4_bytes (ipv4_packet_header ident src dst protocol payload))) \<rparr>"
  using assms by (auto simp: build_ipv4_packet_def ipv4_packet_header_def Let_def take_copies)

lemma ipv4_header_verifies:
  "internet_checksum (ipv4_bytes (h \<lparr> ip_checksum :=
     swap16 (internet_checksum (ipv4_bytes (h \<lparr> ip_checksum := 0 \<rparr>))) \<rparr>)) = 0"
proof -
  let ?z = "ipv4_bytes (h \<lparr> ip_checksum := 0 \<rparr>)"
  let ?x = "[ip_version_ihl h, ip_tos h] @ le_bytes16 (ip_total_length h) @ le_bytes16 (ip_identification h) @
            le_bytes16 (ip_flags_fragment h) @ [ip_ttl h, ip_protocol h]"
  let ?y = "octets (ip_src_addr h) @ octets (ip_dst_addr h)"
  have z: "?z = ?x @ [0, 0] @ ?y"
    by (simp add: ipv4_bytes_def le_bytes16_0)
  have lx: "length ?x = 10" by simp
  have zz: "?z ! 10 = 0" "?z ! (10 + 1) = 0"
    unfolding z by (simp_all only: nth_append lx) simp_all
  have f: "internet_checksum (copy_at 10 (be_bytes16 (internet_checksum ?z)) ?z) = 0"
    by (rule internet_checksum_field [OF _ _ zz]) simp_all
  have "copy_at 10 (be_bytes16 c) ?z = ?x @ be_bytes16 c @ ?y" for c
    unfolding z by (rule copy_at_prefix) simp_all
  moreover have "ipv4_bytes (h \<lparr> ip_checksum := swap16 c \<rparr>) = ?x @ be_bytes16 c @ ?y" for c
    by (simp add: ipv4_bytes_def wire_simps)
  ultimately show ?thesis using f by simp
qed

lemma ipv4_parse_packet:
  assumes "20 + length payload \<le> 65535"
    and h: "h = (ipv4_packet_header ident src dst protocol payload) \<lparr> ip_checksum := c \<rparr>"
  shows "ipv4_parse (ipv4_bytes h @ payload) = Some (h, payload)"
proof -
  have "drop_bit 4 (0x45 :: u8) = 4" "(0x45 :: u8) AND 0x0F = 5" by simp_all
  moreover have "unat (of_nat (20 + length payload) :: u16) = 20 + length payload"
    using assms(1) by (simp only: unat_of_nat) simp
  ultimately show ?thesis
    by (simp add: ipv4_parse_def ipv4_of_ipv4_bytes Let_def h ipv4_packet_header_def header_length_def
        total_length_host_def swap16_swap16 subslice_def)
qed

lemma build_ipv4_ok:
  assumes "20 + length payload \<le> length buf" "20 + length payload \<le> 65535"
  obtains buf' h where
    "build_ipv4_packet ident buf src dst protocol payload = (ident + 1, Some (buf', 20 + length payload))"
    "ipv4_parse (take (20 + length payload) buf') = Some (h, payload)"
    "ipv4_verify_checksum (take (20 + length payload) buf') h"
    "ip_src_addr h = src" "ip_dst_addr h = dst" "ip_protocol h = protocol" "swap16 (ip_identification h) = ident"
proof -
  let ?z = "ipv4_packet_header ident src dst protocol payload"
  obtain buf' h where b: "build_ipv4_packet ident buf src dst protocol payload = (ident + 1, Some (buf', 20 + length payload))"
    and t: "take (20 + length payload) buf' = ipv4_bytes h @ payload"
    and h: "h = ?z \<lparr> ip_checksum := swap16 (internet_checksum (ipv4_bytes ?z)) \<rparr>"
    using build_ipv4_packet_bytes [OF assms] by blast
  have z: "?z \<lparr> ip_checksum := 0 \<rparr> = ?z" by (simp add: ipv4_packet_header_def)
  have "header_length h = 20" by (simp add: h ipv4_packet_header_def header_length_def)
  moreover have "internet_checksum (ipv4_bytes h) = 0"
    using ipv4_header_verifies [of ?z] by (simp only: h z)
  ultimately have v: "ipv4_verify_checksum (take (20 + length payload) buf') h"
    by (simp add: ipv4_verify_checksum_def t)
  have "ip_src_addr h = src" "ip_dst_addr h = dst" "ip_protocol h = protocol" "swap16 (ip_identification h) = ident"
    by (simp_all add: h ipv4_packet_header_def swap16_swap16)
  then show ?thesis
    by (rule that [OF b ipv4_parse_packet [OF assms(2) h, folded t] v])
qed

text \<open>
  C28. A packet built by \<open>build_ipv4_packet\<close> parses: whenever header and payload fit the buffer and
  the 16-bit length field, the written bytes are accepted by \<open>Ipv4Header::parse\<close>, their checksum
  verifies, and the parsed header carries the addresses, the protocol and exactly the payload.
\<close>

theorem ipv4_roundtrip:
  assumes "20 + length payload \<le> length buf" "20 + length payload \<le> 65535"
  shows "\<exists>buf' n h. build_ipv4_packet ident buf src dst protocol payload = (ident + 1, Some (buf', n)) \<and>
           ipv4_parse (take n buf') = Some (h, payload) \<and> ipv4_verify_checksum (take n buf') h \<and>
           ip_src_addr h = src \<and> ip_dst_addr h = dst \<and> ip_protocol h = protocol \<and>
           swap16 (ip_identification h) = ident"
  by (rule build_ipv4_ok [OF assms, of ident src dst protocol]) blast

theorem ipv4_roundtrip_witness:
  "\<exists>buf' n h. build_ipv4_packet 7 (replicate 64 0) LOCALHOST LOCALHOST PROTO_UDP [1, 2, 3] = (7 + 1, Some (buf', n)) \<and>
     ipv4_parse (take n buf') = Some (h, [1, 2, 3]) \<and> ipv4_verify_checksum (take n buf') h \<and>
     ip_src_addr h = LOCALHOST \<and> ip_dst_addr h = LOCALHOST \<and> ip_protocol h = PROTO_UDP \<and>
     swap16 (ip_identification h) = 7"
  by (rule ipv4_roundtrip) simp_all

section \<open>Transport segments as byte strings\<close>

lemma build_datagram_bytes:
  assumes "8 + length payload \<le> length buf" "8 + length payload \<le> 65535"
  obtains buf' c where "build_datagram buf src dst sp dp payload = Some (buf', 8 + length payload)"
    "take (8 + length payload) buf' =
       be_bytes16 sp @ be_bytes16 dp @ be_bytes16 (of_nat (8 + length payload)) @ be_bytes16 c @ payload"
    "c = compute_transport_checksum src dst PROTO_UDP
       (be_bytes16 sp @ be_bytes16 dp @ be_bytes16 (of_nat (8 + length payload)) @ [0, 0] @ payload)"
proof -
  let ?n = "8 + length payload"
  define w :: u16 where "w = of_nat ?n"
  let ?b = "copy_at 8 payload (copy_at 6 [0, 0] (copy_at 4 (be_bytes16 w) (copy_at 2 (be_bytes16 dp)
              (copy_at 0 (be_bytes16 sp) buf))))"
  let ?x = "be_bytes16 sp @ be_bytes16 dp @ be_bytes16 w"
  define c where "c = compute_transport_checksum src dst PROTO_UDP (?x @ [0, 0] @ payload)"
  have b: "take ?n ?b = ?x @ [0, 0] @ payload" and l: "length ?b = length buf"
    using assms by (simp_all add: take_copies)
  have "copy_at 6 (be_bytes16 c) (?x @ [0, 0] @ payload) = ?x @ be_bytes16 c @ payload"
    by (rule copy_at_prefix) simp_all
  then have "take ?n (copy_at 6 (be_bytes16 c) ?b) = ?x @ be_bytes16 c @ payload"
    using assms by (subst take_copy_at_inside) (simp_all only: l b, simp_all)
  moreover have "build_datagram buf src dst sp dp payload = Some (copy_at 6 (be_bytes16 c) ?b, ?n)"
    using assms b by (simp add: build_datagram_def Let_def c_def w_def [symmetric] del: of_nat_add)
  ultimately show ?thesis
    by (intro that [of "copy_at 6 (be_bytes16 c) ?b" c]) (simp_all add: c_def w_def)
qed

lemma udp_parse_datagram:
  assumes "8 + length payload \<le> 65535"
  obtains h where
    "udp_parse (be_bytes16 sp @ be_bytes16 dp @ be_bytes16 (of_nat (8 + length payload)) @ be_bytes16 c @ payload) =
       Some (h, payload)"
    "udp_src_port_host h = sp" "udp_dst_port_host h = dp"
proof -
  define w :: u16 where "w = of_nat (8 + length payload)"
  have w: "unat w = 8 + length payload"
    unfolding w_def using assms by (simp only: unat_of_nat) simp
  let ?d = "be_bytes16 sp @ be_bytes16 dp @ be_bytes16 w @ be_bytes16 c @ payload"
  have f: "raw16 ?d 0 = swap16 sp" "raw16 ?d 2 = swap16 dp" "raw16 ?d 4 = swap16 w"
    using raw16_at [of 0 "[]" sp "be_bytes16 dp @ be_bytes16 w @ be_bytes16 c @ payload"]
      raw16_at [of 2 "be_bytes16 sp" dp "be_bytes16 w @ be_bytes16 c @ payload"]
      raw16_at [of 4 "be_bytes16 sp @ be_bytes16 dp" w "be_bytes16 c @ payload"]
    by simp_all
  have "udp_parse ?d = Some (\<lparr> udp_src_port = swap16 sp, udp_dst_port = swap16 dp, udp_length = swap16 w,
                              udp_checksum = raw16 ?d 6 \<rparr>, payload)"
    by (simp add: udp_parse_def f Let_def swap16_swap16 w subslice_def)
  then show ?thesis
    by (rule that [unfolded w_def [symmetric]])
      (simp_all add: udp_src_port_host_def udp_dst_port_host_def swap16_swap16)
qed

definition tcp_segment :: "u16 \<Rightarrow> u16 \<Rightarrow> u32 \<Rightarrow> u32 \<Rightarrow> u16 \<Rightarrow> u16 \<Rightarrow> u16 \<Rightarrow> bytes \<Rightarrow> bytes" where
  "tcp_segment sp dp seq ack flags window c payload =
     be_bytes16 sp @ be_bytes16 dp @ be_bytes32 seq @ be_bytes32 ack @
     be_bytes16 (push_bit 12 5 OR (flags AND 0x1FF)) @ be_bytes16 window @ be_bytes16 c @ [0, 0] @ payload"

lemma build_tcp_packet_bytes:
  assumes "20 + length payload \<le> length buf"
  obtains buf' c where
    "build_tcp_packet buf src dst sp dp seq ack flags window payload = Some (buf', 20 + length payload)"
    "take (20 + length payload) buf' = tcp_segment sp dp seq ack flags window c payload"
    "c = compute_transport_checksum src dst PROTO_TCP (tcp_segment sp dp seq ack flags window 0 payload)"
proof -
  let ?n = "20 + length payload" and ?seg = "tcp_segment sp dp seq ack flags window"
  define h where "h = \<lparr> tcp_src_port = swap16 sp, tcp_dst_port = swap16 dp, tcp_seq_num = swap32 seq,
    tcp_ack_num = swap32 ack, tcp_data_offset_flags = swap16 (push_bit 12 5 OR (flags AND 0x1FF)),
    tcp_window = swap16 window, tcp_checksum = 0, tcp_urgent_ptr = 0 \<rparr>"
  let ?b = "copy_at 20 payload (copy_at 0 (tcp_bytes h) buf)"
  let ?x = "be_bytes16 sp @ be_bytes16 dp @ be_bytes32 seq @ be_bytes32 ack @
     be_bytes16 (push_bit 12 5 OR (flags AND 0x1FF)) @ be_bytes16 window"
  define c where "c = compute_transport_checksum src dst PROTO_TCP (?seg 0 payload)"
  have hb: "tcp_bytes h @ payload = ?x @ [0, 0] @ [0, 0] @ payload" and lh: "length (tcp_bytes h) = 20"
    by (simp_all add: tcp_bytes_def h_def wire_simps)
  have z: "?seg 0 payload = ?x @ [0, 0] @ [0, 0] @ payload"
    by (simp add: tcp_segment_def be_bytes16_def)
  have b: "take ?n ?b = ?seg 0 payload" and l: "length ?b = length buf"
    using assms lh unfolding z hb [symmetric] by (simp_all add: take_copies)
  have "copy_at 16 (be_bytes16 c) (?x @ [0, 0] @ [0, 0] @ payload) = ?x @ be_bytes16 c @ [0, 0] @ payload"
    by (rule copy_at_prefix) simp_all
  then have "take ?n (copy_at 16 (be_bytes16 c) ?b) = ?seg c payload"
    using assms by (subst take_copy_at_inside) (simp_all only: l b z, simp_all add: tcp_segment_def)
  moreover have "build_tcp_packet buf src dst sp dp seq ack flags window payload = Some (copy_at 16 (be_bytes16 c) ?b, ?n)"
    using assms b by (simp add: build_tcp_packet_def Let_def c_def h_def)
  ultimately show ?thesis
    by (intro that [of "copy_at 16 (be_bytes16 c) ?b" c]) (simp_all add: c_def)
qed

lemma offset_flags_fields:
  "drop_bit 12 (push_bit 12 5 OR (flags AND 0x1FF) :: u16) AND 0xF = 5"
  "(push_bit 12 5 OR (flags AND 0x1FF) :: u16) AND 0x1FF = flags AND 0x1FF"
proof -
  have "drop_bit 12 (flags AND 0x1FF :: u16) = 0"
    by (simp add: drop_bit_and)
  then show "drop_bit 12 (push_bit 12 5 OR (flags AND 0x1FF) :: u16) AND 0xF = 5"
    by (simp add: drop_bit_or)
  show "(push_bit 12 5 OR (flags AND 0x1FF) :: u16) AND 0x1FF = flags AND 0x1FF"
    by (simp add: bit.conj_disj_distrib2 and.assoc)
qed

lemma tcp_parse_segment:
  obtains h where "tcp_parse (tcp_segment sp dp seq ack flags window c payload) = Some (h, payload)"
    "tcp_src_port_host h = sp" "tcp_dst_port_host h = dp" "seq_num_host h = seq" "ack_num_host h = ack"
    "tcp_flags h = flags AND 0x1FF" "swap16 (tcp_window h) = window"
proof -
  let ?f = "push_bit 12 5 OR (flags AND 0x1FF) :: u16"
  let ?d = "tcp_segment sp dp seq ack flags window c payload"
  let ?r5 = "be_bytes16 window @ be_bytes16 c @ [0, 0] @ payload"
  let ?r4 = "be_bytes16 ?f @ ?r5" let ?r3 = "be_bytes32 ack @ ?r4" let ?r2 = "be_bytes32 seq @ ?r3"
  let ?r1 = "be_bytes16 dp @ ?r2"
  have d: "?d = be_bytes16 sp @ ?r1" by (simp add: tcp_segment_def)
  have f: "raw16 ?d 0 = swap16 sp" "raw16 ?d 2 = swap16 dp" "raw32 ?d 4 = swap32 seq" "raw32 ?d 8 = swap32 ack"
    "raw16 ?d 12 = swap16 ?f" "raw16 ?d 14 = swap16 window"
    unfolding d
    using raw16_at [of 0 "[]" sp ?r1] raw16_at [of 2 "be_bytes16 sp" dp ?r2]
      raw32_at [of 4 "be_bytes16 sp @ be_bytes16 dp" seq ?r3]
      raw32_at [of 8 "be_bytes16 sp @ be_bytes16 dp @ be_bytes32 seq" ack ?r4]
      raw16_at [of 12 "be_bytes16 sp @ be_bytes16 dp @ be_bytes32 seq @ be_bytes32 ack" ?f ?r5]
      raw16_at [of 14 "be_bytes16 sp @ be_bytes16 dp @ be_bytes32 seq @ be_bytes32 ack @ be_bytes16 ?f" window
        "be_bytes16 c @ [0, 0] @ payload"]
    by simp_all
  have len: "length ?d = 20 + length payload" by (simp add: tcp_segment_def)
  have dr: "drop 20 ?d = payload" by (simp add: tcp_segment_def)
  have flds: "tcp_data_offset_flags (tcp_of_bytes ?d) = swap16 ?f" by (simp only: tcp_of_bytes_def f tcp_header.simps)
  have "tcp_parse ?d = Some (tcp_of_bytes ?d, payload)"
    unfolding tcp_parse_def Let_def flds swap16_swap16 offset_flags_fields by (simp add: len dr)
  moreover have "tcp_src_port_host (tcp_of_bytes ?d) = sp" "tcp_dst_port_host (tcp_of_bytes ?d) = dp"
    "seq_num_host (tcp_of_bytes ?d) = seq" "ack_num_host (tcp_of_bytes ?d) = ack"
    "tcp_flags (tcp_of_bytes ?d) = flags AND 0x1FF" "swap16 (tcp_window (tcp_of_bytes ?d)) = window"
    by (simp_all only: tcp_src_port_host_def tcp_dst_port_host_def seq_num_host_def ack_num_host_def tcp_flags_def
        tcp_of_bytes_def tcp_header.simps f swap16_swap16 swap32_swap32 offset_flags_fields)
  ultimately show ?thesis by (rule that)
qed

text \<open>
  A segment built by \<open>build_tcp_packet\<close> parses back to the same ports, sequence and
  acknowledgement numbers, flags, window and payload, and its checksum verifies over pseudo-header
  and segment (the one's-complement sum is \<open>0xFFFF\<close>).
\<close>

theorem tcp_roundtrip:
  assumes "20 + length payload \<le> length buf" "20 + length payload \<le> 65535"
  shows "\<exists>buf' n h. build_tcp_packet buf src dst sp dp seq ack flags window payload = Some (buf', n) \<and>
           tcp_parse (take n buf') = Some (h, payload) \<and>
           tcp_src_port_host h = sp \<and> tcp_dst_port_host h = dp \<and> seq_num_host h = seq \<and> ack_num_host h = ack \<and>
           tcp_flags h = flags AND 0x1FF \<and> swap16 (tcp_window h) = window \<and>
           oc_value (transport_sum src dst PROTO_TCP (take n buf')) = 65535"
proof -
  let ?seg = "tcp_segment sp dp seq ack flags window"
  obtain buf' c where b: "build_tcp_packet buf src dst sp dp seq ack flags window payload = Some (buf', 20 + length payload)"
    and t: "take (20 + length payload) buf' = ?seg c payload"
    and c: "c = compute_transport_checksum src dst PROTO_TCP (?seg 0 payload)"
    using build_tcp_packet_bytes [OF assms(1)] by blast
  obtain h where h: "tcp_parse (?seg c payload) = Some (h, payload)"
    "tcp_src_port_host h = sp" "tcp_dst_port_host h = dp" "seq_num_host h = seq" "ack_num_host h = ack"
    "tcp_flags h = flags AND 0x1FF" "swap16 (tcp_window h) = window"
    using tcp_parse_segment by blast
  let ?x = "be_bytes16 sp @ be_bytes16 dp @ be_bytes32 seq @ be_bytes32 ack @
     be_bytes16 (push_bit 12 5 OR (flags AND 0x1FF)) @ be_bytes16 window"
  have seg: "?seg w payload = ?x @ be_bytes16 w @ [0, 0] @ payload" for w by (simp add: tcp_segment_def)
  have lx: "length ?x = 16" by simp
  have z: "?seg 0 payload ! 16 = 0" "?seg 0 payload ! (16 + 1) = 0"
    unfolding seg by (simp_all only: nth_append lx) (simp_all add: be_bytes16_def)
  have "copy_at 16 (be_bytes16 c) (?seg 0 payload) = ?seg c payload"
    unfolding seg by (rule copy_at_prefix) simp_all
  then have "oc_value (transport_sum src dst PROTO_TCP (?seg c payload)) = 65535"
    using transport_checksum_field [OF _ _ z, of src dst PROTO_TCP] assms(2) c by (simp add: seg)
  with b h show ?thesis by (simp add: t)
qed

theorem tcp_roundtrip_witness:
  "\<exists>buf' n h. build_tcp_packet (replicate 64 0) LOCALHOST LOCALHOST 80 4000 5 9 (TCP_ACK OR TCP_PSH) 65535 [1, 2, 3] = Some (buf', n) \<and>
     tcp_parse (take n buf') = Some (h, [1, 2, 3]) \<and>
     tcp_src_port_host h = 80 \<and> tcp_dst_port_host h = 4000 \<and> seq_num_host h = 5 \<and> ack_num_host h = 9 \<and>
     tcp_flags h = (TCP_ACK OR TCP_PSH) AND 0x1FF \<and> swap16 (tcp_window h) = 65535 \<and>
     oc_value (transport_sum LOCALHOST LOCALHOST PROTO_TCP (take n buf')) = 65535"
  by (rule tcp_roundtrip) simp_all

lemma echo_reply_bytes:
  assumes "8 + length echo_data \<le> length buf" "8 + length echo_data \<le> 131072"
  obtains buf' c where "build_echo_reply buf ident seq echo_data = Some (buf', 8 + length echo_data)"
    "take (8 + length echo_data) buf' =
       [ICMP_ECHO_REPLY, 0] @ be_bytes16 c @ be_bytes16 ident @ be_bytes16 seq @ echo_data"
    "internet_checksum (take (8 + length echo_data) buf') = 0"
proof -
  let ?n = "8 + length echo_data"
  define b0 where "b0 = buf[0 := ICMP_ECHO_REPLY, 1 := 0, 2 := 0, 3 := 0]"
  define b1 where "b1 = copy_at 8 echo_data (copy_at 6 (be_bytes16 seq) (copy_at 4 (be_bytes16 ident) b0))"
  let ?y = "be_bytes16 ident @ be_bytes16 seq @ echo_data"
  have "4 \<le> length buf" using assms by simp
  then obtain x0 x1 x2 x3 r where "buf = x0 # x1 # x2 # x3 # r"
    by (auto simp: Suc_le_length_iff numeral_eq_Suc)
  then have t4: "take 4 b0 = [ICMP_ECHO_REPLY, 0, 0, 0]" by (simp add: b0_def)
  have l0: "length b0 = length buf" by (simp add: b0_def)
  have b: "take ?n b1 = [ICMP_ECHO_REPLY, 0] @ [0, 0] @ ?y" and l: "length b1 = length buf"
    using assms t4 l0 by (simp_all add: b1_def take_copies)
  define c where "c = internet_checksum (take ?n b1)"
  have t: "take ?n (copy_at 2 (be_bytes16 c) b1) = copy_at 2 (be_bytes16 c) (take ?n b1)"
    using assms by (intro take_copy_at_inside) (simp_all add: l)
  have e: "copy_at 2 (be_bytes16 c) (take ?n b1) = [ICMP_ECHO_REPLY, 0] @ be_bytes16 c @ ?y"
    unfolding b by (rule copy_at_prefix) simp_all
  have z: "take ?n b1 ! 2 = 0" "take ?n b1 ! (2 + 1) = 0" "length (take ?n b1) = ?n"
    unfolding b by simp_all
  have "internet_checksum (copy_at 2 (be_bytes16 c) (take ?n b1)) = 0"
    unfolding c_def by (rule internet_checksum_field [OF _ _ z(1,2)]) (use z(3) assms in simp_all)
  moreover have "build_echo_reply buf ident seq echo_data = Some (copy_at 2 (be_bytes16 c) b1, ?n)"
    using assms by (simp add: build_echo_reply_def Let_def c_def b1_def b0_def)
  ultimately show ?thesis by (intro that [of "copy_at 2 (be_bytes16 c) b1" c]) (simp_all only: t e)
qed

end
