(* ===== verification/Net_Route.thy ===== *)
theory Net_Route
  imports Net_Wire
begin

text \<open>
  The tables of the network layer: interfaces (\<open>net/interface.rs\<close>), the ARP cache (\<open>net/arp.rs\<close>)
  and the routing table (\<open>net/ipv4.rs\<close>), with the routing table proved to be a longest-prefix match.
\<close>

section \<open>Interfaces\<close>

record network_interface =
  if_name :: string
  if_index :: u32
  if_mac_addr :: mac
  if_ipv4_addr :: ipv4_addr
  if_netmask :: ipv4_addr
  if_gateway :: ipv4_addr
  if_mtu :: u32
  if_is_up :: bool
  if_rx_packets :: u64
  if_tx_packets :: u64
  if_rx_bytes :: u64
  if_tx_bytes :: u64
  if_rx_errors :: u64
  if_tx_errors :: u64

definition if_loopback :: network_interface where
  "if_loopback =
     \<lparr> if_name = ''lo'', if_index = 0, if_mac_addr = Mac 0 0 0 0 0 0, if_ipv4_addr = LOCALHOST,
       if_netmask = Ipv4Addr 255 0 0 0, if_gateway = UNSPECIFIED, if_mtu = 65535, if_is_up = True,
       if_rx_packets = 0, if_tx_packets = 0, if_rx_bytes = 0, if_tx_bytes = 0,
       if_rx_errors = 0, if_tx_errors = 0 \<rparr>"

definition if_ethernet :: "string \<Rightarrow> u32 \<Rightarrow> mac \<Rightarrow> network_interface" where
  "if_ethernet name index mac_addr =
     \<lparr> if_name = name, if_index = index, if_mac_addr = mac_addr, if_ipv4_addr = UNSPECIFIED,
       if_netmask = UNSPECIFIED, if_gateway = UNSPECIFIED, if_mtu = 1500, if_is_up = False,
       if_rx_packets = 0, if_tx_packets = 0, if_rx_bytes = 0, if_tx_bytes = 0,
       if_rx_errors = 0, if_tx_errors = 0 \<rparr>"

definition if_configure :: "ipv4_addr \<Rightarrow> ipv4_addr \<Rightarrow> ipv4_addr \<Rightarrow> network_interface \<Rightarrow> network_interface" where
  "if_configure addr netmask gateway i =
     i \<lparr> if_ipv4_addr := addr, if_netmask := netmask, if_gateway := gateway \<rparr>"

definition if_up :: "network_interface \<Rightarrow> network_interface" where
  "if_up i = i \<lparr> if_is_up := True \<rparr>"

definition if_down :: "network_interface \<Rightarrow> network_interface" where
  "if_down i = i \<lparr> if_is_up := False \<rparr>"

text \<open>The global list is absent until the subsystem is initialised.\<close>

definition register_interface ::
  "network_interface \<Rightarrow> network_interface list option \<Rightarrow> network_interface list option" where
  "register_interface i = map_option (\<lambda>is. is @ [i])"

definition interface_count :: "network_interface list option \<Rightarrow> nat" where
  "interface_count ifs = (case ifs of None \<Rightarrow> 0 | Some is \<Rightarrow> length is)"

definition get_mac_address :: "string \<Rightarrow> network_interface list option \<Rightarrow> mac option" where
  "get_mac_address name ifs =
     (case ifs of None \<Rightarrow> None
      | Some is \<Rightarrow> map_option if_mac_addr (List.find (\<lambda>i. if_name i = name) is))"

definition find_interface_by_ip ::
  "ipv4_addr \<Rightarrow> network_interface list option \<Rightarrow> (ipv4_addr \<times> mac) option" where
  "find_interface_by_ip ip ifs =
     (case ifs of None \<Rightarrow> None
      | Some is \<Rightarrow>
          map_option (\<lambda>i. (if_ipv4_addr i, if_mac_addr i))
            (List.find (\<lambda>i. if_is_up i \<and> (if_ipv4_addr i = ip \<or> is_loopback ip \<and> if_name i = ''lo'')) is))"

definition get_first_ethernet_interface ::
  "network_interface list option \<Rightarrow> (ipv4_addr \<times> mac) option" where
  "get_first_ethernet_interface ifs =
     (case ifs of None \<Rightarrow> None
      | Some is \<Rightarrow>
          map_option (\<lambda>i. (if_ipv4_addr i, if_mac_addr i))
            (List.find (\<lambda>i. if_is_up i \<and> if_name i = ''eth0'') is))"

section \<open>The ARP cache\<close>

record arp_entry =
  arpe_mac :: mac
  arpe_timestamp :: u64

definition arp_lookup :: "ipv4_addr \<Rightarrow> (u32 \<rightharpoonup> arp_entry) option \<Rightarrow> mac option" where
  "arp_lookup ip cache =
     (case cache of None \<Rightarrow> None | Some c \<Rightarrow> map_option arpe_mac (c (to_u32 ip)))"

definition arp_update :: "u64 \<Rightarrow> ipv4_addr \<Rightarrow> mac \<Rightarrow> (u32 \<rightharpoonup> arp_entry) option \<Rightarrow> (u32 \<rightharpoonup> arp_entry) option" where
  "arp_update ticks ip m = map_option (\<lambda>c. c(to_u32 ip \<mapsto> \<lparr> arpe_mac = m, arpe_timestamp = ticks \<rparr>))"

section \<open>The routing table\<close>

record route_entry =
  rt_destination :: ipv4_addr
  rt_netmask :: ipv4_addr
  rt_gateway :: ipv4_addr
  rt_interface_idx :: u32
  rt_metric :: u32

definition count_ones :: "u32 \<Rightarrow> nat" where
  "count_ones w = length (filter (bit w) [0..<32])"

definition mask_ones :: "route_entry \<Rightarrow> nat" where
  "mask_ones r = count_ones (to_u32 (rt_netmask r))"

text \<open>
  \<open>sort_by\<close> is a stable sort; comparing \<open>b\<close> with \<open>a\<close> makes it descending in the number of mask bits,
  which is ascending in its negation.
\<close>

definition add_route :: "route_entry list \<Rightarrow> route_entry \<Rightarrow> route_entry list" where
  "add_route routes r = sort_key (\<lambda>e. - int (mask_ones e)) (routes @ [r])"

definition route_matches :: "ipv4_addr \<Rightarrow> route_entry \<Rightarrow> bool" where
  "route_matches dst r \<longleftrightarrow>
     to_u32 dst AND to_u32 (rt_netmask r) = to_u32 (rt_destination r) AND to_u32 (rt_netmask r)"

definition route_lookup :: "route_entry list \<Rightarrow> ipv4_addr \<Rightarrow> route_entry option" where
  "route_lookup routes dst = List.find (route_matches dst) routes"

definition init_routing :: "route_entry list" where
  "init_routing =
     add_route (add_route (add_route []
       \<lparr> rt_destination = Ipv4Addr 127 0 0 0, rt_netmask = Ipv4Addr 255 0 0 0, rt_gateway = UNSPECIFIED,
         rt_interface_idx = 0, rt_metric = 0 \<rparr>)
       \<lparr> rt_destination = Ipv4Addr 10 0 2 0, rt_netmask = Ipv4Addr 255 255 255 0, rt_gateway = UNSPECIFIED,
         rt_interface_idx = 1, rt_metric = 0 \<rparr>)
       \<lparr> rt_destination = UNSPECIFIED, rt_netmask = UNSPECIFIED, rt_gateway = Ipv4Addr 10 0 2 2,
         rt_interface_idx = 1, rt_metric = 10 \<rparr>"

section \<open>Longest-prefix match\<close>

text \<open>
  The reference: of the routes in the order they were added, the first one among those that match
  with the largest number of mask bits.
\<close>

definition longest_prefix_match :: "route_entry list \<Rightarrow> ipv4_addr \<Rightarrow> route_entry option" where
  "longest_prefix_match rs dst =
     (let ms = filter (route_matches dst) rs;
          best = Max (mask_ones ` set ms)
      in if ms = [] then None else Some (hd (filter (\<lambda>r. mask_ones r = best) ms)))"

lemma find_sorted:
  fixes f :: "'a \<Rightarrow> int"
  assumes "sorted (map f xs)" "filter P xs \<noteq> []"
  shows "List.find P xs = Some (hd (filter (\<lambda>x. f x = Min (f ` set (filter P xs))) (filter P xs)))"
  using assms
proof (induction xs)
  case (Cons x xs)
  show ?case
  proof (cases "P x")
    case True
    have "\<forall>y \<in> set xs. f x \<le> f y" using Cons.prems(1) by auto
    then have "Min (f ` set (filter P (x # xs))) = f x"
      using True by (intro Min_eqI) auto
    with True show ?thesis by simp
  qed (use Cons in auto)
qed simp

lemma table_sorted: "sorted (map (\<lambda>e. - int (mask_ones e)) (foldl add_route [] rs))"
proof (cases rs rule: rev_cases)
  case (snoc qs r)
  then have "foldl add_route [] rs = sort_key (\<lambda>e. - int (mask_ones e)) (foldl add_route [] qs @ [r])"
    by (simp only: foldl_append foldl_Cons foldl_Nil add_route_def)
  then show ?thesis by (simp only: sorted_sort_key)
qed simp

lemma table_stable:
  "filter (\<lambda>e. - int (mask_ones e) = k) (foldl add_route [] rs) = filter (\<lambda>e. - int (mask_ones e) = k) rs"
proof (induction rs rule: rev_induct)
  case (snoc r rs)
  then show ?case by (simp add: add_route_def sort_key_stable del: sort_key_simps)
qed simp

lemma set_table: "set (foldl add_route [] rs) = set rs"
proof (induction rs rule: rev_induct)
  case (snoc r rs)
  then show ?case
    by (simp only: foldl_append foldl_Cons foldl_Nil add_route_def set_sort set_append)
qed simp

lemma Min_neg_Max: "finite A \<Longrightarrow> A \<noteq> {} \<Longrightarrow> Min ((\<lambda>x. - int (f x)) ` A) = - int (Max (f ` A))"
proof -
  assume A: "finite A" "A \<noteq> {}"
  then have "Max (f ` A) \<in> f ` A" by (intro Max_in) auto
  then obtain m where m: "m \<in> A" "f m = Max (f ` A)" by (metis imageE)
  show ?thesis
  proof (rule Min_eqI)
    fix y assume "y \<in> (\<lambda>x. - int (f x)) ` A"
    then show "- int (Max (f ` A)) \<le> y" using A by auto
  next
    show "- int (Max (f ` A)) \<in> (\<lambda>x. - int (f x)) ` A" using m by (auto intro!: image_eqI [of _ _ m])
  qed (use A in simp)
qed

text \<open>
  What \<open>lookup\<close> computes: among the matching routes with the largest number of mask bits, the one that
  was added first.
\<close>

lemma route_lookup_exact: "route_lookup (foldl add_route [] rs) dst = longest_prefix_match rs dst"
proof -
  let ?t = "foldl add_route [] rs" and ?P = "route_matches dst" and ?k = "\<lambda>e. - int (mask_ones e)"
  have s: "set (filter ?P ?t) = set (filter ?P rs)" by (simp add: set_table)
  show ?thesis
  proof (cases "filter ?P rs = []")
    case True
    then have "List.find ?P ?t = None" by (auto simp: find_None_iff set_table filter_empty_conv)
    with True show ?thesis by (simp add: route_lookup_def longest_prefix_match_def)
  next
    case False
    let ?m = "Max (mask_ones ` set (filter ?P rs))"
    have min: "Min (?k ` set (filter ?P ?t)) = - int ?m"
      unfolding s using False by (intro Min_neg_Max) (auto simp: filter_empty_conv)
    have ne: "filter ?P ?t \<noteq> []" using False s by (metis set_empty)
    have "List.find ?P ?t = Some (hd (filter (\<lambda>x. ?k x = - int ?m) (filter ?P ?t)))"
      using find_sorted [OF table_sorted ne] by (simp only: min)
    also have "filter (\<lambda>x. ?k x = - int ?m) (filter ?P ?t) = filter ?P (filter (\<lambda>x. ?k x = - int ?m) ?t)"
      by (simp only: filter_filter conj_commute)
    also have "\<dots> = filter ?P (filter (\<lambda>x. ?k x = - int ?m) rs)"
      by (simp only: table_stable)
    also have "\<dots> = filter (\<lambda>r. mask_ones r = ?m) (filter ?P rs)"
      by (simp add: conj_commute)
    finally show ?thesis
      using False by (simp add: route_lookup_def longest_prefix_match_def Let_def)
  qed
qed

text \<open>
  C9. The routing table is a longest-prefix match: whatever routes were added and in whatever order,
  \<open>lookup\<close> returns one of them that matches and has the largest number of mask bits of all that match,
  and no route only when none matches. Which of several equally long prefixes it returns is left open.
\<close>

theorem route_lookup_lpm:
  "case route_lookup (foldl add_route [] rs) dst of
     None \<Rightarrow> \<forall>r \<in> set rs. \<not> route_matches dst r
   | Some r \<Rightarrow> r \<in> set rs \<and> route_matches dst r \<and>
       (\<forall>r' \<in> set rs. route_matches dst r' \<longrightarrow> mask_ones r' \<le> mask_ones r)"
proof (cases "filter (route_matches dst) rs = []")
  case True
  then show ?thesis by (simp add: route_lookup_exact longest_prefix_match_def filter_empty_conv)
next
  case False
  let ?ms = "filter (route_matches dst) rs"
  let ?m = "Max (mask_ones ` set ?ms)"
  let ?bs = "filter (\<lambda>r. mask_ones r = ?m) ?ms"
  have "set ?ms \<noteq> {}" using False by (simp only: set_empty not_False_eq_True)
  then have "?m \<in> mask_ones ` set ?ms" by (intro Max_in) blast+
  then obtain r where "r \<in> set ?ms" "mask_ones r = ?m" by auto
  then have "?bs \<noteq> []" by (auto simp: filter_empty_conv)
  then have "hd ?bs \<in> set ?bs" by (rule hd_in_set)
  moreover have "mask_ones r \<le> ?m" if "r \<in> set rs" "route_matches dst r" for r using that by (intro Max_ge) auto
  moreover have "route_lookup (foldl add_route [] rs) dst = Some (hd ?bs)"
    using False by (simp add: route_lookup_exact longest_prefix_match_def Let_def)
  ultimately show ?thesis by auto
qed

definition demo_route :: "u32 \<Rightarrow> route_entry" where
  "demo_route metric = \<lparr> rt_destination = UNSPECIFIED, rt_netmask = UNSPECIFIED, rt_gateway = Ipv4Addr 10 0 2 2,
     rt_interface_idx = 1, rt_metric = metric \<rparr>"

lemma demo_route_matches: "route_matches dst (demo_route m)"
proof -
  have "to_u32 UNSPECIFIED = 0" by code_simp
  then show ?thesis by (simp add: route_matches_def demo_route_def)
qed

theorem route_lookup_lpm_witness:
  "\<exists>r \<in> set [demo_route 5, demo_route 7]. route_lookup (foldl add_route [] [demo_route 5, demo_route 7]) LOCALHOST = Some r"
  using route_lookup_lpm [of "[demo_route 5, demo_route 7]" LOCALHOST] demo_route_matches [of LOCALHOST 5]
  by (auto split: option.splits)

text \<open>
  C40. The metric of a route has no effect: of two matching routes with equally long prefixes the one that
  was added first is used, whatever their metrics, although a lower metric is to be preferred.
\<close>

theorem route_metric_ignored:
  assumes "route_matches dst r" "route_matches dst r'" "mask_ones r = mask_ones r'" "rt_metric r' < rt_metric r"
  shows "route_lookup (foldl add_route [] [r, r']) dst = Some r"
  unfolding route_lookup_exact using assms by (simp add: longest_prefix_match_def)

theorem route_metric_ignored_witness:
  "route_lookup (foldl add_route [] [demo_route 100, demo_route 1]) LOCALHOST = Some (demo_route 100)"
  using route_metric_ignored [of LOCALHOST "demo_route 100" "demo_route 1"] demo_route_matches [of LOCALHOST]
  by (simp add: demo_route_def mask_ones_def)

end
