(* ===== verification/Tcp.thy ===== *)
theory Tcp
  imports Net_Wire
begin

text \<open>
  Sockets (\<open>net/socket.rs\<close>) and the TCP receiver (\<open>net/tcp.rs\<close>): the socket structure, the segment
  handler \<open>process_segment\<close> with its reassembly queue, and the reads that drain the stream.
\<close>

section \<open>Sockets\<close>

datatype tcp_state =
    Closed | Listen | SynSent | SynReceived | Established | FinWait1 | FinWait2 | CloseWait | Closing
  | LastAck | TimeWait

record udp_datagram =
  dg_src_addr :: ipv4_addr
  dg_src_port :: u16
  dg_data :: bytes

text \<open>
  The backlog names child sockets by their identity. The wait queue is represented by the number of
  \<open>wake_all\<close> calls on it, which is its generation; \<open>sk_epoll_wakes\<close> counts the calls of
  \<open>wake_all_epolls\<close> made on behalf of the socket. The out-of-order queue, a \<open>BTreeMap\<close>, is an
  association list in ascending order of the keys.
\<close>

record socket =
  sk_domain :: int
  sk_type :: int
  sk_protocol :: int
  sk_local_addr :: "ipv4_addr option"
  sk_local_port :: "u16 option"
  sk_remote_addr :: "ipv4_addr option"
  sk_remote_port :: "u16 option"
  sk_udp_recv_queue :: "udp_datagram list"
  sk_state :: tcp_state
  sk_snd_una :: u32
  sk_snd_nxt :: u32
  sk_rcv_nxt :: u32
  sk_recv_buf :: bytes
  sk_send_buf :: bytes
  sk_backlog :: "nat list"
  sk_max_backlog :: nat
  sk_rcv_wnd :: u16
  sk_ooo :: "(u32 \<times> bytes) list"
  sk_so_error :: int
  sk_had_remote_addr :: bool
  sk_nonblocking :: bool
  sk_wakes :: nat
  sk_epoll_wakes :: nat

definition socket_new :: "int \<Rightarrow> int \<Rightarrow> int \<Rightarrow> socket" where
  "socket_new domain sock_type protocol =
     \<lparr> sk_domain = domain, sk_type = sock_type, sk_protocol = protocol,
       sk_local_addr = None, sk_local_port = None, sk_remote_addr = None, sk_remote_port = None,
       sk_udp_recv_queue = [], sk_state = Closed, sk_snd_una = 0, sk_snd_nxt = 0, sk_rcv_nxt = 0,
       sk_recv_buf = [], sk_send_buf = [], sk_backlog = [], sk_max_backlog = 0, sk_rcv_wnd = 65535,
       sk_ooo = [], sk_so_error = 0, sk_had_remote_addr = False, sk_nonblocking = False,
       sk_wakes = 0, sk_epoll_wakes = 0 \<rparr>"

definition wake_waiters :: "socket \<Rightarrow> socket" where
  "wake_waiters s = s \<lparr> sk_wakes := sk_wakes s + 1 \<rparr>"

definition wake_epolls :: "socket \<Rightarrow> socket" where
  "wake_epolls s = s \<lparr> sk_epoll_wakes := sk_epoll_wakes s + 1 \<rparr>"

section \<open>The segment handler\<close>

definition TCP_MAX_RECV_BUF :: nat where "TCP_MAX_RECV_BUF = 524288"

definition has_flag :: "u16 \<Rightarrow> u16 \<Rightarrow> bool" where
  "has_flag flags f \<longleftrightarrow> flags AND f \<noteq> 0"

text \<open>The advertised window; the differences of lengths saturate at zero, as on \<open>nat\<close>.\<close>

definition rcv_wnd_of :: "nat \<Rightarrow> u16" where
  "rcv_wnd_of buf_len = of_nat (min (TCP_MAX_RECV_BUF - buf_len) 65535)"

definition ack_reply :: "socket \<Rightarrow> (u32 \<times> u32 \<times> u16 \<times> u16) option" where
  "ack_reply s = Some (sk_snd_nxt s, sk_rcv_nxt s, TCP_ACK, rcv_wnd_of (length (sk_recv_buf s)))"

text \<open>Whether a queued segment starts at the expected byte, or before it and reaches beyond it.\<close>

definition ooo_matches :: "u32 \<Rightarrow> u32 \<times> bytes \<Rightarrow> bool" where
  "ooo_matches cur_nxt e =
     (case e of (k, v) \<Rightarrow>
        k = cur_nxt \<or>
        (0x80000000 \<le> k - cur_nxt \<and>
         (let ooo_end = k + of_nat (length v) in ooo_end - cur_nxt < 0x80000000 \<and> ooo_end \<noteq> cur_nxt)))"

definition ooo_stale :: "u32 \<Rightarrow> u32 \<times> bytes \<Rightarrow> bool" where
  "ooo_stale cur_nxt e =
     (case e of (k, v) \<Rightarrow>
        let ooo_end = k + of_nat (length v) in 0x80000000 \<le> ooo_end - cur_nxt \<or> ooo_end = cur_nxt)"

definition ooo_remove :: "u32 \<Rightarrow> (u32 \<times> bytes) list \<Rightarrow> (u32 \<times> bytes) list" where
  "ooo_remove k q = filter (\<lambda>e. fst e \<noteq> k) q"

lemma find_SomeD: "List.find P xs = Some x \<Longrightarrow> x \<in> set xs \<and> P x"
  by (auto simp: find_Some_iff)

lemma length_ooo_remove: "(k, v) \<in> set q \<Longrightarrow> length (ooo_remove k q) < length q"
  by (metis (mono_tags, lifting) fst_conv length_filter_less ooo_remove_def)

text \<open>\<open>entry(k).or_insert_with\<close> on the ordered map.\<close>

definition ooo_or_insert :: "u32 \<Rightarrow> bytes \<Rightarrow> (u32 \<times> bytes) list \<Rightarrow> (u32 \<times> bytes) list" where
  "ooo_or_insert k v q = (if k \<in> fst ` set q then q else insort_key fst (k, v) q)"

definition ooo_used :: "(u32 \<times> bytes) list \<Rightarrow> nat" where
  "ooo_used q = sum_list (map (length \<circ> snd) q)"

text \<open>
  The drain loop. The \<open>find\<close> runs over the keys in ascending order and looks the data up; here it
  runs over the entries.
\<close>

function (sequential) drain_ooo :: "socket \<Rightarrow> socket" where
  "drain_ooo s =
     (let cur_nxt = sk_rcv_nxt s in
      case List.find (ooo_matches cur_nxt) (sk_ooo s) of
        Some (k, v) \<Rightarrow>
          let overlap = (if k = cur_nxt then 0 else unat (cur_nxt - k));
              chunk_len = length v - overlap
          in if 0 < chunk_len then
               if length (sk_recv_buf s) + chunk_len \<le> TCP_MAX_RECV_BUF then
                 let chunk = drop overlap v in
                 drain_ooo (s \<lparr> sk_ooo := ooo_remove k (sk_ooo s),
                                sk_recv_buf := sk_recv_buf s @ chunk,
                                sk_rcv_nxt := cur_nxt + of_nat (length chunk) \<rparr>)
               else s
             else drain_ooo (s \<lparr> sk_ooo := ooo_remove k (sk_ooo s) \<rparr>)
      | None \<Rightarrow> s \<lparr> sk_ooo := filter (\<lambda>e. \<not> ooo_stale cur_nxt e) (sk_ooo s) \<rparr>)"
  by pat_completeness auto
termination
  by (relation "measure (\<lambda>s. length (sk_ooo s))")
    (auto dest!: find_SomeD intro: length_ooo_remove)

declare drain_ooo.simps [simp del]

text \<open>Trimming of a retransmission that overlaps what was already received.\<close>

definition effective_segment :: "u32 \<Rightarrow> u32 \<Rightarrow> bytes \<Rightarrow> u32 \<times> bytes" where
  "effective_segment rcv_nxt seq payload =
     (if 0x80000000 \<le> seq - rcv_nxt then
        let overlap = unat (rcv_nxt - seq) in
        if overlap < length payload then (rcv_nxt, drop overlap payload) else (seq, [])
      else (seq, payload))"

definition accept_payload :: "socket \<Rightarrow> u32 \<Rightarrow> bytes \<Rightarrow> socket \<times> (u32 \<times> u32 \<times> u16 \<times> u16) option" where
  "accept_payload s seq payload =
     (case effective_segment (sk_rcv_nxt s) seq payload of (eseq, epay) \<Rightarrow>
        if epay \<noteq> [] \<and> eseq = sk_rcv_nxt s then
          if length (sk_recv_buf s) + length epay \<le> TCP_MAX_RECV_BUF then
            let s1 = drain_ooo (s \<lparr> sk_recv_buf := sk_recv_buf s @ epay,
                                    sk_rcv_nxt := eseq + of_nat (length epay) \<rparr>)
            in (wake_epolls (wake_waiters s1), ack_reply s1)
          else (s, ack_reply s)
        else if epay \<noteq> [] \<and> eseq - sk_rcv_nxt s < 0x80000000 then
          let s1 = (if ooo_used (sk_ooo s) + length epay \<le> TCP_MAX_RECV_BUF
                    then s \<lparr> sk_ooo := ooo_or_insert eseq epay (sk_ooo s) \<rparr> else s)
          in (s1, ack_reply s1)
        else (s, ack_reply s))"

definition syn_sent_segment ::
  "socket \<Rightarrow> u32 \<Rightarrow> u32 \<Rightarrow> u16 \<Rightarrow> socket \<times> (u32 \<times> u32 \<times> u16 \<times> u16) option" where
  "syn_sent_segment s seq ack flags =
     (if has_flag flags TCP_RST then
        (wake_epolls (wake_waiters (s \<lparr> sk_so_error := 111, sk_state := Closed \<rparr>)), None)
      else if has_flag flags TCP_SYN \<and> has_flag flags TCP_ACK then
        let s1 = s \<lparr> sk_rcv_nxt := seq + 1, sk_snd_una := ack, sk_so_error := 0, sk_state := Established \<rparr>
        in (wake_epolls (wake_waiters s1), ack_reply s1)
      else (s, None))"

text \<open>The established state; \<open>Inl\<close> marks the early return on a reset.\<close>

definition established_segment ::
  "socket \<Rightarrow> u32 \<Rightarrow> u32 \<Rightarrow> u16 \<Rightarrow> bytes \<Rightarrow> socket + socket \<times> (u32 \<times> u32 \<times> u16 \<times> u16) option" where
  "established_segment s seq ack flags payload =
     (if has_flag flags TCP_RST then
        Inl (wake_epolls (wake_waiters (s \<lparr> sk_so_error := 104, sk_state := Closed \<rparr>)))
      else
        let s1 = (if has_flag flags TCP_ACK then s \<lparr> sk_snd_una := ack \<rparr> else s) in
        case (if payload \<noteq> [] then accept_payload s1 seq payload else (s1, None)) of (s2, reply) \<Rightarrow>
          if has_flag flags TCP_FIN then
            let s3 = s2 \<lparr> sk_rcv_nxt := sk_rcv_nxt s2 + 1, sk_state := CloseWait \<rparr>
            in Inr (wake_epolls (wake_waiters s3), ack_reply s3)
          else Inr (s2, reply))"

definition fin_wait1_segment ::
  "socket \<Rightarrow> u32 \<Rightarrow> u32 \<Rightarrow> u16 \<Rightarrow> socket \<times> (u32 \<times> u32 \<times> u16 \<times> u16) option" where
  "fin_wait1_segment s seq ack flags =
     (let s1 = (if has_flag flags TCP_ACK then s \<lparr> sk_snd_una := ack, sk_state := FinWait2 \<rparr> else s) in
      if has_flag flags TCP_FIN then
        let s2 = s1 \<lparr> sk_rcv_nxt := seq + 1 \<rparr>
        in (s2 \<lparr> sk_state := Closing \<rparr>, Some (sk_snd_nxt s2, sk_rcv_nxt s2, TCP_ACK, 65535))
      else (s1, None))"

definition fin_wait2_segment ::
  "socket \<Rightarrow> u32 \<Rightarrow> u16 \<Rightarrow> socket \<times> (u32 \<times> u32 \<times> u16 \<times> u16) option" where
  "fin_wait2_segment s seq flags =
     (if has_flag flags TCP_FIN then
        let s1 = s \<lparr> sk_rcv_nxt := seq + 1 \<rparr>
        in (wake_waiters (s1 \<lparr> sk_state := Closed \<rparr>), Some (sk_snd_nxt s1, sk_rcv_nxt s1, TCP_ACK, 65535))
      else (s, None))"

definition note_window :: "socket \<times> (u32 \<times> u32 \<times> u16 \<times> u16) option \<Rightarrow> socket \<times> (u32 \<times> u32 \<times> u16 \<times> u16) option" where
  "note_window r =
     (case r of (s, Some (a, b, c, wnd)) \<Rightarrow> (s \<lparr> sk_rcv_wnd := wnd \<rparr>, Some (a, b, c, wnd)) | (s, None) \<Rightarrow> (s, None))"

definition process_segment ::
  "socket \<Rightarrow> u32 \<Rightarrow> u32 \<Rightarrow> u16 \<Rightarrow> bytes \<Rightarrow> socket \<times> (u32 \<times> u32 \<times> u16 \<times> u16) option" where
  "process_segment s seq ack flags payload =
     (case sk_state s of
        SynSent \<Rightarrow> note_window (syn_sent_segment s seq ack flags)
      | SynReceived \<Rightarrow>
          (if has_flag flags TCP_ACK then
             (wake_waiters (s \<lparr> sk_snd_una := ack, sk_state := Established \<rparr>), None)
           else (s, None))
      | Established \<Rightarrow>
          (case established_segment s seq ack flags payload of
             Inl s1 \<Rightarrow> (s1, None)
           | Inr r \<Rightarrow> note_window r)
      | FinWait1 \<Rightarrow> note_window (fin_wait1_segment s seq ack flags)
      | FinWait2 \<Rightarrow> note_window (fin_wait2_segment s seq flags)
      | _ \<Rightarrow> (s, None))"

section \<open>Stream reads\<close>

text \<open>
  One pass of \<open>SocketInode::read\<close> on a stream socket under its lock: an error, data (the empty list is
  end of file), or waiting for the wait queue to move past the token read. The second component is the
  window-update acknowledgement that the code sends.
\<close>

datatype sock_read = SockErr int | SockData bytes | SockWait nat

definition window_update :: "socket \<Rightarrow> u16 \<Rightarrow> bool" where
  "window_update s new_wnd \<longleftrightarrow>
     sk_recv_buf s = [] \<or>
     sk_rcv_wnd s < 32768 \<and> 32768 \<le> new_wnd \<or>
     sk_rcv_wnd s = 0 \<and> 0 < new_wnd \<or>
     16384 \<le> unat new_wnd - unat (sk_rcv_wnd s)"

definition stream_take :: "nat \<Rightarrow> socket \<Rightarrow> sock_read \<times> (u32 \<times> u32 \<times> u16 \<times> u16) option \<times> socket" where
  "stream_take len s =
     (let n = min len (length (sk_recv_buf s)) in
      if 0 < n then
        let s1 = s \<lparr> sk_recv_buf := drop n (sk_recv_buf s) \<rparr>;
            new_wnd = rcv_wnd_of (length (sk_recv_buf s1))
        in if window_update s1 new_wnd \<and> sk_state s1 = Established then
             let s2 = s1 \<lparr> sk_rcv_wnd := new_wnd \<rparr> in
             if sk_local_addr s2 \<noteq> None \<and> sk_remote_addr s2 \<noteq> None \<and> sk_local_port s2 \<noteq> None \<and> sk_remote_port s2 \<noteq> None
             then (SockData (take n (sk_recv_buf s)), Some (sk_snd_nxt s2, sk_rcv_nxt s2, TCP_ACK, new_wnd), s2)
             else (SockData (take n (sk_recv_buf s)), None, s2)
           else (SockData (take n (sk_recv_buf s)), None, s1)
      else (SockData [], None, s))"

definition stream_read :: "nat \<Rightarrow> socket \<Rightarrow> sock_read \<times> (u32 \<times> u32 \<times> u16 \<times> u16) option \<times> socket" where
  "stream_read len s =
     (if sk_state s = Closed then (SockErr (- 104), None, s)
      else if sk_recv_buf s = [] then
        if sk_state s = CloseWait \<or> sk_state s = TimeWait then (SockData [], None, s)
        else if sk_nonblocking s then (SockErr (- 11), None, s)
        else (SockWait (sk_wakes s), None, s)
      else stream_take len s)"

text \<open>The passes after a wait: the loop looks at the state again, and only while the buffer is empty.\<close>

definition stream_reread :: "nat \<Rightarrow> socket \<Rightarrow> sock_read \<times> (u32 \<times> u32 \<times> u16 \<times> u16) option \<times> socket" where
  "stream_reread len s =
     (if sk_recv_buf s = [] then
        if sk_state s = CloseWait \<or> sk_state s = TimeWait then (SockData [], None, s)
        else if sk_state s = Closed then
          (SockErr (if sk_so_error s \<noteq> 0 then - sk_so_error s else - 104), None, s)
        else if sk_nonblocking s then (SockErr (- 11), None, s)
        else (SockWait (sk_wakes s), None, s)
      else stream_take len s)"

section \<open>Sequence numbers and stream positions\<close>

text \<open>
  The bytes the peer sends form a stream \<open>S\<close>; byte \<open>p\<close> has the sequence number \<open>base + p\<close> modulo
  \<open>2 ^ 32\<close>. Positions less than \<open>2 ^ 31\<close> apart are ordered by the code's wrapping comparison.
\<close>

definition seq_at :: "u32 \<Rightarrow> nat \<Rightarrow> u32" where
  "seq_at base p = base + of_nat p"

definition chunk_of :: "(nat \<Rightarrow> u8) \<Rightarrow> nat \<Rightarrow> nat \<Rightarrow> bytes" where
  "chunk_of S p len = map S [p..<p + len]"

lemma length_chunk_of [simp]: "length (chunk_of S p len) = len"
  by (simp add: chunk_of_def)

lemma drop_chunk_of: "drop k (chunk_of S p len) = chunk_of S (p + k) (len - k)"
  by (cases "k \<le> len") (simp_all add: chunk_of_def drop_map)

lemma chunk_of_append: "chunk_of S p a @ chunk_of S (p + a) b = chunk_of S p (a + b)"
  unfolding chunk_of_def map_append [symmetric]
  using upt_add_eq_append [of p "p + a" b] by (simp add: add.assoc)

lemma take_chunk_of: "k \<le> len \<Longrightarrow> take k (chunk_of S p len) = chunk_of S p k"
  by (simp add: chunk_of_def take_map take_upt)

lemma seq_at_add: "seq_at base p + of_nat k = seq_at base (p + k)"
  by (simp add: seq_at_def)

lemma seq_diff_ahead: "n \<le> p \<Longrightarrow> seq_at base p - seq_at base n = of_nat (p - n)"
  by (simp add: seq_at_def of_nat_diff)

lemma seq_diff_behind: "p \<le> n \<Longrightarrow> seq_at base p - seq_at base n = - of_nat (n - p)"
  by (simp add: seq_at_def of_nat_diff)

lemma of_nat_u32_less: "k < 0x80000000 \<Longrightarrow> (of_nat k :: u32) < 0x80000000"
  by (simp add: word_less_nat_alt unat_of_nat)

lemma neg_u32_ge: "0 < k \<Longrightarrow> k \<le> 0x80000000 \<Longrightarrow> (0x80000000 :: u32) \<le> - of_nat k"
proof -
  assume k: "0 < k" "k \<le> 0x80000000"
  have "(of_nat (2 ^ 32 - k) :: u32) = of_nat (2 ^ 32) - of_nat k" using k by (intro of_nat_diff) simp
  also have "\<dots> = - of_nat k" by simp
  finally have "unat (- (of_nat k :: u32)) = unat (of_nat (2 ^ 32 - k) :: u32)" by simp
  also have "\<dots> = 2 ^ 32 - k" using k by (intro unat_of_nat_small) simp
  finally show ?thesis using k by (simp add: word_le_nat_alt)
qed

lemma seq_compare:
  assumes "p \<le> n + 0x7FFFFFFF" "n \<le> p + 0x80000000"
  shows "0x80000000 \<le> seq_at base p - seq_at base n \<longleftrightarrow> p < n"
    and "seq_at base p = seq_at base n \<longleftrightarrow> p = n"
proof -
  have le: "0x80000000 \<le> seq_at base p - seq_at base n" if "p < n"
    using that assms(2) seq_diff_behind [of p n base] neg_u32_ge [of "n - p"] by simp
  have lt: "seq_at base p - seq_at base n < 0x80000000" if "n \<le> p"
    using that assms(1) seq_diff_ahead [of n p base] of_nat_u32_less [of "p - n"] by simp
  from le lt show "0x80000000 \<le> seq_at base p - seq_at base n \<longleftrightarrow> p < n" by (meson leD not_less)
  show "seq_at base p = seq_at base n \<longleftrightarrow> p = n"
  proof
    assume e: "seq_at base p = seq_at base n"
    then have "\<not> p < n" using le by fastforce
    then have "(of_nat (p - n) :: u32) = 0" using e seq_diff_ahead [of n p base] by simp
    moreover have "unat (of_nat (p - n) :: u32) = p - n"
      using assms(1) by (intro unat_of_nat_small) simp
    ultimately have "p - n = 0" by (metis unsigned_0)
    then show "p = n" using \<open>\<not> p < n\<close> by simp
  qed simp
qed

lemma seq_distance: "p \<le> n \<Longrightarrow> n - p < 2 ^ 32 \<Longrightarrow> unat (seq_at base n - seq_at base p) = n - p"
  by (simp only: seq_diff_ahead) (simp add: unat_of_nat_small del: of_nat_diff)

section \<open>The reassembly invariant\<close>

text \<open>
  With \<open>D\<close> the bytes the application has read, the bytes buffered continue \<open>D\<close> in the stream, and the
  next expected sequence number is that of the first missing byte. A queued segment holds stream
  bytes between the first unread byte and the end of the receive window.
\<close>

definition rx_front :: "bytes \<Rightarrow> socket \<Rightarrow> nat" where
  "rx_front D s = length D + length (sk_recv_buf s)"

definition ooo_entry :: "(nat \<Rightarrow> u8) \<Rightarrow> u32 \<Rightarrow> nat \<Rightarrow> nat \<Rightarrow> u32 \<times> bytes \<Rightarrow> bool" where
  "ooo_entry S base lo hi e \<longleftrightarrow>
     (\<exists>p len. e = (seq_at base p, chunk_of S p len) \<and> 0 < len \<and> lo \<le> p \<and> p + len \<le> hi)"

definition rx_stream :: "(nat \<Rightarrow> u8) \<Rightarrow> u32 \<Rightarrow> bytes \<Rightarrow> socket \<Rightarrow> bool" where
  "rx_stream S base D s \<longleftrightarrow>
     D @ sk_recv_buf s = chunk_of S 0 (rx_front D s) \<and>
     sk_rcv_nxt s = seq_at base (rx_front D s) \<and>
     length (sk_recv_buf s) \<le> TCP_MAX_RECV_BUF \<and>
     distinct (map fst (sk_ooo s)) \<and>
     (\<forall>e \<in> set (sk_ooo s). ooo_entry S base (length D) (length D + TCP_MAX_RECV_BUF) e)"

text \<open>Between calls no queued segment is deliverable: all lie strictly ahead.\<close>

definition rx_inv :: "(nat \<Rightarrow> u8) \<Rightarrow> u32 \<Rightarrow> bytes \<Rightarrow> socket \<Rightarrow> bool" where
  "rx_inv S base D s \<longleftrightarrow>
     rx_stream S base D s \<and>
     (\<forall>e \<in> set (sk_ooo s). ooo_entry S base (Suc (rx_front D s)) (length D + TCP_MAX_RECV_BUF) e)"

lemma ooo_matches_position:
  assumes "d \<le> p" "p + len \<le> d + TCP_MAX_RECV_BUF" "d \<le> n" "n \<le> d + TCP_MAX_RECV_BUF" "0 < len"
  shows "ooo_matches (seq_at base n) (seq_at base p, chunk_of S p len) \<longleftrightarrow> p \<le> n \<and> n < p + len"
    and "ooo_stale (seq_at base n) (seq_at base p, chunk_of S p len) \<longleftrightarrow> p + len \<le> n"
proof -
  have b: "p \<le> n + 0x7FFFFFFF" "n \<le> p + 0x80000000" "p + len \<le> n + 0x7FFFFFFF" "n \<le> p + len + 0x80000000"
    using assms(1-4) unfolding TCP_MAX_RECV_BUF_def by linarith+
  note c = seq_compare [OF b(1,2), of base] and e = seq_compare [OF b(3,4), of base]
  have e': "seq_at base (p + len) - seq_at base n < 0x80000000 \<longleftrightarrow> n \<le> p + len"
    using e(1) by (meson not_le)
  show "ooo_matches (seq_at base n) (seq_at base p, chunk_of S p len) \<longleftrightarrow> p \<le> n \<and> n < p + len"
    unfolding ooo_matches_def Let_def prod.case length_chunk_of seq_at_add c e' e(2)
    using assms(5) by linarith
  show "ooo_stale (seq_at base n) (seq_at base p, chunk_of S p len) \<longleftrightarrow> p + len \<le> n"
    unfolding ooo_stale_def Let_def prod.case length_chunk_of seq_at_add e by linarith
qed

text \<open>One iteration of the drain loop that finds a segment appends exactly its missing bytes.\<close>

definition rx_advance :: "(nat \<Rightarrow> u8) \<Rightarrow> u32 \<Rightarrow> bytes \<Rightarrow> nat \<Rightarrow> socket \<Rightarrow> socket" where
  "rx_advance S base D m s =
     s \<lparr> sk_recv_buf := sk_recv_buf s @ chunk_of S (rx_front D s) (m - rx_front D s),
         sk_rcv_nxt := seq_at base m \<rparr>"

lemma rx_front_ooo [simp]: "rx_front D (s \<lparr> sk_ooo := q \<rparr>) = rx_front D s"
  by (simp add: rx_front_def)

lemma rx_front_advance: "rx_front D s \<le> m \<Longrightarrow> rx_front D (rx_advance S base D m s) = m"
  by (simp add: rx_front_def rx_advance_def)

lemma rx_stream_advance:
  assumes "rx_stream S base D s" "rx_front D s \<le> m" "m \<le> length D + TCP_MAX_RECV_BUF"
  shows "rx_stream S base D (rx_advance S base D m s)"
proof -
  have "D @ sk_recv_buf (rx_advance S base D m s) = chunk_of S 0 m"
    using assms(1,2) chunk_of_append [of S 0 "rx_front D s" "m - rx_front D s"]
    by (simp add: rx_stream_def rx_advance_def flip: append_assoc)
  moreover have "rx_front D (rx_advance S base D m s) = m" using assms(2) by (rule rx_front_advance)
  ultimately show ?thesis
    using assms by (simp add: rx_stream_def rx_advance_def rx_front_def)
qed

lemma drain_found:
  assumes ok: "rx_stream S base D s" and f: "List.find (ooo_matches (sk_rcv_nxt s)) (sk_ooo s) = Some (k, v)"
  obtains p len where "(k, v) = (seq_at base p, chunk_of S p len)" "p \<le> rx_front D s" "rx_front D s < p + len"
    "length D \<le> p" "p + len \<le> length D + TCP_MAX_RECV_BUF"
    "drain_ooo s = drain_ooo (rx_advance S base D (p + len) (s \<lparr> sk_ooo := ooo_remove k (sk_ooo s) \<rparr>))"
proof -
  let ?n = "rx_front D s"
  have m: "(k, v) \<in> set (sk_ooo s)" "ooo_matches (sk_rcv_nxt s) (k, v)"
    using find_SomeD [OF f] by auto
  have nxt: "sk_rcv_nxt s = seq_at base ?n" and nb: "length D \<le> ?n" "?n \<le> length D + TCP_MAX_RECV_BUF"
    using ok by (auto simp: rx_stream_def rx_front_def)
  obtain p len where e: "(k, v) = (seq_at base p, chunk_of S p len)" "0 < len" "length D \<le> p"
    "p + len \<le> length D + TCP_MAX_RECV_BUF"
    using ok m(1) unfolding rx_stream_def ooo_entry_def by blast
  have pn: "p \<le> ?n" "?n < p + len"
    using m(2) unfolding e(1) nxt by (simp_all add: ooo_matches_position [OF e(3,4) nb e(2)])
  have eq: "k = sk_rcv_nxt s \<longleftrightarrow> p = ?n"
    using e(1) pn nxt nb e by (simp add: seq_compare TCP_MAX_RECV_BUF_def)
  have "unat (sk_rcv_nxt s - k) = ?n - p"
    using e(1) pn nb e(3) by (simp add: nxt seq_distance TCP_MAX_RECV_BUF_def)
  then have ov: "(if k = sk_rcv_nxt s then 0 else unat (sk_rcv_nxt s - k)) = ?n - p"
    using eq by simp
  have v: "drop (?n - p) v = chunk_of S ?n (p + len - ?n)" "length v = len"
    using e(1) pn by (simp_all add: drop_chunk_of add.commute)
  have fit: "length (sk_recv_buf s) + (len - (?n - p)) \<le> TCP_MAX_RECV_BUF"
    using e(4) pn by (simp add: rx_front_def)
  have pos: "0 < len - (?n - p)" using pn by simp
  have nx: "seq_at base ?n + of_nat (p + len - ?n) = seq_at base (p + len)"
    using pn by (simp only: seq_at_add) simp
  have "drain_ooo s = drain_ooo (s \<lparr> sk_ooo := ooo_remove k (sk_ooo s),
          sk_recv_buf := sk_recv_buf s @ drop (?n - p) v,
          sk_rcv_nxt := sk_rcv_nxt s + of_nat (length (drop (?n - p) v)) \<rparr>)"
    by (subst drain_ooo.simps) (simp only: Let_def f option.case prod.case ov v(2) fit pos if_True)
  moreover have "sk_rcv_nxt s + of_nat (length (drop (?n - p) v)) = seq_at base (p + len)"
    by (simp only: v(1) length_chunk_of nxt nx)
  ultimately have "drain_ooo s = drain_ooo (rx_advance S base D (p + len) (s \<lparr> sk_ooo := ooo_remove k (sk_ooo s) \<rparr>))"
    by (simp add: rx_advance_def v(1))
  then show ?thesis using that e pn by blast
qed

lemma rx_stream_fewer:
  "rx_stream S base D s \<Longrightarrow> rx_stream S base D (s \<lparr> sk_ooo := filter P (sk_ooo s) \<rparr>)"
  by (auto simp: rx_stream_def rx_front_def distinct_map_filter)

text \<open>
  The whole loop: it keeps the stream invariant, never moves the front back, leaves every queued
  segment that is not behind the front, and no deliverable one.
\<close>

lemma drain_ooo_rx:
  assumes "rx_stream S base D s"
  shows "rx_inv S base D (drain_ooo s) \<and> rx_front D s \<le> rx_front D (drain_ooo s) \<and>
         (\<forall>p len. (seq_at base p, chunk_of S p len) \<in> set (sk_ooo s) \<and> 0 < len \<and> length D \<le> p \<and>
            p + len \<le> length D + TCP_MAX_RECV_BUF \<longrightarrow>
            p + len \<le> rx_front D (drain_ooo s) \<or> (seq_at base p, chunk_of S p len) \<in> set (sk_ooo (drain_ooo s)))"
  using assms
proof (induction "length (sk_ooo s)" arbitrary: s rule: less_induct)
  case less
  let ?n = "rx_front D s"
  have nxt: "sk_rcv_nxt s = seq_at base ?n" and nb: "length D \<le> ?n" "?n \<le> length D + TCP_MAX_RECV_BUF"
    using less.prems by (auto simp: rx_stream_def rx_front_def)
  note pos = ooo_matches_position [OF _ _ nb]
  show ?case
  proof (cases "List.find (ooo_matches (sk_rcv_nxt s)) (sk_ooo s)")
    case None
    then have d: "drain_ooo s = s \<lparr> sk_ooo := filter (\<lambda>e. \<not> ooo_stale (sk_rcv_nxt s) e) (sk_ooo s) \<rparr>"
      by (subst drain_ooo.simps) (simp add: Let_def)
    have "ooo_entry S base (Suc ?n) (length D + TCP_MAX_RECV_BUF) e"
      if e: "e \<in> set (sk_ooo s)" "\<not> ooo_stale (sk_rcv_nxt s) e" for e
    proof -
      obtain p len where p: "e = (seq_at base p, chunk_of S p len)" "0 < len" "length D \<le> p"
        "p + len \<le> length D + TCP_MAX_RECV_BUF"
        using less.prems e(1) unfolding rx_stream_def ooo_entry_def by blast
      have "\<not> ooo_matches (seq_at base ?n) e" using None e(1) nxt by (cases e) (auto simp: find_None_iff)
      then have "Suc ?n \<le> p"
        using e(2) pos [OF p(3,4,2), of base S] unfolding nxt p(1) by auto
      with p show ?thesis unfolding ooo_entry_def by blast
    qed
    moreover have "p + len \<le> ?n \<or> (seq_at base p, chunk_of S p len) \<in> set (sk_ooo (drain_ooo s))"
      if "(seq_at base p, chunk_of S p len) \<in> set (sk_ooo s)" "0 < len" "length D \<le> p"
        "p + len \<le> length D + TCP_MAX_RECV_BUF" for p len
      using that pos [OF that(3,4,2), of base S] by (auto simp: d nxt)
    ultimately show ?thesis
      using rx_stream_fewer [OF less.prems, of "\<lambda>e. \<not> ooo_stale (sk_rcv_nxt s) e"]
      by (auto simp: d rx_inv_def)
  next
    case (Some e)
    obtain k v where kv: "e = (k, v)" by (cases e)
    obtain p len where p: "(k, v) = (seq_at base p, chunk_of S p len)" "p \<le> ?n" "?n < p + len"
      "length D \<le> p" "p + len \<le> length D + TCP_MAX_RECV_BUF"
      and d: "drain_ooo s = drain_ooo (rx_advance S base D (p + len) (s \<lparr> sk_ooo := ooo_remove k (sk_ooo s) \<rparr>))"
      using drain_found [OF less.prems Some [unfolded kv]] by blast
    let ?s1 = "rx_advance S base D (p + len) (s \<lparr> sk_ooo := ooo_remove k (sk_ooo s) \<rparr>)"
    have q1: "sk_ooo ?s1 = ooo_remove k (sk_ooo s)" by (simp add: rx_advance_def)
    have m: "(k, v) \<in> set (sk_ooo s)" using find_SomeD [OF Some] kv by simp
    have f1: "rx_front D ?s1 = p + len" using p by (simp add: rx_front_advance)
    have "rx_stream S base D ?s1"
      using rx_stream_fewer [OF less.prems] p(3,5) by (intro rx_stream_advance) (simp_all add: ooo_remove_def)
    from less.hyps [OF _ this] have IH: "rx_inv S base D (drain_ooo s)" "p + len \<le> rx_front D (drain_ooo s)"
      and keep: "(seq_at base p', chunk_of S p' len') \<in> set (ooo_remove k (sk_ooo s)) \<and> 0 < len' \<and> length D \<le> p' \<and>
            p' + len' \<le> length D + TCP_MAX_RECV_BUF \<longrightarrow>
            p' + len' \<le> rx_front D (drain_ooo s) \<or> (seq_at base p', chunk_of S p' len') \<in> set (sk_ooo (drain_ooo s))"
      for p' len'
      using length_ooo_remove [OF m] by (simp_all add: d [symmetric] q1 f1)
    have "p' + len' \<le> rx_front D (drain_ooo s) \<or> (seq_at base p', chunk_of S p' len') \<in> set (sk_ooo (drain_ooo s))"
      if e: "(seq_at base p', chunk_of S p' len') \<in> set (sk_ooo s)" "0 < len'" "length D \<le> p'"
        "p' + len' \<le> length D + TCP_MAX_RECV_BUF" for p' len'
    proof (cases "seq_at base p' = k")
      case True
      then have "chunk_of S p' len' = v"
        using e(1) m less.prems eq_key_imp_eq_value [of "sk_ooo s" k] by (auto simp: rx_stream_def)
      then have "len' = len" using p(1) by (metis length_chunk_of prod.inject)
      moreover have "p' = p"
        using True p(1,4,5) e(2-4) seq_compare(2) [of p' p base] unfolding TCP_MAX_RECV_BUF_def by fastforce
      ultimately show ?thesis using IH(2) by simp
    qed (use keep e in \<open>auto simp: ooo_remove_def\<close>)
    with IH p(3) show ?thesis by auto
  qed
qed

section \<open>Segments of the stream\<close>

text \<open>What every iteration keeps, the loop keeps.\<close>

lemma drain_ooo_invariant:
  assumes take_one: "\<And>s k c x. P s \<Longrightarrow> length (sk_recv_buf s) + length c \<le> TCP_MAX_RECV_BUF \<Longrightarrow>
      P (s \<lparr> sk_ooo := ooo_remove k (sk_ooo s), sk_recv_buf := sk_recv_buf s @ c, sk_rcv_nxt := x \<rparr>)"
    and prune: "\<And>s Q. P s \<Longrightarrow> P (s \<lparr> sk_ooo := filter Q (sk_ooo s) \<rparr>)"
  shows "P s \<Longrightarrow> P (drain_ooo s)"
proof (induction s rule: drain_ooo.induct)
  case (1 s)
  show ?case
  proof (cases "List.find (ooo_matches (sk_rcv_nxt s)) (sk_ooo s)")
    case None
    then show ?thesis
      using prune [OF 1(3)] by (subst drain_ooo.simps) (simp add: Let_def)
  next
    case (Some e)
    obtain k v where e: "e = (k, v)" by (cases e)
    define ov where "ov = (if k = sk_rcv_nxt s then 0 else unat (sk_rcv_nxt s - k))"
    let ?s1 = "s \<lparr> sk_ooo := ooo_remove k (sk_ooo s), sk_recv_buf := sk_recv_buf s @ drop ov v,
                 sk_rcv_nxt := sk_rcv_nxt s + of_nat (length (drop ov v)) \<rparr>"
    let ?s2 = "s \<lparr> sk_ooo := ooo_remove k (sk_ooo s) \<rparr>"
    have d: "drain_ooo s = (if 0 < length v - ov then
        if length (sk_recv_buf s) + (length v - ov) \<le> TCP_MAX_RECV_BUF then drain_ooo ?s1 else s
        else drain_ooo ?s2)"
      unfolding ov_def by (subst drain_ooo.simps) (simp only: Let_def Some e option.case prod.case)
    have "P (drain_ooo ?s1)"
      if "0 < length v - ov" "length (sk_recv_buf s) + (length v - ov) \<le> TCP_MAX_RECV_BUF"
      using that take_one [OF 1(3), of "drop ov v"]
      by (intro 1(1) [OF refl Some e [symmetric] ov_def refl _ _ refl]) simp_all
    moreover have "P (drain_ooo ?s2)" if "\<not> 0 < length v - ov"
      using that prune [OF 1(3)] unfolding ooo_remove_def
      by (intro 1(2) [OF refl Some e [symmetric] ov_def refl, unfolded ooo_remove_def]) simp_all
    ultimately show ?thesis using d 1(3) by (simp split: if_splits)
  qed
qed

text \<open>The loop changes nothing but the receive buffer, the next sequence number and the queue.\<close>

definition rx_frame :: "socket \<Rightarrow> socket" where
  "rx_frame s = s \<lparr> sk_recv_buf := [], sk_rcv_nxt := 0, sk_ooo := [] \<rparr>"

lemma drain_ooo_frame: "rx_frame (drain_ooo s) = rx_frame s"
  by (rule drain_ooo_invariant [where P = "\<lambda>t. rx_frame t = rx_frame s"]) (simp_all add: rx_frame_def)

lemma drain_ooo_other [simp]:
  "sk_state (drain_ooo s) = sk_state s" "sk_snd_nxt (drain_ooo s) = sk_snd_nxt s"
  using arg_cong [OF drain_ooo_frame, of sk_state s] arg_cong [OF drain_ooo_frame, of sk_snd_nxt s]
  by (simp_all add: rx_frame_def)

lemma effective_segment_stream:
  assumes "p \<le> n + 0x7FFFFFFF" "n \<le> p + 0x80000000"
  shows "effective_segment (seq_at base n) (seq_at base p) (chunk_of S p len) =
         (if p < n then if n < p + len then (seq_at base n, chunk_of S n (p + len - n)) else (seq_at base p, [])
          else (seq_at base p, chunk_of S p len))"
proof -
  have "unat (seq_at base n - seq_at base p) = n - p" if "p < n"
    using that assms(2) by (intro seq_distance) simp_all
  then show ?thesis
    using seq_compare(1) [OF assms, of base]
    by (auto simp: effective_segment_def Let_def drop_chunk_of add.commute)
qed

text \<open>Fields the stream invariant does not read.\<close>

lemma rx_other_fields [simp]:
  "rx_front D (wake_waiters s) = rx_front D s" "rx_front D (wake_epolls s) = rx_front D s"
  "rx_front D (s \<lparr> sk_snd_una := a \<rparr>) = rx_front D s" "rx_front D (s \<lparr> sk_rcv_wnd := w \<rparr>) = rx_front D s"
  "rx_inv S base D (wake_waiters s) = rx_inv S base D s" "rx_inv S base D (wake_epolls s) = rx_inv S base D s"
  "rx_inv S base D (s \<lparr> sk_snd_una := a \<rparr>) = rx_inv S base D s"
  "rx_inv S base D (s \<lparr> sk_rcv_wnd := w \<rparr>) = rx_inv S base D s"
  "sk_ooo (wake_waiters s) = sk_ooo s" "sk_ooo (wake_epolls s) = sk_ooo s"
  "sk_state (wake_waiters s) = sk_state s" "sk_state (wake_epolls s) = sk_state s"
  by (simp_all add: rx_front_def rx_inv_def rx_stream_def wake_waiters_def wake_epolls_def)

text \<open>A segment at or below the front that reaches beyond it is delivered whole.\<close>

lemma accept_in_order:
  assumes inv: "rx_inv S base D s" and p: "p \<le> rx_front D s" "rx_front D s < p + len"
    and w: "p + len \<le> length D + TCP_MAX_RECV_BUF" "rx_front D s \<le> p + 0x80000000"
  shows "accept_payload s (seq_at base p) (chunk_of S p len) =
         (let s1 = drain_ooo (rx_advance S base D (p + len) s) in (wake_epolls (wake_waiters s1), ack_reply s1))"
proof -
  let ?n = "rx_front D s"
  have nxt: "sk_rcv_nxt s = seq_at base ?n" using inv by (simp add: rx_inv_def rx_stream_def)
  have eff: "effective_segment (sk_rcv_nxt s) (seq_at base p) (chunk_of S p len) =
        (sk_rcv_nxt s, chunk_of S ?n (p + len - ?n))"
    unfolding nxt using p w(2) by (subst effective_segment_stream) auto
  have room: "length (sk_recv_buf s) + (p + len - ?n) \<le> TCP_MAX_RECV_BUF"
    using w(1) p by (simp add: rx_front_def)
  have ne: "chunk_of S ?n (p + len - ?n) \<noteq> []" using p by (simp add: chunk_of_def)
  have nx: "seq_at base ?n + of_nat (p + len - ?n) = seq_at base (p + len)"
    using p by (simp only: seq_at_add) simp
  show ?thesis
    unfolding accept_payload_def eff prod.case
    using ne room by (simp add: Let_def rx_advance_def nxt nx)
qed

text \<open>A segment wholly behind the front changes nothing.\<close>

lemma accept_old:
  assumes inv: "rx_inv S base D s" and p: "p + len \<le> rx_front D s" "0 < len" "rx_front D s \<le> p + 0x80000000"
  shows "accept_payload s (seq_at base p) (chunk_of S p len) = (s, ack_reply s)"
proof -
  have nxt: "sk_rcv_nxt s = seq_at base (rx_front D s)" using inv by (simp add: rx_inv_def rx_stream_def)
  have "effective_segment (sk_rcv_nxt s) (seq_at base p) (chunk_of S p len) = (seq_at base p, [])"
    unfolding nxt using p by (subst effective_segment_stream) auto
  then show ?thesis by (simp add: accept_payload_def)
qed

text \<open>A segment ahead of the front is queued when it is new and the queue has room.\<close>

lemma accept_ahead:
  assumes inv: "rx_inv S base D s" and p: "rx_front D s < p" "0 < len" "p + len \<le> length D + TCP_MAX_RECV_BUF"
  obtains q where "accept_payload s (seq_at base p) (chunk_of S p len) = (s \<lparr> sk_ooo := q \<rparr>, ack_reply (s \<lparr> sk_ooo := q \<rparr>))"
    "q = (if ooo_used (sk_ooo s) + len \<le> TCP_MAX_RECV_BUF
          then ooo_or_insert (seq_at base p) (chunk_of S p len) (sk_ooo s) else sk_ooo s)"
proof -
  let ?n = "rx_front D s"
  have nxt: "sk_rcv_nxt s = seq_at base ?n" using inv by (simp add: rx_inv_def rx_stream_def)
  have b: "p \<le> ?n + 0x7FFFFFFF" "?n \<le> p + 0x80000000"
    using p by (simp_all add: rx_front_def TCP_MAX_RECV_BUF_def)
  have eff: "effective_segment (sk_rcv_nxt s) (seq_at base p) (chunk_of S p len) = (seq_at base p, chunk_of S p len)"
    unfolding nxt using p(1) b by (subst effective_segment_stream) auto
  have c: "seq_at base p \<noteq> sk_rcv_nxt s" "seq_at base p - sk_rcv_nxt s < 0x80000000"
    unfolding nxt using p(1) seq_compare [OF b, of base] by (auto simp: not_le [symmetric])
  have ne: "chunk_of S p len \<noteq> []" using p(2) by (simp add: chunk_of_def)
  show ?thesis
    by (rule that [OF _ refl]) (use c ne in \<open>auto simp: accept_payload_def eff Let_def\<close>)
qed

lemma set_ooo_or_insert:
  "set (ooo_or_insert k v q) = (if k \<in> fst ` set q then set q else insert (k, v) (set q))"
  by (simp add: ooo_or_insert_def set_insort_key)

lemma distinct_ooo_or_insert: "distinct (map fst q) \<Longrightarrow> distinct (map fst (ooo_or_insert k v q))"
  unfolding ooo_or_insert_def
  by (auto simp: distinct_map distinct_insort inj_on_def set_insort_key) (metis fst_conv imageI)

text \<open>The reassembly invariant is kept by every segment of the stream that lies in the window.\<close>

lemma accept_payload_rx:
  assumes inv: "rx_inv S base D s" and len: "0 < len"
    and w: "p + len \<le> length D + TCP_MAX_RECV_BUF" "rx_front D s \<le> p + 0x80000000"
    and a: "accept_payload s (seq_at base p) (chunk_of S p len) = (s', r)"
  shows "rx_inv S base D s' \<and> rx_front D s \<le> rx_front D s' \<and> (p \<le> rx_front D s \<longrightarrow> p + len \<le> rx_front D s') \<and>
         sk_state s' = sk_state s"
proof -
  let ?n = "rx_front D s"
  consider "p + len \<le> ?n" | "p \<le> ?n" "?n < p + len" | "?n < p" by linarith
  then show ?thesis
  proof cases
    case 1
    then show ?thesis using accept_old [OF inv 1 len w(2)] a inv by simp
  next
    case 2
    let ?t = "rx_advance S base D (p + len) s"
    have "rx_stream S base D ?t" "rx_front D ?t = p + len"
      using inv 2 w(1) by (auto simp: rx_inv_def intro!: rx_stream_advance rx_front_advance)
    then have "rx_inv S base D (drain_ooo ?t)" "p + len \<le> rx_front D (drain_ooo ?t)"
      using drain_ooo_rx [of S base D ?t] by auto
    moreover have "sk_state (drain_ooo ?t) = sk_state s" by (simp add: rx_advance_def)
    moreover have "s' = wake_epolls (wake_waiters (drain_ooo ?t))"
      using accept_in_order [OF inv 2 w] a by (simp add: Let_def)
    ultimately show ?thesis using 2 by simp
  next
    case 3
    obtain q where q: "s' = s \<lparr> sk_ooo := q \<rparr>"
      "q = (if ooo_used (sk_ooo s) + len \<le> TCP_MAX_RECV_BUF
          then ooo_or_insert (seq_at base p) (chunk_of S p len) (sk_ooo s) else sk_ooo s)"
      using accept_ahead [OF inv 3 len w(1)] a by (metis fst_conv)
    have e: "ooo_entry S base lo (length D + TCP_MAX_RECV_BUF) (seq_at base p, chunk_of S p len)" if "lo \<le> p" for lo
      unfolding ooo_entry_def using that len w(1) by blast
    have "length D \<le> p" using 3 by (simp add: rx_front_def)
    then have "rx_inv S base D s'"
      using inv e [of "length D"] e [of "Suc ?n"] 3 unfolding q
      by (auto simp: rx_inv_def rx_stream_def set_ooo_or_insert distinct_ooo_or_insert rx_front_def)
    with 3 q show ?thesis by simp
  qed
qed

section \<open>A connection receiving a stream\<close>

text \<open>
  The receiving side of an established connection, with \<open>D\<close> the bytes read so far: segments of the
  stream arrive in any order, overlapping, repeated, any number of times, and the application reads.
  A peer that respects the advertised window never sends beyond \<open>length D + TCP_MAX_RECV_BUF\<close>, and
  a segment that is still under way is at most \<open>2 ^ 31\<close> bytes old.
\<close>

inductive rx_step :: "(nat \<Rightarrow> u8) \<Rightarrow> u32 \<Rightarrow> bytes \<times> socket \<Rightarrow> bytes \<times> socket \<Rightarrow> bool"
  for S :: "nat \<Rightarrow> u8" and base :: u32 where
  segment_arrives:
    "\<not> has_flag flags TCP_RST \<Longrightarrow> \<not> has_flag flags TCP_FIN \<Longrightarrow>
     p + len \<le> length D + TCP_MAX_RECV_BUF \<Longrightarrow> rx_front D s \<le> p + 0x80000000 \<Longrightarrow>
     process_segment s (seq_at base p) ack flags (chunk_of S p len) = (s', reply) \<Longrightarrow>
     rx_step S base (D, s) (D, s')"
| application_reads:
    "stream_read n s = (SockData d, update, s') \<Longrightarrow> rx_step S base (D, s) (D @ d, s')"
| application_rereads:
    "stream_reread n s = (SockData d, update, s') \<Longrightarrow> rx_step S base (D, s) (D @ d, s')"

definition rx_start :: "u32 \<Rightarrow> bytes \<times> socket \<Rightarrow> bool" where
  "rx_start base c \<longleftrightarrow>
     (case c of (D, s) \<Rightarrow> D = [] \<and> sk_state s = Established \<and> sk_rcv_nxt s = base \<and> sk_recv_buf s = [] \<and> sk_ooo s = [])"

definition rx_conn_inv :: "(nat \<Rightarrow> u8) \<Rightarrow> u32 \<Rightarrow> bytes \<times> socket \<Rightarrow> bool" where
  "rx_conn_inv S base c \<longleftrightarrow> (case c of (D, s) \<Rightarrow> sk_state s = Established \<and> rx_inv S base D s)"

lemma process_established:
  assumes "sk_state s = Established" "\<not> has_flag flags TCP_RST" "\<not> has_flag flags TCP_FIN"
  shows "process_segment s seq ack flags payload =
     (let s1 = (if has_flag flags TCP_ACK then s \<lparr> sk_snd_una := ack \<rparr> else s)
      in note_window (if payload \<noteq> [] then accept_payload s1 seq payload else (s1, None)))"
  using assms by (auto simp: process_segment_def established_segment_def Let_def split: prod.splits)

lemma note_window_rx:
  "note_window (s, r) = (s', r') \<Longrightarrow> r' = r \<and> (\<exists>w. s' = s \<lparr> sk_rcv_wnd := w \<rparr>)"
proof (cases r)
  case None
  then show "note_window (s, r) = (s', r') \<Longrightarrow> ?thesis"
    by (auto simp: note_window_def intro: exI [of _ "sk_rcv_wnd s"])
qed (auto simp: note_window_def)

lemma chunk_of_Nil: "chunk_of S p len = [] \<longleftrightarrow> len = 0"
  by (auto simp: chunk_of_def)

lemma process_segment_rx:
  assumes est: "sk_state s = Established" and inv: "rx_inv S base D s"
    and fl: "\<not> has_flag flags TCP_RST" "\<not> has_flag flags TCP_FIN"
    and w: "p + len \<le> length D + TCP_MAX_RECV_BUF" "rx_front D s \<le> p + 0x80000000"
    and ps: "process_segment s (seq_at base p) ack flags (chunk_of S p len) = (s', reply)"
  shows "sk_state s' = Established \<and> rx_inv S base D s' \<and> rx_front D s \<le> rx_front D s' \<and>
         (p \<le> rx_front D s \<longrightarrow> p + len \<le> rx_front D s')"
proof -
  define s1 where "s1 = (if has_flag flags TCP_ACK then s \<lparr> sk_snd_una := ack \<rparr> else s)"
  have s1: "rx_inv S base D s1" "rx_front D s1 = rx_front D s" "sk_state s1 = Established"
    using est inv by (simp_all add: s1_def)
  obtain s2 r where a: "(if chunk_of S p len \<noteq> [] then accept_payload s1 (seq_at base p) (chunk_of S p len) else (s1, None)) = (s2, r)"
    by (meson surj_pair)
  have "sk_state s2 = Established \<and> rx_inv S base D s2 \<and> rx_front D s \<le> rx_front D s2 \<and>
         (p \<le> rx_front D s \<longrightarrow> p + len \<le> rx_front D s2)"
  proof (cases "len = 0")
    case False
    then have a': "accept_payload s1 (seq_at base p) (chunk_of S p len) = (s2, r)"
      using a by (simp add: chunk_of_Nil)
    show ?thesis
      using accept_payload_rx [OF s1(1) _ w(1) _ a'] False w(2) s1 by simp
  qed (use a s1 in \<open>auto simp: chunk_of_Nil\<close>)
  moreover have "note_window (s2, r) = (s', reply)"
    using ps a unfolding process_established [OF est fl] Let_def s1_def by simp
  ultimately show ?thesis using note_window_rx [of s2 r s' reply] by auto
qed

definition rx_read_only :: "bytes \<Rightarrow> socket \<Rightarrow> socket \<Rightarrow> bool" where
  "rx_read_only d s s' \<longleftrightarrow>
     sk_recv_buf s = d @ sk_recv_buf s' \<and> sk_state s' = sk_state s \<and> sk_rcv_nxt s' = sk_rcv_nxt s \<and> sk_ooo s' = sk_ooo s"

lemma rx_read_only_simps [simp]:
  "rx_read_only [] s s" "rx_read_only (take n (sk_recv_buf s)) s (s \<lparr> sk_recv_buf := drop n (sk_recv_buf s) \<rparr>)"
  "rx_read_only d s (s' \<lparr> sk_rcv_wnd := w \<rparr>) = rx_read_only d s s'"
  by (simp_all add: rx_read_only_def)

lemma stream_take_buf: "stream_take n s = (SockData d, u, s') \<Longrightarrow> rx_read_only d s s'"
  unfolding stream_take_def Let_def by (auto split: if_split_asm)

lemma stream_read_buf: "stream_read n s = (SockData d, u, s') \<Longrightarrow> rx_read_only d s s'"
  unfolding stream_read_def by (auto split: if_split_asm dest: stream_take_buf)

lemma stream_reread_buf: "stream_reread n s = (SockData d, u, s') \<Longrightarrow> rx_read_only d s s'"
  unfolding stream_reread_def by (auto split: if_split_asm dest: stream_take_buf)

lemma ooo_entry_mono:
  assumes "ooo_entry S base lo' hi e" "lo \<le> lo'" "hi \<le> hi'"
  shows "ooo_entry S base lo hi' e"
proof -
  obtain p len where "e = (seq_at base p, chunk_of S p len)" "0 < len" "lo' \<le> p" "p + len \<le> hi"
    using assms(1) unfolding ooo_entry_def by blast
  then show ?thesis
    unfolding ooo_entry_def using assms(2,3) by (intro exI [of _ p] exI [of _ len]) simp
qed

lemma rx_inv_read:
  assumes inv: "rx_inv S base D s"
    and r: "rx_read_only d s s'"
  shows "rx_inv S base (D @ d) s'"
proof -
  have b: "sk_recv_buf s = d @ sk_recv_buf s'" "sk_rcv_nxt s' = sk_rcv_nxt s" "sk_ooo s' = sk_ooo s"
    using r by (simp_all add: rx_read_only_def)
  have f: "rx_front (D @ d) s' = rx_front D s" using b(1) by (simp add: rx_front_def)
  have le: "length (D @ d) \<le> rx_front D s" using b(1) by (simp add: rx_front_def)
  have "ooo_entry S base lo (length (D @ d) + TCP_MAX_RECV_BUF) e"
    if "e \<in> set (sk_ooo s)" "lo \<le> Suc (rx_front D s)" for e lo
    by (rule ooo_entry_mono [of S base "Suc (rx_front D s)" "length D + TCP_MAX_RECV_BUF"])
      (use inv that in \<open>simp_all add: rx_inv_def\<close>)
  then have "\<forall>e \<in> set (sk_ooo s'). ooo_entry S base lo (length (D @ d) + TCP_MAX_RECV_BUF) e"
    if "lo \<le> Suc (rx_front D s)" for lo
    using that unfolding b(3) by blast
  moreover have "(D @ d) @ sk_recv_buf s' = chunk_of S 0 (rx_front D s)"
    using inv b(1) by (simp only: rx_inv_def rx_stream_def append_assoc)
  moreover have "length (sk_recv_buf s') \<le> TCP_MAX_RECV_BUF"
    using inv b(1) by (simp add: rx_inv_def rx_stream_def)
  ultimately show ?thesis
    using inv le unfolding rx_inv_def rx_stream_def f b(2,3) by simp
qed

interpretation tcp_rx: invariant_system "rx_start base" "rx_step S base" "rx_conn_inv S base"
  for S :: "nat \<Rightarrow> u8" and base :: u32
proof unfold_locales
  fix c assume "rx_start base c"
  then show "rx_conn_inv S base c"
    by (auto simp: rx_start_def rx_conn_inv_def rx_inv_def rx_stream_def rx_front_def chunk_of_def seq_at_def
        split: prod.splits)
next
  fix c c' assume inv: "rx_conn_inv S base c" and step: "rx_step S base c c'"
  from step inv show "rx_conn_inv S base c'"
  proof cases
    case (segment_arrives flags p len D s ack s' reply)
    then show ?thesis
      using inv process_segment_rx [of s S base D flags p len ack s' reply] by (simp add: rx_conn_inv_def)
  next
    case (application_reads n s d update s' D)
    then show ?thesis
      using inv stream_read_buf [of n s d update s'] rx_inv_read [of S base D s d s']
      by (simp add: rx_conn_inv_def rx_read_only_def)
  next
    case (application_rereads n s d update s' D)
    then show ?thesis
      using inv stream_reread_buf [of n s d update s'] rx_inv_read [of S base D s d s']
      by (simp add: rx_conn_inv_def rx_read_only_def)
  qed
qed

text \<open>
  C4. TCP delivers the peer's stream: on an established connection, whatever segments of the stream
  arrive within the window, in whatever order, overlapping or repeated, and however the application
  reads, the bytes read followed by the bytes buffered are a prefix of the stream, the next expected
  sequence number (modulo \<open>2 ^ 32\<close>, with no bound on the length of the stream) is that of the first
  missing byte, the buffer stays within its bound, and no queued segment contains that byte, so
  nothing deliverable is held back.
\<close>

theorem tcp_stream_reassembly:
  assumes "reach (rx_start base) (rx_step S base) (D, s)"
  shows "D @ sk_recv_buf s = map S [0..<length D + length (sk_recv_buf s)] \<and>
         sk_rcv_nxt s = base + of_nat (length D + length (sk_recv_buf s)) \<and>
         length (sk_recv_buf s) \<le> TCP_MAX_RECV_BUF \<and>
         (\<forall>e \<in> set (sk_ooo s). \<exists>p len. e = (base + of_nat p, map S [p..<p + len]) \<and>
            length D + length (sk_recv_buf s) < p \<and> p + len \<le> length D + TCP_MAX_RECV_BUF)"
proof -
  have "rx_inv S base D s" using tcp_rx.reach_inv [OF assms] by (simp add: rx_conn_inv_def)
  then show ?thesis
    unfolding rx_inv_def rx_stream_def rx_front_def ooo_entry_def chunk_of_def seq_at_def
    by (simp add: Suc_le_eq) blast
qed

text \<open>A two-byte segment whose sequence numbers wrap around arrives on a fresh connection.\<close>

definition example_stream :: "nat \<Rightarrow> u8" where
  "example_stream p = of_nat (p + 65)"

definition example_conn :: socket where
  "example_conn = (socket_new 2 1 0) \<lparr> sk_state := Established, sk_rcv_nxt := 0xFFFFFFFF \<rparr>"

lemma example_conn_start: "rx_start 0xFFFFFFFF ([], example_conn)"
  by (simp add: rx_start_def example_conn_def socket_new_def)

lemma example_flags: "\<not> has_flag TCP_ACK TCP_RST" "\<not> has_flag TCP_ACK TCP_FIN"
  by (simp_all add: has_flag_def TCP_RST_def TCP_FIN_def TCP_ACK_def)

lemma example_segment:
  obtains s reply where "process_segment example_conn (seq_at 0xFFFFFFFF 0) 0 TCP_ACK (chunk_of example_stream 0 2) = (s, reply)"
    "reach (rx_start 0xFFFFFFFF) (rx_step example_stream 0xFFFFFFFF) ([], s)" "2 \<le> length (sk_recv_buf s)"
proof -
  obtain s reply where s: "process_segment example_conn (seq_at 0xFFFFFFFF 0) 0 TCP_ACK (chunk_of example_stream 0 2) = (s, reply)"
    by (meson surj_pair)
  have z: "0 + 2 \<le> length ([] :: bytes) + TCP_MAX_RECV_BUF" "rx_front [] example_conn \<le> 0 + 0x80000000"
    by (simp_all add: TCP_MAX_RECV_BUF_def rx_front_def example_conn_def socket_new_def)
  have "rx_conn_inv example_stream 0xFFFFFFFF ([], example_conn)"
    by (rule tcp_rx.init_inv [OF example_conn_start])
  then have "2 \<le> length (sk_recv_buf s)"
    using process_segment_rx [OF _ _ example_flags z s] by (simp add: rx_conn_inv_def rx_front_def)
  moreover have "rx_step example_stream 0xFFFFFFFF ([], example_conn) ([], s)"
    by (rule segment_arrives [OF example_flags z s])
  ultimately show ?thesis
    by (intro that [OF s] reach_step [OF reach_init [of "rx_start 0xFFFFFFFF", OF example_conn_start]])
qed

theorem tcp_stream_reassembly_witness:
  "\<exists>s. reach (rx_start 0xFFFFFFFF) (rx_step example_stream 0xFFFFFFFF) ([], s) \<and> take 2 (sk_recv_buf s) = [65, 66]"
proof -
  obtain s where s: "reach (rx_start 0xFFFFFFFF) (rx_step example_stream 0xFFFFFFFF) ([], s)" "2 \<le> length (sk_recv_buf s)"
    by (rule example_segment)
  define n where "n = length (sk_recv_buf s)"
  have n: "2 \<le> n" "sk_recv_buf s = map example_stream [0..<n]"
    unfolding n_def by (rule s(2), rule conjunct1 [OF tcp_stream_reassembly [OF s(1)], unfolded append_Nil list.size add_0])
  have "[0..<n] = 0 # 1 # [2..<n]" using n(1) by (simp add: upt_conv_Cons numeral_2_eq_2)
  then have "take 2 (sk_recv_buf s) = [65, 66]" using n(2) by (simp add: example_stream_def)
  with s(1) show ?thesis by blast
qed

section \<open>Completeness in any order of arrival\<close>

text \<open>Segments, given by position and length, arriving one after the other.\<close>

definition deliver :: "(nat \<Rightarrow> u8) \<Rightarrow> u32 \<Rightarrow> u32 \<Rightarrow> (nat \<times> nat) list \<Rightarrow> socket \<Rightarrow> socket" where
  "deliver S base ack segs s =
     foldl (\<lambda>s (p, len). fst (process_segment s (seq_at base p) ack TCP_ACK (chunk_of S p len))) s segs"

lemma ooo_used_filter: "ooo_used (filter P q) \<le> ooo_used q"
  by (induction q) (auto simp: ooo_used_def)

lemma ooo_used_insert: "ooo_used (ooo_or_insert k v q) \<le> ooo_used q + length v"
proof -
  have "ooo_used (insort_key fst (k, v) q) = ooo_used q + length v"
    by (induction q) (auto simp: ooo_used_def)
  then show ?thesis by (simp add: ooo_or_insert_def)
qed

lemma drain_ooo_shrinks: "ooo_used (sk_ooo (drain_ooo s)) \<le> ooo_used (sk_ooo s) \<and> set (sk_ooo (drain_ooo s)) \<subseteq> set (sk_ooo s)"
  by (rule drain_ooo_invariant [where P = "\<lambda>t. ooo_used (sk_ooo t) \<le> ooo_used (sk_ooo s) \<and> set (sk_ooo t) \<subseteq> set (sk_ooo s)"])
    (auto simp: ooo_remove_def intro: order_trans [OF ooo_used_filter])

text \<open>What was handed over: every segment is behind the front or still queued, and the queue holds nothing else.\<close>

definition handed_over :: "(nat \<Rightarrow> u8) \<Rightarrow> u32 \<Rightarrow> (nat \<times> nat) list \<Rightarrow> socket \<Rightarrow> bool" where
  "handed_over S base segs s \<longleftrightarrow>
     sk_state s = Established \<and> rx_inv S base [] s \<and>
     ooo_used (sk_ooo s) \<le> sum_list (map snd segs) \<and>
     set (sk_ooo s) \<subseteq> (\<lambda>(p, len). (seq_at base p, chunk_of S p len)) ` set segs \<and>
     (\<forall>(p, len) \<in> set segs. p + len \<le> rx_front [] s \<or> (seq_at base p, chunk_of S p len) \<in> set (sk_ooo s))"

lemma rx_front_bound: "rx_inv S base D s \<Longrightarrow> rx_front D s \<le> length D + TCP_MAX_RECV_BUF"
  by (simp add: rx_inv_def rx_stream_def rx_front_def)

lemma accept_hand_over:
  assumes h: "handed_over S base segs s" and new: "p \<notin> fst ` set segs"
    and segs: "\<forall>(p, len) \<in> set ((p, len) # segs). 0 < len \<and> p + len \<le> TCP_MAX_RECV_BUF"
    and room: "sum_list (map snd segs) + len \<le> TCP_MAX_RECV_BUF"
    and a: "accept_payload s (seq_at base p) (chunk_of S p len) = (s', r)"
  shows "handed_over S base ((p, len) # segs) s'"
proof -
  let ?e = "\<lambda>(p, len). (seq_at base p, chunk_of S p len)"
  have est: "sk_state s = Established" and inv: "rx_inv S base [] s" and used: "ooo_used (sk_ooo s) \<le> sum_list (map snd segs)"
    and sub: "set (sk_ooo s) \<subseteq> ?e ` set segs"
    and cov: "\<And>p len. (p, len) \<in> set segs \<Longrightarrow> p + len \<le> rx_front [] s \<or> ?e (p, len) \<in> set (sk_ooo s)"
    using h unfolding handed_over_def by auto
  have len: "0 < len" "p + len \<le> length ([] :: bytes) + TCP_MAX_RECV_BUF" using segs by auto
  have sg: "0 < len' \<and> p' + len' \<le> TCP_MAX_RECV_BUF" if "(p', len') \<in> set segs" for p' len'
    using segs that by auto
  have w: "rx_front [] s \<le> p + 0x80000000"
    using rx_front_bound [OF inv] by (simp add: TCP_MAX_RECV_BUF_def)
  note rx = accept_payload_rx [OF inv len w a]
  consider (old) "p + len \<le> rx_front [] s" | (now) "p \<le> rx_front [] s" "rx_front [] s < p + len" | (ahead) "rx_front [] s < p"
    by linarith
  then show ?thesis
  proof cases
    case old
    then have "s' = s" using accept_old [OF inv old len(1) w] a by simp
    then show ?thesis using h old by (auto simp: handed_over_def)
  next
    case now
    let ?t = "rx_advance S base [] (p + len) s"
    have t: "rx_stream S base [] ?t" "sk_ooo ?t = sk_ooo s"
      using inv now len(2) by (auto simp: rx_inv_def rx_advance_def intro!: rx_stream_advance [unfolded rx_advance_def])
    have s': "s' = wake_epolls (wake_waiters (drain_ooo ?t))"
      using accept_in_order [OF inv now len(2) w] a by (simp add: Let_def)
    have keep: "p' + len' \<le> rx_front [] s' \<or> ?e (p', len') \<in> set (sk_ooo s')"
      if "?e (p', len') \<in> set (sk_ooo s)" "(p', len') \<in> set segs" for p' len'
      using drain_ooo_rx [OF t(1)] that sg [of p' len'] unfolding s' rx_other_fields t(2) by auto
    have "p' + len' \<le> rx_front [] s' \<or> ?e (p', len') \<in> set (sk_ooo s')" if "(p', len') \<in> set ((p, len) # segs)" for p' len'
      using that cov [of p' len'] keep [of p' len'] rx now by auto
    moreover have "ooo_used (sk_ooo s') \<le> sum_list (map snd segs)" "set (sk_ooo s') \<subseteq> ?e ` set segs"
      using drain_ooo_shrinks [of ?t] used sub by (auto simp: s' t(2))
    ultimately show ?thesis using rx est unfolding handed_over_def by auto
  next
    case ahead
    have "ooo_used (sk_ooo s) + len \<le> TCP_MAX_RECV_BUF" using used room by simp
    then obtain q where q: "s' = s \<lparr> sk_ooo := q \<rparr>" "q = ooo_or_insert (seq_at base p) (chunk_of S p len) (sk_ooo s)"
      using a by - (rule accept_ahead [OF inv ahead len], simp)
    have "seq_at base p \<notin> fst ` set (sk_ooo s)"
    proof
      assume "seq_at base p \<in> fst ` set (sk_ooo s)"
      then obtain p' len' where p': "(p', len') \<in> set segs" "seq_at base p = seq_at base p'" using sub by auto
      have "p' + len' \<le> TCP_MAX_RECV_BUF" using sg p'(1) by blast
      then have "p = p'"
        using p'(2) len(2) seq_compare(2) [of p p' base] by (simp add: TCP_MAX_RECV_BUF_def)
      then show False using new p'(1) by force
    qed
    then have set: "set q = insert (?e (p, len)) (set (sk_ooo s))" by (simp add: q(2) set_ooo_or_insert)
    have "ooo_used q \<le> sum_list (map snd segs) + len"
      using ooo_used_insert [of "seq_at base p" "chunk_of S p len" "sk_ooo s"] used by (simp add: q(2))
    moreover have "p' + len' \<le> rx_front [] s' \<or> ?e (p', len') \<in> set (sk_ooo s')" if "(p', len') \<in> set ((p, len) # segs)" for p' len'
      using that cov [of p' len'] by (auto simp: q(1) set)
    ultimately show ?thesis using rx est sub unfolding handed_over_def by (auto simp: q(1) set)
  qed
qed

lemma handed_over_other [simp]:
  "handed_over S base segs (s \<lparr> sk_rcv_wnd := w \<rparr>) = handed_over S base segs s"
  "handed_over S base segs (s \<lparr> sk_snd_una := a \<rparr>) = handed_over S base segs s"
  by (simp_all add: handed_over_def)

lemma process_hand_over:
  assumes h: "handed_over S base segs s" and new: "p \<notin> fst ` set segs"
    and segs: "\<forall>(p, len) \<in> set ((p, len) # segs). 0 < len \<and> p + len \<le> TCP_MAX_RECV_BUF"
    and room: "sum_list (map snd segs) + len \<le> TCP_MAX_RECV_BUF"
  shows "handed_over S base ((p, len) # segs) (fst (process_segment s (seq_at base p) ack TCP_ACK (chunk_of S p len)))"
proof -
  have est: "sk_state s = Established" using h by (simp add: handed_over_def)
  have ne: "chunk_of S p len \<noteq> []" using segs by (simp add: chunk_of_Nil)
  define s1 where "s1 = (if has_flag TCP_ACK TCP_ACK then s \<lparr> sk_snd_una := ack \<rparr> else s)"
  have h1: "handed_over S base segs s1" using h by (simp add: s1_def)
  obtain s2 r where a: "accept_payload s1 (seq_at base p) (chunk_of S p len) = (s2, r)" by (meson surj_pair)
  obtain s' r' where n: "note_window (s2, r) = (s', r')" by (meson surj_pair)
  have "process_segment s (seq_at base p) ack TCP_ACK (chunk_of S p len) = (s', r')"
    unfolding process_established [OF est example_flags] Let_def s1_def [symmetric] using ne a n by simp
  moreover have "handed_over S base ((p, len) # segs) s2" by (rule accept_hand_over [OF h1 new segs room a])
  ultimately show ?thesis using note_window_rx [OF n] by auto
qed

lemma deliver_hand_over:
  assumes "rx_start base ([], s)" "distinct (map fst segs)"
    and "\<forall>(p, len) \<in> set segs. 0 < len \<and> p + len \<le> TCP_MAX_RECV_BUF"
    and "sum_list (map snd segs) \<le> TCP_MAX_RECV_BUF"
  shows "handed_over S base (rev segs) (deliver S base ack segs s)"
  using assms(2-)
proof (induction segs rule: rev_induct)
  case Nil
  have "rx_conn_inv S base ([], s)" by (rule tcp_rx.init_inv [OF assms(1)])
  then show ?case
    using assms(1) by (simp add: handed_over_def deliver_def rx_start_def rx_conn_inv_def ooo_used_def)
next
  case (snoc x segs)
  obtain p len where x: "x = (p, len)" by (cases x)
  have "handed_over S base (rev segs) (deliver S base ack segs s)"
    using snoc.IH snoc.prems by (simp add: x)
  then have "handed_over S base ((p, len) # rev segs)
      (fst (process_segment (deliver S base ack segs s) (seq_at base p) ack TCP_ACK (chunk_of S p len)))"
    using snoc.prems by (intro process_hand_over) (auto simp: x rev_map [symmetric] sum_list_rev)
  then show ?case by (simp add: x deliver_def)
qed

text \<open>Once the segments cover a prefix of the stream, the front is beyond it.\<close>

lemma covered_front:
  assumes h: "handed_over S base segs s" and n: "n \<le> TCP_MAX_RECV_BUF"
    and segs: "\<forall>(p, len) \<in> set segs. 0 < len \<and> p + len \<le> TCP_MAX_RECV_BUF"
    and cover: "\<forall>x < n. \<exists>(p, len) \<in> set segs. p \<le> x \<and> x < p + len"
  shows "n \<le> rx_front [] s"
proof (rule ccontr)
  let ?x = "rx_front [] s"
  assume "\<not> n \<le> ?x"
  then obtain p len where p: "(p, len) \<in> set segs" "p \<le> ?x" "?x < p + len"
    using cover by (auto simp: not_le)
  have "(seq_at base p, chunk_of S p len) \<in> set (sk_ooo s)"
    using h p unfolding handed_over_def by fastforce
  then obtain p' len' where e: "seq_at base p = seq_at base p'" "Suc ?x \<le> p'" "p' + len' \<le> TCP_MAX_RECV_BUF"
    using h unfolding handed_over_def rx_inv_def ooo_entry_def by fastforce
  have "p + len \<le> TCP_MAX_RECV_BUF" using segs p(1) by blast
  then have "p = p'" using e seq_compare(2) [of p p' base] by (simp add: TCP_MAX_RECV_BUF_def)
  then show False using e(2) p(2) by simp
qed

text \<open>
  C16. Every order of arrival completes the stream: when segments with distinct positions that
  together fit the receive buffer cover the first \<open>n\<close> bytes, then after all of them have arrived, in
  any order, the first \<open>n\<close> bytes of the stream are in the receive buffer, without any retransmission.
\<close>

theorem tcp_any_order_complete:
  assumes "rx_start base ([], s)" and "distinct (map fst segs)"
    and "\<forall>(p, len) \<in> set segs. 0 < len \<and> p + len \<le> TCP_MAX_RECV_BUF"
    and "sum_list (map snd segs) \<le> TCP_MAX_RECV_BUF"
    and "\<forall>x < n. \<exists>(p, len) \<in> set segs. p \<le> x \<and> x < p + len" and "n \<le> TCP_MAX_RECV_BUF"
  shows "take n (sk_recv_buf (deliver S base ack segs s)) = map S [0..<n]"
proof -
  let ?s = "deliver S base ack segs s"
  have h: "handed_over S base (rev segs) ?s" by (rule deliver_hand_over [OF assms(1-4)])
  have "n \<le> rx_front [] ?s" using assms(3,5,6) by (intro covered_front [OF h]) simp_all
  moreover have "sk_recv_buf ?s = chunk_of S 0 (rx_front [] ?s)"
    using h by (simp add: handed_over_def rx_inv_def rx_stream_def)
  ultimately show ?thesis by (simp add: take_chunk_of) (simp add: chunk_of_def)
qed

theorem tcp_any_order_complete_witness:
  "rx_start 0xFFFFFFFF ([], example_conn) \<and>
   take 6 (sk_recv_buf (deliver example_stream 0xFFFFFFFF 0 [(3, 3), (1, 2), (0, 1)] example_conn)) =
     [65, 66, 67, 68, 69, 70]"
proof -
  have c: "\<forall>x < 6. \<exists>(p, len) \<in> set [(3, 3), (1, 2), (0, 1)]. p \<le> x \<and> x < p + (len :: nat)"
    by (auto simp: less_Suc_eq numeral_eq_Suc)
  have "take 6 (sk_recv_buf (deliver example_stream 0xFFFFFFFF 0 [(3, 3), (1, 2), (0, 1)] example_conn)) = map example_stream [0..<6]"
    by (rule tcp_any_order_complete [OF example_conn_start _ _ _ c]) (simp_all add: TCP_MAX_RECV_BUF_def)
  also have "[0..<6] = [0, 1, 2, 3, 4, 5 :: nat]" by code_simp
  also have "map example_stream \<dots> = [65, 66, 67, 68, 69, 70]" by (simp add: example_stream_def)
  finally show ?thesis using example_conn_start by blast
qed

section \<open>Memory bounds against any peer\<close>

text \<open>Anything the network or the application may do to a stream socket once it exists.\<close>

datatype rx_event = Segment u32 u32 u16 bytes | Read nat | Reread nat

fun tcp_event :: "socket \<Rightarrow> rx_event \<Rightarrow> socket" where
  "tcp_event s (Segment seq ack flags payload) = fst (process_segment s seq ack flags payload)"
| "tcp_event s (Read n) = snd (snd (stream_read n s))"
| "tcp_event s (Reread n) = snd (snd (stream_reread n s))"

text \<open>Bounded buffers, and an out-of-order queue that is an ordered map.\<close>

definition tcp_mem_ok :: "socket \<Rightarrow> bool" where
  "tcp_mem_ok s \<longleftrightarrow>
     length (sk_recv_buf s) \<le> TCP_MAX_RECV_BUF \<and> ooo_used (sk_ooo s) \<le> TCP_MAX_RECV_BUF \<and>
     sorted (map fst (sk_ooo s)) \<and> distinct (map fst (sk_ooo s))"

lemma tcp_mem_ok_filter: "tcp_mem_ok s \<Longrightarrow> tcp_mem_ok (s \<lparr> sk_ooo := filter P (sk_ooo s) \<rparr>)"
  using ooo_used_filter [of P "sk_ooo s"]
  by (auto simp: tcp_mem_ok_def sorted_filter distinct_map_filter)

lemma tcp_mem_ok_fields:
  "sk_recv_buf s' = sk_recv_buf s \<Longrightarrow> sk_ooo s' = sk_ooo s \<Longrightarrow> tcp_mem_ok s' = tcp_mem_ok s"
  by (simp add: tcp_mem_ok_def)

lemma tcp_mem_ok_drain: "tcp_mem_ok s \<Longrightarrow> tcp_mem_ok (drain_ooo s)"
proof (rule drain_ooo_invariant [where P = tcp_mem_ok])
  fix s k x and c :: bytes
  assume "tcp_mem_ok s" "length (sk_recv_buf s) + length c \<le> TCP_MAX_RECV_BUF"
  then show "tcp_mem_ok (s \<lparr> sk_ooo := ooo_remove k (sk_ooo s), sk_recv_buf := sk_recv_buf s @ c, sk_rcv_nxt := x \<rparr>)"
    using tcp_mem_ok_filter [of s "\<lambda>e. fst e \<noteq> k"] by (simp add: tcp_mem_ok_def ooo_remove_def)
qed (simp_all add: tcp_mem_ok_filter)

lemma tcp_mem_ok_insert:
  assumes "tcp_mem_ok s" "ooo_used (sk_ooo s) + length v \<le> TCP_MAX_RECV_BUF"
  shows "tcp_mem_ok (s \<lparr> sk_ooo := ooo_or_insert k v (sk_ooo s) \<rparr>)"
proof -
  have "sorted (map fst (ooo_or_insert k v (sk_ooo s)))"
    using assms(1) by (simp add: ooo_or_insert_def tcp_mem_ok_def sorted_insort_key)
  then show ?thesis
    using assms ooo_used_insert [of k v "sk_ooo s"] distinct_ooo_or_insert [of "sk_ooo s" k v]
    by (simp add: tcp_mem_ok_def)
qed

lemma tcp_mem_ok_wake [simp]:
  "tcp_mem_ok (wake_waiters s) = tcp_mem_ok s" "tcp_mem_ok (wake_epolls s) = tcp_mem_ok s"
  "tcp_mem_ok (s \<lparr> sk_state := st \<rparr>) = tcp_mem_ok s" "tcp_mem_ok (s \<lparr> sk_rcv_nxt := n \<rparr>) = tcp_mem_ok s"
  "tcp_mem_ok (s \<lparr> sk_snd_una := n \<rparr>) = tcp_mem_ok s" "tcp_mem_ok (s \<lparr> sk_so_error := e \<rparr>) = tcp_mem_ok s"
  "tcp_mem_ok (s \<lparr> sk_rcv_wnd := w \<rparr>) = tcp_mem_ok s"
  by (simp_all add: tcp_mem_ok_def wake_waiters_def wake_epolls_def)

lemma tcp_mem_ok_accept:
  assumes "tcp_mem_ok s"
  shows "tcp_mem_ok (fst (accept_payload s seq payload))"
proof -
  obtain eseq epay where e: "effective_segment (sk_rcv_nxt s) seq payload = (eseq, epay)" by (meson surj_pair)
  have "tcp_mem_ok (drain_ooo (s \<lparr> sk_recv_buf := sk_recv_buf s @ epay, sk_rcv_nxt := n \<rparr>))"
    if "length (sk_recv_buf s) + length epay \<le> TCP_MAX_RECV_BUF" for n
    using assms that by (intro tcp_mem_ok_drain) (simp add: tcp_mem_ok_def)
  then show ?thesis
    using assms tcp_mem_ok_insert [OF assms, of epay eseq] by (simp add: accept_payload_def e Let_def)
qed

lemma tcp_mem_ok_note_window: "tcp_mem_ok (fst (note_window r)) = tcp_mem_ok (fst r)"
  by (auto simp: note_window_def split: prod.splits option.splits)

lemma tcp_mem_ok_established:
  assumes "tcp_mem_ok s"
  shows "case established_segment s seq ack flags payload of Inl s1 \<Rightarrow> tcp_mem_ok s1 | Inr r \<Rightarrow> tcp_mem_ok (fst r)"
proof -
  define s1 where "s1 = (if has_flag flags TCP_ACK then s \<lparr> sk_snd_una := ack \<rparr> else s)"
  have "tcp_mem_ok s1" using assms by (simp add: s1_def)
  then have "tcp_mem_ok (fst (if payload \<noteq> [] then accept_payload s1 seq payload else (s1, None)))"
    by (simp add: tcp_mem_ok_accept)
  then show ?thesis
    using assms unfolding established_segment_def Let_def s1_def [symmetric]
    by (cases "if payload \<noteq> [] then accept_payload s1 seq payload else (s1, None)") simp
qed

lemma tcp_mem_ok_segment:
  assumes "tcp_mem_ok s"
  shows "tcp_mem_ok (fst (process_segment s seq ack flags payload))"
proof (cases "sk_state s")
  case Established
  then show ?thesis
    using tcp_mem_ok_established [OF assms, of seq ack flags payload]
    by (cases "established_segment s seq ack flags payload")
      (simp_all add: process_segment_def tcp_mem_ok_note_window)
next
  case SynSent
  then show ?thesis
    using assms by (simp add: process_segment_def syn_sent_segment_def tcp_mem_ok_note_window Let_def)
next
  case FinWait1
  then show ?thesis
    using assms by (simp add: process_segment_def fin_wait1_segment_def tcp_mem_ok_note_window Let_def)
next
  case FinWait2
  then show ?thesis
    using assms by (simp add: process_segment_def fin_wait2_segment_def tcp_mem_ok_note_window Let_def)
qed (use assms in \<open>simp_all add: process_segment_def\<close>)

lemma tcp_mem_ok_take: "tcp_mem_ok s \<Longrightarrow> tcp_mem_ok (snd (snd (stream_take n s)))"
proof -
  assume "tcp_mem_ok s"
  then have "tcp_mem_ok (s \<lparr> sk_recv_buf := drop k (sk_recv_buf s) \<rparr>)" for k by (simp add: tcp_mem_ok_def le_diff_conv)
  with \<open>tcp_mem_ok s\<close> show ?thesis by (simp add: stream_take_def Let_def)
qed

lemma tcp_mem_ok_event: "tcp_mem_ok s \<Longrightarrow> tcp_mem_ok (tcp_event s e)"
  by (cases e) (simp_all add: tcp_mem_ok_segment tcp_mem_ok_take stream_read_def stream_reread_def)

text \<open>
  C31. No peer makes the kernel buffer without bound: starting from a new socket in any protocol
  state, whatever segments arrive (any sequence numbers, flags and payloads, in or out of the window)
  and however the application reads, the receive buffer and the out-of-order queue each hold at most
  \<open>TCP_MAX_RECV_BUF\<close> bytes, and the queue stays an ordered map without duplicate keys.
\<close>

theorem tcp_buffers_bounded:
  "let s = foldl tcp_event ((socket_new d t p) \<lparr> sk_state := st, sk_rcv_nxt := n, sk_snd_nxt := m \<rparr>) evs
   in length (sk_recv_buf s) \<le> TCP_MAX_RECV_BUF \<and> ooo_used (sk_ooo s) \<le> TCP_MAX_RECV_BUF \<and>
      sorted (map fst (sk_ooo s)) \<and> distinct (map fst (sk_ooo s))"
proof -
  have "tcp_mem_ok (foldl tcp_event s evs)" if "tcp_mem_ok s" for s
    using that by (induction evs arbitrary: s) (simp_all add: tcp_mem_ok_event)
  from this [of "(socket_new d t p) \<lparr> sk_state := st, sk_rcv_nxt := n, sk_snd_nxt := m \<rparr>"]
  show ?thesis unfolding Let_def tcp_mem_ok_def [symmetric] by (simp add: tcp_mem_ok_def socket_new_def ooo_used_def)
qed

section \<open>A close that overtakes data\<close>

text \<open>
  C33. The established state accepts a FIN at any sequence number: when one arrives ahead of bytes that
  are still missing, the connection moves to \<open>CloseWait\<close>, the missing bytes are ignored when they
  arrive later, and a reader that has drained the buffer is told end of file.
\<close>

theorem tcp_fin_skips_missing:
  assumes "sk_state s = Established" "has_flag flags TCP_FIN" "\<not> has_flag flags TCP_RST" "sk_recv_buf s = []"
  shows "\<exists>s' r. process_segment s (sk_rcv_nxt s + of_nat k) ack flags [] = (s', r) \<and> sk_state s' = CloseWait \<and>
           process_segment s' (sk_rcv_nxt s) ack' flags' payload = (s', None) \<and>
           stream_read len s' = (SockData [], None, s')"
  using assms
  by (auto simp: process_segment_def established_segment_def note_window_def ack_reply_def stream_read_def
      wake_waiters_def wake_epolls_def Let_def)

theorem tcp_fin_skips_missing_witness:
  "\<exists>s' r. process_segment example_conn (sk_rcv_nxt example_conn + of_nat 5) 0 TCP_FIN [] = (s', r) \<and> sk_state s' = CloseWait \<and>
     process_segment s' (sk_rcv_nxt example_conn) 0 TCP_ACK [1, 2, 3, 4, 5] = (s', None) \<and>
     stream_read 8 s' = (SockData [], None, s')"
  by (rule tcp_fin_skips_missing)
    (simp_all add: example_conn_def socket_new_def has_flag_def TCP_FIN_def TCP_RST_def)

end
