(* ===== verification/Net_Stack.thy ===== *)
theory Net_Stack
  imports Net_Route Tcp "HOL-Library.Monad_Syntax"
begin

text \<open>
  The protocol stack of \<open>net/\<close> put together: the socket registry, the packet handlers of every layer
  from Ethernet frames to sockets, \<open>send_packet\<close> with routing, ARP resolution and the loopback path,
  and the state after \<open>interface::init\<close>. On the loopback
  path a send runs the receiver's handler before it returns; the handlers take the send function as an
  argument and the recursion is tied with a bound on its depth.
\<close>

section \<open>The state of the stack\<close>

text \<open>
  Sockets are shared objects (\<open>Arc<Mutex<Socket>>\<close>): a store of all sockets ever created, indexed by
  identity, and the registry as a list of identities. \<open>net_env\<close> is what the driver and the timer show to the ARP wait loop, one
  entry per iteration: the tick count at the loop condition, the frames the driver hands up, and the
  tick count after them; past its end the deadline has passed. \<open>net_tx\<close> collects the frames given to
  the driver.
\<close>

record net_state =
  net_sockets :: "socket list"
  net_registry :: "nat list"
  net_ifaces :: "network_interface list option"
  net_routes :: "route_entry list option"
  net_arp :: "(u32 \<rightharpoonup> arp_entry) option"
  net_ident :: u16
  net_port :: u16
  net_ticks :: u64
  net_env :: "(u64 \<times> bytes list \<times> u64) list"
  net_tx :: "bytes list"
  net_epolls :: nat

type_synonym net_send = "ipv4_addr \<Rightarrow> ipv4_addr \<Rightarrow> u8 \<Rightarrow> bytes \<Rightarrow> net_state \<Rightarrow> ((string + unit) \<times> net_state) option"

definition get_socket :: "net_state \<Rightarrow> nat \<Rightarrow> socket option" where
  "get_socket net i = (if i < length (net_sockets net) then Some (net_sockets net ! i) else None)"

definition set_socket :: "nat \<Rightarrow> socket \<Rightarrow> net_state \<Rightarrow> net_state" where
  "set_socket i s net = net \<lparr> net_sockets := (net_sockets net)[i := s] \<rparr>"

definition new_socket :: "socket \<Rightarrow> net_state \<Rightarrow> nat \<times> net_state" where
  "new_socket s net = (length (net_sockets net), net \<lparr> net_sockets := net_sockets net @ [s] \<rparr>)"

definition upd_socket :: "nat \<Rightarrow> (socket \<Rightarrow> socket) \<Rightarrow> net_state \<Rightarrow> net_state" where
  "upd_socket i f net =
     (case get_socket net i of Some s \<Rightarrow> set_socket i (f s) net | None \<Rightarrow> net)"

definition wake_all_epolls :: "net_state \<Rightarrow> net_state" where
  "wake_all_epolls net = net \<lparr> net_epolls := net_epolls net + 1 \<rparr>"

definition transmit :: "bytes \<Rightarrow> net_state \<Rightarrow> net_state" where
  "transmit frame net = net \<lparr> net_tx := net_tx net @ [frame] \<rparr>"

section \<open>The socket registry\<close>

definition register_socket :: "nat \<Rightarrow> net_state \<Rightarrow> net_state" where
  "register_socket i net = net \<lparr> net_registry := net_registry net @ [i] \<rparr>"

text \<open>The loops over the registry: the first socket with a property.\<close>

definition find_socket :: "(socket \<Rightarrow> bool) \<Rightarrow> net_state \<Rightarrow> nat option" where
  "find_socket P net =
     List.find (\<lambda>i. case get_socket net i of Some s \<Rightarrow> P s | None \<Rightarrow> False) (net_registry net)"

definition bound_to :: "ipv4_addr \<Rightarrow> u16 \<Rightarrow> socket \<Rightarrow> bool" where
  "bound_to ip port s \<longleftrightarrow>
     sk_local_port s = Some port \<and>
     (sk_local_addr s = Some ip \<or> sk_local_addr s = Some UNSPECIFIED \<or> sk_local_addr s = None)"

definition find_udp_socket :: "ipv4_addr \<Rightarrow> u16 \<Rightarrow> net_state \<Rightarrow> nat option" where
  "find_udp_socket ip port = find_socket (\<lambda>s. sk_type s = 2 \<and> bound_to ip port s)"

definition find_tcp_listener :: "ipv4_addr \<Rightarrow> u16 \<Rightarrow> net_state \<Rightarrow> nat option" where
  "find_tcp_listener ip port = find_socket (\<lambda>s. sk_type s = 1 \<and> sk_state s = Listen \<and> bound_to ip port s)"

definition find_tcp_connection :: "ipv4_addr \<Rightarrow> u16 \<Rightarrow> ipv4_addr \<Rightarrow> u16 \<Rightarrow> net_state \<Rightarrow> nat option" where
  "find_tcp_connection ip port rip rport =
     find_socket (\<lambda>s. sk_type s = 1 \<and> bound_to ip port s \<and> sk_remote_port s = Some rport \<and> sk_remote_addr s = Some rip)"

text \<open>\<open>Drop\<close> of a socket inode: the socket is closed and leaves the registry.\<close>

definition drop_socket :: "nat \<Rightarrow> net_state \<Rightarrow> net_state" where
  "drop_socket i net =
     (upd_socket i (\<lambda>s. s \<lparr> sk_state := Closed \<rparr>) net) \<lparr> net_registry := filter (\<lambda>j. j \<noteq> i) (net_registry net) \<rparr>"

section \<open>Receiving datagrams\<close>

definition udp_handle_packet :: "ipv4_addr \<Rightarrow> ipv4_addr \<Rightarrow> bytes \<Rightarrow> net_state \<Rightarrow> net_state" where
  "udp_handle_packet src_ip dst_ip payload net =
     (case udp_parse payload of
        None \<Rightarrow> net
      | Some (header, udp_payload) \<Rightarrow>
          (case find_udp_socket dst_ip (udp_dst_port_host header) net of
             None \<Rightarrow> net
           | Some i \<Rightarrow>
               upd_socket i (\<lambda>s.
                 if length (sk_udp_recv_queue s) < 128 then
                   wake_waiters (s \<lparr> sk_udp_recv_queue := sk_udp_recv_queue s @
                     [\<lparr> dg_src_addr = src_ip, dg_src_port = udp_src_port_host header, dg_data = udp_payload \<rparr>] \<rparr>)
                 else s) net))"

text \<open>The copy of an ICMP packet to every raw socket of the registry.\<close>

definition icmp_deliver :: "ipv4_addr \<Rightarrow> bytes \<Rightarrow> socket \<Rightarrow> socket" where
  "icmp_deliver src_ip payload s =
     (if (sk_type s = 3 \<or> sk_protocol s = 1) \<and> length (sk_udp_recv_queue s) < 128 then
        wake_waiters (s \<lparr> sk_udp_recv_queue := sk_udp_recv_queue s @
          [\<lparr> dg_src_addr = src_ip, dg_src_port = 0, dg_data = payload \<rparr>] \<rparr>)
      else s)"

definition icmp_forward :: "ipv4_addr \<Rightarrow> bytes \<Rightarrow> net_state \<Rightarrow> net_state" where
  "icmp_forward src_ip payload net = fold (\<lambda>i. upd_socket i (icmp_deliver src_ip payload)) (net_registry net) net"

definition send_echo_reply ::
  "net_send \<Rightarrow> ipv4_addr \<Rightarrow> ipv4_addr \<Rightarrow> icmp_echo \<Rightarrow> bytes \<Rightarrow> net_state \<Rightarrow> net_state option" where
  "send_echo_reply send local_ip src_ip echo echo_data net =
     (case build_echo_reply (replicate 1500 0) (identifier_host echo) (sequence_host echo) echo_data of
        None \<Rightarrow> Some net
      | Some (buf, n) \<Rightarrow> map_option snd (send local_ip src_ip PROTO_ICMP (take n buf) net))"

definition icmp_handle_packet :: "net_send \<Rightarrow> ipv4_addr \<Rightarrow> bytes \<Rightarrow> net_state \<Rightarrow> net_state option" where
  "icmp_handle_packet send src_ip payload net =
     (case icmp_parse payload of
        None \<Rightarrow> Some net
      | Some (header, _) \<Rightarrow>
          if \<not> icmp_verify_checksum payload then Some net
          else do {
            net' \<leftarrow>
              (if icmp_type header = ICMP_ECHO_REQUEST then
                 (case echo_parse payload of
                    None \<Rightarrow> Some net
                  | Some (echo, echo_data) \<Rightarrow>
                      (case get_first_ethernet_interface (net_ifaces net) of
                         Some (local_ip, _) \<Rightarrow> send_echo_reply send local_ip src_ip echo echo_data net
                       | None \<Rightarrow>
                           if is_loopback src_ip then send_echo_reply send LOCALHOST src_ip echo echo_data net
                           else Some net))
               else Some net);
            Some (icmp_forward src_ip payload net')
          })"

section \<open>Receiving segments\<close>

text \<open>\<open>send_tcp\<close> builds a bare segment in the 128-byte buffer the handlers use and sends it.\<close>

definition send_tcp ::
  "net_send \<Rightarrow> ipv4_addr \<Rightarrow> ipv4_addr \<Rightarrow> u16 \<Rightarrow> u16 \<Rightarrow> u32 \<Rightarrow> u32 \<Rightarrow> u16 \<Rightarrow> u16 \<Rightarrow> net_state \<Rightarrow> net_state option" where
  "send_tcp send src_ip dst_ip src_port dst_port seq ack flags wnd net =
     (case build_tcp_packet (replicate 128 0) src_ip dst_ip src_port dst_port seq ack flags wnd [] of
        None \<Rightarrow> Some net
      | Some (buf, n) \<Rightarrow> map_option snd (send src_ip dst_ip PROTO_TCP (take n buf) net))"

definition tcp_child :: "socket \<Rightarrow> ipv4_addr \<Rightarrow> u16 \<Rightarrow> ipv4_addr \<Rightarrow> u16 \<Rightarrow> u32 \<Rightarrow> socket" where
  "tcp_child listener dst_ip dst_port src_ip src_port seq =
     (socket_new (sk_domain listener) (sk_type listener) (sk_protocol listener))
       \<lparr> sk_local_addr := Some dst_ip, sk_local_port := Some dst_port,
         sk_remote_addr := Some src_ip, sk_remote_port := Some src_port, sk_had_remote_addr := True,
         sk_state := SynReceived, sk_rcv_nxt := seq + 1, sk_snd_una := 1000, sk_snd_nxt := 1001 \<rparr>"

text \<open>
  A connection request: the child socket is created, queued on the listener, registered and
  announced. The second result is the child's identity when one was created.
\<close>

definition tcp_accept_syn ::
  "nat \<Rightarrow> ipv4_addr \<Rightarrow> u16 \<Rightarrow> ipv4_addr \<Rightarrow> u16 \<Rightarrow> u32 \<Rightarrow> net_state \<Rightarrow> net_state \<times> nat option" where
  "tcp_accept_syn l dst_ip dst_port src_ip src_port seq net =
     (case get_socket net l of
        None \<Rightarrow> (net, None)
      | Some listener \<Rightarrow>
          if length (sk_backlog listener) < sk_max_backlog listener then
            case new_socket (tcp_child listener dst_ip dst_port src_ip src_port seq) net of (c, net1) \<Rightarrow>
              let net2 = upd_socket l (\<lambda>s. s \<lparr> sk_backlog := sk_backlog s @ [c] \<rparr>) net1;
                  net3 = register_socket c net2;
                  net4 = wake_all_epolls (upd_socket l wake_waiters net3)
              in (net4, Some c)
          else (net, None))"

definition tcp_input ::
  "net_send \<Rightarrow> ipv4_addr \<Rightarrow> ipv4_addr \<Rightarrow> u16 \<Rightarrow> u16 \<Rightarrow> u32 \<Rightarrow> u32 \<Rightarrow> u16 \<Rightarrow> bytes \<Rightarrow> net_state \<Rightarrow> net_state option" where
  "tcp_input send src_ip dst_ip src_port dst_port seq ack flags tcp_payload net =
     (case find_tcp_connection dst_ip dst_port src_ip src_port net of
        Some i \<Rightarrow>
          (case get_socket net i of
             None \<Rightarrow> Some net
           | Some s \<Rightarrow>
               (case process_segment s seq ack flags tcp_payload of (s', reply) \<Rightarrow>
                  map_option wake_all_epolls
                    (case reply of
                       None \<Rightarrow> Some (set_socket i s' net)
                     | Some (rseq, rack, rflags, rwnd) \<Rightarrow>
                         send_tcp send dst_ip src_ip dst_port src_port rseq rack rflags rwnd (set_socket i s' net))))
      | None \<Rightarrow>
          (case find_tcp_listener dst_ip dst_port net of
             None \<Rightarrow> Some net
           | Some l \<Rightarrow>
               if has_flag flags TCP_SYN then
                 (case tcp_accept_syn l dst_ip dst_port src_ip src_port seq net of
                    (net', None) \<Rightarrow> Some net'
                  | (net', Some c) \<Rightarrow>
                      send_tcp send dst_ip src_ip dst_port src_port 1000 (seq + 1) (TCP_SYN OR TCP_ACK) 65535 net')
               else Some net))"

definition tcp_handle_packet :: "net_send \<Rightarrow> ipv4_addr \<Rightarrow> ipv4_addr \<Rightarrow> bytes \<Rightarrow> net_state \<Rightarrow> net_state option" where
  "tcp_handle_packet send src_ip dst_ip payload net =
     (case tcp_parse payload of
        None \<Rightarrow> Some net
      | Some (header, tcp_payload) \<Rightarrow>
          tcp_input send src_ip dst_ip (tcp_src_port_host header) (tcp_dst_port_host header)
            (seq_num_host header) (ack_num_host header) (tcp_flags header) tcp_payload net)"

section \<open>IPv4, ARP and Ethernet\<close>

definition ipv4_dispatch :: "net_send \<Rightarrow> ipv4_addr \<Rightarrow> ipv4_addr \<Rightarrow> u8 \<Rightarrow> bytes \<Rightarrow> net_state \<Rightarrow> net_state option" where
  "ipv4_dispatch send src_ip dst_ip protocol ip_payload net =
     (if protocol = PROTO_ICMP then icmp_handle_packet send src_ip ip_payload net
      else if protocol = PROTO_UDP then Some (udp_handle_packet src_ip dst_ip ip_payload net)
      else if protocol = PROTO_TCP then tcp_handle_packet send src_ip dst_ip ip_payload net
      else Some net)"

definition ipv4_handle_packet :: "net_send \<Rightarrow> mac \<Rightarrow> bytes \<Rightarrow> net_state \<Rightarrow> net_state option" where
  "ipv4_handle_packet send src_mac payload net =
     (case ipv4_parse payload of
        None \<Rightarrow> Some net
      | Some (header, ip_payload) \<Rightarrow>
          if \<not> ipv4_verify_checksum payload header then Some net
          else
            let src_ip = ip_src_addr header; dst_ip = ip_dst_addr header;
                net1 = net \<lparr> net_arp := arp_update (net_ticks net) src_ip src_mac (net_arp net) \<rparr>;
                is_us = find_interface_by_ip dst_ip (net_ifaces net1) \<noteq> None \<or> is_broadcast dst_ip \<or> is_loopback dst_ip
            in if is_us then ipv4_dispatch send src_ip dst_ip (ip_protocol header) ip_payload net1 else Some net1)"

text \<open>An ARP packet in a 64-byte frame buffer, given to the driver.\<close>

definition send_arp :: "mac \<Rightarrow> mac \<Rightarrow> arp_packet \<Rightarrow> net_state \<Rightarrow> net_state" where
  "send_arp dst_mac src_mac packet net =
     (case build_frame (replicate 64 0) dst_mac src_mac ETHERTYPE_ARP (arp_bytes packet) of
        None \<Rightarrow> net
      | Some (buf, n) \<Rightarrow> transmit (take n buf) net)"

definition arp_message :: "u16 \<Rightarrow> mac \<Rightarrow> ipv4_addr \<Rightarrow> mac \<Rightarrow> ipv4_addr \<Rightarrow> arp_packet" where
  "arp_message op sender_mac sender_ip target_mac target_ip =
     \<lparr> arp_hw_type = swap16 ARP_HW_ETHERNET, arp_proto_type = swap16 0x0800, arp_hw_len = 6, arp_proto_len = 4,
       arp_operation = swap16 op, arp_sender_mac = sender_mac, arp_sender_ip = sender_ip,
       arp_target_mac = target_mac, arp_target_ip = target_ip \<rparr>"

definition arp_handle_packet :: "mac \<Rightarrow> bytes \<Rightarrow> net_state \<Rightarrow> net_state" where
  "arp_handle_packet src_mac payload net =
     (case arp_parse payload of
        None \<Rightarrow> net
      | Some packet \<Rightarrow>
          let sender_ip = arp_sender_ip packet; target_ip = arp_target_ip packet;
              net1 = net \<lparr> net_arp := arp_update (net_ticks net) sender_ip src_mac (net_arp net) \<rparr>
          in if operation_host packet = ARP_OP_REQUEST then
               (case find_interface_by_ip target_ip (net_ifaces net1) of
                  None \<Rightarrow> net1
                | Some (local_ip, local_mac) \<Rightarrow>
                    send_arp src_mac local_mac (arp_message ARP_OP_REPLY local_mac local_ip src_mac sender_ip) net1)
             else net1)"

definition arp_send_request :: "ipv4_addr \<Rightarrow> net_state \<Rightarrow> net_state" where
  "arp_send_request target_ip net =
     (case get_first_ethernet_interface (net_ifaces net) of
        None \<Rightarrow> net
      | Some (local_ip, local_mac) \<Rightarrow>
          send_arp BROADCAST_MAC local_mac
            (arp_message ARP_OP_REQUEST local_mac local_ip (Mac 0 0 0 0 0 0) target_ip) net)"

definition ethernet_handle_packet :: "net_send \<Rightarrow> bytes \<Rightarrow> net_state \<Rightarrow> net_state option" where
  "ethernet_handle_packet send data net =
     (case ethernet_parse data of
        None \<Rightarrow> Some net
      | Some (header, payload) \<Rightarrow>
          if ethertype_host header = ETHERTYPE_ARP then Some (arp_handle_packet (eth_src_mac header) payload net)
          else if ethertype_host header = ETHERTYPE_IPV4 then ipv4_handle_packet send (eth_src_mac header) payload net
          else Some net)"

text \<open>\<open>e1000::handle_interrupt\<close>, given the frames received.\<close>

fun handle_frames :: "net_send \<Rightarrow> bytes list \<Rightarrow> net_state \<Rightarrow> net_state option" where
  "handle_frames send [] net = Some net"
| "handle_frames send (f # fs) net = do { net' \<leftarrow> ethernet_handle_packet send f net; handle_frames send fs net' }"

definition handle_interrupt :: "net_send \<Rightarrow> bytes list \<Rightarrow> net_state \<Rightarrow> net_state option" where
  "handle_interrupt send packets net = do {
     net' \<leftarrow> handle_frames send packets net;
     Some (if packets \<noteq> [] then wake_all_epolls net' else net') }"

section \<open>Sending\<close>

text \<open>The ARP wait loop; each iteration takes one entry of the environment.\<close>

fun arp_wait ::
  "net_send \<Rightarrow> ipv4_addr \<Rightarrow> u64 \<Rightarrow> u64 \<Rightarrow> (u64 \<times> bytes list \<times> u64) list \<Rightarrow> net_state \<Rightarrow> (mac option \<times> net_state) option" where
  "arp_wait send next_hop start last_req [] net = Some (arp_lookup next_hop (net_arp net), net \<lparr> net_env := [] \<rparr>)"
| "arp_wait send next_hop start last_req ((t, frames, now) # env) net =
     (if arp_lookup next_hop (net_arp net) = None \<and> t - start < 50 then do {
        net1 \<leftarrow> handle_interrupt send frames (net \<lparr> net_ticks := t \<rparr>);
        let net2 = net1 \<lparr> net_ticks := now \<rparr>;
        let (net3, last') = (if 10 \<le> now - last_req then (arp_send_request next_hop net2, now) else (net2, last_req));
        arp_wait send next_hop start last' env net3
      }
      else Some (arp_lookup next_hop (net_arp net), net \<lparr> net_env := (t, frames, now) # env \<rparr>))"

definition resolve :: "net_send \<Rightarrow> ipv4_addr \<Rightarrow> net_state \<Rightarrow> (mac option \<times> net_state) option" where
  "resolve send next_hop net =
     (case arp_lookup next_hop (net_arp net) of
        Some m \<Rightarrow> Some (Some m, net)
      | None \<Rightarrow> arp_wait send next_hop (net_ticks net) (net_ticks net) (net_env net) (arp_send_request next_hop net))"

definition send_frame :: "ipv4_addr \<Rightarrow> ipv4_addr \<Rightarrow> u8 \<Rightarrow> bytes \<Rightarrow> mac option \<Rightarrow> net_state \<Rightarrow> (string + unit) \<times> net_state" where
  "send_frame src_ip dst_ip protocol payload dst_mac net =
     (case dst_mac of
        None \<Rightarrow> (Inl ''ARP resolution failed'', net)
      | Some m \<Rightarrow>
          (case get_first_ethernet_interface (net_ifaces net) of
             None \<Rightarrow> (Inl ''No ethernet interface up'', net)
           | Some (_, local_mac) \<Rightarrow>
               (case build_ipv4_packet (net_ident net) (replicate 1600 0) src_ip dst_ip protocol payload of
                  (ident, None) \<Rightarrow> (Inl ''IP packet too large'', net \<lparr> net_ident := ident \<rparr>)
                | (ident, Some (ip_buf, ip_len)) \<Rightarrow>
                    (case build_frame (replicate 1620 0) m local_mac ETHERTYPE_IPV4 (take ip_len ip_buf) of
                       None \<Rightarrow> (Inl ''Ethernet frame too large'', net \<lparr> net_ident := ident \<rparr>)
                     | Some (eth_buf, eth_len) \<Rightarrow> (Inr (), transmit (take eth_len eth_buf) (net \<lparr> net_ident := ident \<rparr>))))))"

definition send_packet_body :: "net_send \<Rightarrow> net_send" where
  "send_packet_body send src_ip dst_ip protocol payload net =
     (if is_loopback dst_ip then
        (case build_ipv4_packet (net_ident net) (replicate 2048 0) src_ip dst_ip protocol payload of
           (ident, None) \<Rightarrow> Some (Inl ''Failed to build loopback IP packet'', net \<lparr> net_ident := ident \<rparr>)
         | (ident, Some (ip_buf, ip_len)) \<Rightarrow>
             map_option (Pair (Inr ()))
               (ipv4_handle_packet send (Mac 0 0 0 0 0 0) (take ip_len ip_buf) (net \<lparr> net_ident := ident \<rparr>)))
      else
        (case net_routes net of
           None \<Rightarrow> Some (Inl ''Routing table not initialized'', net)
         | Some table \<Rightarrow>
             (case route_lookup table dst_ip of
                None \<Rightarrow> Some (Inl ''No route to host'', net)
              | Some route \<Rightarrow>
                  let next_hop = (if rt_gateway route = UNSPECIFIED then dst_ip else rt_gateway route)
                  in map_option (\<lambda>(m, net'). send_frame src_ip dst_ip protocol payload m net') (resolve send next_hop net))))"

text \<open>Sends nested at most \<open>n\<close> deep; \<open>None\<close> when a deeper one would be needed.\<close>

primrec send_packet :: "nat \<Rightarrow> net_send" where
  "send_packet 0 = (\<lambda>src dst protocol payload net. None)"
| "send_packet (Suc n) = send_packet_body (send_packet n)"

text \<open>The state after \<open>interface::init\<close>.\<close>

definition net_init :: net_state where
  "net_init =
     \<lparr> net_sockets = [], net_registry = [], net_ifaces = Some [if_loopback], net_routes = Some init_routing,
       net_arp = Some Map.empty, net_ident = 1, net_port = 49152, net_ticks = 0, net_env = [], net_tx = [], net_epolls = 0 \<rparr>"

section \<open>The loopback path\<close>

text \<open>What a loopback packet changes before its protocol handler runs.\<close>

definition loop_prep :: "ipv4_addr \<Rightarrow> net_state \<Rightarrow> net_state" where
  "loop_prep src_ip net =
     net \<lparr> net_ident := net_ident net + 1,
           net_arp := arp_update (net_ticks net) src_ip (Mac 0 0 0 0 0 0) (net_arp net) \<rparr>"

lemma loopback_send:
  assumes "is_loopback dst" "length payload \<le> 2028"
  shows "send_packet_body send src dst protocol payload net =
         map_option (Pair (Inr ())) (ipv4_dispatch send src dst protocol payload (loop_prep src net))"
proof -
  have l: "20 + length payload \<le> length (replicate 2048 (0 :: u8))" "20 + length payload \<le> 65535"
    using assms(2) by simp_all
  obtain buf' h where b: "build_ipv4_packet (net_ident net) (replicate 2048 0) src dst protocol payload =
      (net_ident net + 1, Some (buf', 20 + length payload))"
    and p: "ipv4_parse (take (20 + length payload) buf') = Some (h, payload)"
      "ipv4_verify_checksum (take (20 + length payload) buf') h"
      "ip_src_addr h = src" "ip_dst_addr h = dst" "ip_protocol h = protocol"
    using build_ipv4_ok [OF l] by metis
  show ?thesis
    using assms(1) by (simp add: send_packet_body_def b ipv4_handle_packet_def p Let_def loop_prep_def)
qed

lemma loopback_send_too_large:
  assumes "is_loopback dst" "2028 < length payload"
  shows "send_packet_body send src dst protocol payload net = Some (Inl ''Failed to build loopback IP packet'', net)"
  using assms by (simp add: send_packet_body_def build_ipv4_packet_def Let_def)

lemma tcp_handle_segment:
  "tcp_handle_packet send src dst (tcp_segment sport dport seq ack flags wnd c payload) net =
   tcp_input send src dst sport dport seq ack (flags AND 0x1FF) payload net"
  by (rule tcp_parse_segment [of sport dport seq ack flags wnd c payload]) (simp add: tcp_handle_packet_def)

text \<open>A bare segment sent over the loopback path is the peer's input.\<close>

lemma send_tcp_loopback:
  assumes "is_loopback dst"
  shows "send_tcp (send_packet_body send) src dst sport dport seq ack flags wnd net =
    tcp_input send src dst sport dport seq ack (flags AND 0x1FF) [] (loop_prep src net)"
proof -
  have "20 + length ([] :: bytes) \<le> length (replicate 128 (0 :: u8))" by simp
  then obtain buf' c where b: "build_tcp_packet (replicate 128 0) src dst sport dport seq ack flags wnd [] = Some (buf', 20 + length ([] :: bytes))"
    and t: "take (20 + length ([] :: bytes)) buf' = tcp_segment sport dport seq ack flags wnd c []"
    by (rule build_tcp_packet_bytes)
  have "length (tcp_segment sport dport seq ack flags wnd c []) \<le> 2028" by (simp add: tcp_segment_def)
  note l = loopback_send [OF assms this, of send src PROTO_TCP net]
  have d: "ipv4_dispatch send src dst PROTO_TCP p n = tcp_handle_packet send src dst p n" for p n
    by (simp add: ipv4_dispatch_def PROTO_TCP_def PROTO_ICMP_def PROTO_UDP_def)
  show ?thesis
    unfolding send_tcp_def b option.case prod.case t l d tcp_handle_segment
    by (simp add: option.map_comp comp_def option.map_ident)
qed

section \<open>Loopback traffic dies out\<close>

lemma find_socket_Some:
  "find_socket P net = Some i \<Longrightarrow> \<exists>s. get_socket net i = Some s \<and> P s"
  unfolding find_socket_def by (drule find_SomeD) (simp split: option.splits)

lemma find_socket_None:
  "find_socket P net = None \<longleftrightarrow> (\<forall>i \<in> set (net_registry net). \<forall>s. get_socket net i = Some s \<longrightarrow> \<not> P s)"
  unfolding find_socket_def by (auto simp: find_None_iff split: option.splits)

lemma ack_flags: "TCP_ACK AND 0x1FF = TCP_ACK" "\<not> has_flag TCP_ACK TCP_SYN" "has_flag TCP_ACK TCP_ACK"
  "\<not> has_flag TCP_ACK TCP_RST" "\<not> has_flag TCP_ACK TCP_FIN"
  "(TCP_SYN OR TCP_ACK) AND 0x1FF = TCP_SYN OR TCP_ACK" "has_flag (TCP_SYN OR TCP_ACK) TCP_SYN"
  "has_flag (TCP_SYN OR TCP_ACK) TCP_ACK" "\<not> has_flag (TCP_SYN OR TCP_ACK) TCP_RST"
  "\<not> has_flag (TCP_SYN OR TCP_ACK) TCP_FIN" "TCP_SYN AND 0x1FF = TCP_SYN" "has_flag TCP_SYN TCP_SYN"
  "\<not> has_flag TCP_SYN TCP_ACK" "\<not> has_flag TCP_SYN TCP_RST" "\<not> has_flag TCP_SYN TCP_FIN"
  by (simp_all add: TCP_ACK_def TCP_SYN_def TCP_RST_def TCP_FIN_def has_flag_def)

text \<open>An acknowledgement without data is never answered.\<close>

lemma bare_ack_unanswered: "snd (process_segment s seq ack TCP_ACK []) = None"
  by (cases "sk_state s")
    (simp_all add: process_segment_def established_segment_def syn_sent_segment_def fin_wait1_segment_def
      fin_wait2_segment_def note_window_def ack_flags Let_def)

text \<open>Every reply is a bare acknowledgement.\<close>

lemma accept_reply_ack: "snd (accept_payload s seq payload) = Some (a, b, c, w) \<Longrightarrow> c = TCP_ACK"
  by (simp add: accept_payload_def ack_reply_def Let_def split: prod.splits if_splits)

lemma note_window_snd: "snd (note_window r) = snd r"
  by (auto simp: note_window_def split: prod.splits option.splits)

lemma reply_is_ack: "snd (process_segment s seq ack flags payload) = Some (a, b, c, w) \<Longrightarrow> c = TCP_ACK"
proof (cases "sk_state s")
  case Established
  assume r: "snd (process_segment s seq ack flags payload) = Some (a, b, c, w)"
  define s1 where "s1 = (if has_flag flags TCP_ACK then s \<lparr> sk_snd_una := ack \<rparr> else s)"
  obtain s2 r2 where a: "(if payload \<noteq> [] then accept_payload s1 seq payload else (s1, None)) = (s2, r2)"
    by (meson surj_pair)
  have "snd (process_segment s seq ack flags payload) =
      (if has_flag flags TCP_RST then None
       else if has_flag flags TCP_FIN then ack_reply (s2 \<lparr> sk_rcv_nxt := sk_rcv_nxt s2 + 1, sk_state := CloseWait \<rparr>) else r2)"
    using Established a unfolding process_segment_def established_segment_def Let_def s1_def [symmetric]
    by (simp add: note_window_snd)
  then show ?thesis
    using r a accept_reply_ack [of s1 seq payload a b c w] by (auto simp: ack_reply_def split: if_splits)
qed (auto simp: process_segment_def syn_sent_segment_def fin_wait1_segment_def fin_wait2_segment_def
    note_window_snd ack_reply_def Let_def split: if_splits)

lemma tcp_input_connection:
  assumes "find_tcp_connection dst dport src sport net = Some i" "get_socket net i = Some s"
    and "process_segment s seq ack flags payload = (s', reply)"
  shows "tcp_input send src dst sport dport seq ack flags payload net =
     map_option wake_all_epolls
       (case reply of
          None \<Rightarrow> Some (set_socket i s' net)
        | Some (rseq, rack, rflags, rwnd) \<Rightarrow>
            send_tcp send dst src dport sport rseq rack rflags rwnd (set_socket i s' net))"
  unfolding tcp_input_def assms option.case prod.case ..

lemma ack_handled: "\<exists>net'. tcp_input send src dst sport dport seq ack TCP_ACK [] net = Some net'"
proof (cases "find_tcp_connection dst dport src sport net")
  case None
  then show ?thesis by (auto simp: tcp_input_def ack_flags split: option.splits)
next
  case (Some i)
  then obtain s where s: "get_socket net i = Some s"
    unfolding find_tcp_connection_def using find_socket_Some by blast
  obtain s' where p: "process_segment s seq ack TCP_ACK [] = (s', None)"
    using bare_ack_unanswered [of s seq ack] by (metis prod.collapse)
  show ?thesis by (simp add: tcp_input_connection [OF Some s p])
qed

text \<open>A segment for an existing connection costs at most one nested send.\<close>

lemma connection_handled:
  assumes "is_loopback src" "find_tcp_connection dst dport src sport net \<noteq> None"
  shows "\<exists>net'. tcp_input (send_packet_body send) src dst sport dport seq ack flags payload net = Some net'"
proof -
  obtain i s where i: "find_tcp_connection dst dport src sport net = Some i" "get_socket net i = Some s"
    using assms(2) unfolding find_tcp_connection_def using find_socket_Some by blast
  obtain s' reply where p: "process_segment s seq ack flags payload = (s', reply)" by (meson surj_pair)
  show ?thesis
  proof (cases reply)
    case None
    then show ?thesis by (simp add: tcp_input_connection [OF i p])
  next
    case (Some r)
    obtain rseq rack rflags rwnd where r: "r = (rseq, rack, rflags, rwnd)" by (cases r)
    have f: "rflags = TCP_ACK" using p Some r reply_is_ack by (metis snd_conv)
    show ?thesis
      using ack_handled [of send dst src dport sport rseq rack "loop_prep dst (set_socket i s' net)"]
      by (auto simp: tcp_input_connection [OF i p] Some r f send_tcp_loopback [OF assms(1)] ack_flags)
  qed
qed

text \<open>A connection request leaves a socket for the connection it asks for.\<close>

definition endpoints :: "ipv4_addr \<Rightarrow> u16 \<Rightarrow> ipv4_addr \<Rightarrow> u16 \<Rightarrow> socket \<Rightarrow> bool" where
  "endpoints ip port rip rport s \<longleftrightarrow>
     sk_type s = 1 \<and> bound_to ip port s \<and> sk_remote_port s = Some rport \<and> sk_remote_addr s = Some rip"

lemma find_tcp_connection_endpoints:
  "find_tcp_connection ip port rip rport = find_socket (endpoints ip port rip rport)"
  by (simp add: find_tcp_connection_def endpoints_def [abs_def])

lemma endpoints_other [simp]:
  "endpoints ip port rip rport (s \<lparr> sk_backlog := b \<rparr>) = endpoints ip port rip rport s"
  "endpoints ip port rip rport (wake_waiters s) = endpoints ip port rip rport s"
  by (simp_all add: endpoints_def bound_to_def wake_waiters_def)

lemma endpoints_child:
  "sk_type l = 1 \<Longrightarrow> endpoints ip port rip rport (tcp_child l ip port rip rport seq)"
  by (simp add: endpoints_def bound_to_def tcp_child_def socket_new_def)

lemma get_socket_simps [simp]:
  "get_socket (wake_all_epolls net) = get_socket net" "net_registry (wake_all_epolls net) = net_registry net"
  "get_socket (register_socket c net) = get_socket net" "net_registry (register_socket c net) = net_registry net @ [c]"
  "net_registry (upd_socket i f net) = net_registry net" "net_registry (set_socket i s net) = net_registry net"
  "get_socket (loop_prep a net) = get_socket net" "net_registry (loop_prep a net) = net_registry net"
  by (simp_all add: fun_eq_iff wake_all_epolls_def register_socket_def set_socket_def loop_prep_def upd_socket_def get_socket_def)

lemma get_socket_set: "get_socket (set_socket i s net) j = (if j = i then map_option (\<lambda>_. s) (get_socket net i) else get_socket net j)"
  by (simp add: get_socket_def set_socket_def)

lemma get_socket_upd: "get_socket (upd_socket i f net) j = (if j = i then map_option f (get_socket net j) else get_socket net j)"
  by (auto simp: upd_socket_def get_socket_set split: option.splits)

lemma get_socket_new:
  "new_socket s net = (c, net') \<Longrightarrow> get_socket net' j = (if j = c then Some s else get_socket net j)"
  "new_socket s net = (c, net') \<Longrightarrow> net_registry net' = net_registry net"
  "new_socket s net = (c, net') \<Longrightarrow> get_socket net c = None"
  by (auto simp: new_socket_def get_socket_def nth_append)

lemma accept_syn_cases:
  assumes "tcp_accept_syn l dst dport src sport seq net = (net', Some c)" and l: "get_socket net l = Some listener"
  shows "net_registry net' = net_registry net @ [c]" "get_socket net c = None"
    and "get_socket net' c = Some (tcp_child listener dst dport src sport seq)"
    and "get_socket net' l = Some (wake_waiters (listener \<lparr> sk_backlog := sk_backlog listener @ [c] \<rparr>))"
    and "j \<noteq> c \<Longrightarrow> j \<noteq> l \<Longrightarrow> get_socket net' j = get_socket net j"
proof -
  obtain net1 where n: "new_socket (tcp_child listener dst dport src sport seq) net = (c, net1)"
    and n': "net' = wake_all_epolls (upd_socket l wake_waiters (register_socket c
      (upd_socket l (\<lambda>s. s \<lparr> sk_backlog := sk_backlog s @ [c] \<rparr>) net1)))"
    using assms by (auto simp: tcp_accept_syn_def Let_def split: if_splits prod.splits)
  note g = get_socket_new [OF n]
  have "c \<noteq> l" using g(3) l by auto
  then show "net_registry net' = net_registry net @ [c]" "get_socket net c = None"
    "get_socket net' c = Some (tcp_child listener dst dport src sport seq)"
    "get_socket net' l = Some (wake_waiters (listener \<lparr> sk_backlog := sk_backlog listener @ [c] \<rparr>))"
    "j \<noteq> c \<Longrightarrow> j \<noteq> l \<Longrightarrow> get_socket net' j = get_socket net j"
    using g l by (simp_all add: n' get_socket_upd)
qed

text \<open>The request keeps every connection that exists, and adds its own.\<close>

lemma accept_syn_connection:
  assumes a: "tcp_accept_syn l dst dport src sport seq net = (net', Some c)" "get_socket net l = Some s" "sk_type s = 1"
  shows "find_tcp_connection dst dport src sport (loop_prep a net') \<noteq> None"
    and "find_tcp_connection ip port rip rport net \<noteq> None \<Longrightarrow> find_tcp_connection ip port rip rport (loop_prep a net') \<noteq> None"
proof -
  note n = accept_syn_cases [OF a(1,2)]
  have "endpoints dst dport src sport (tcp_child s dst dport src sport seq)" using a(3) by (rule endpoints_child)
  then show "find_tcp_connection dst dport src sport (loop_prep a net') \<noteq> None"
    unfolding find_tcp_connection_endpoints find_socket_None using n(1,3) by (auto intro!: bexI [of _ c])
  assume "find_tcp_connection ip port rip rport net \<noteq> None"
  then obtain i t where i: "i \<in> set (net_registry net)" "get_socket net i = Some t" "endpoints ip port rip rport t"
    unfolding find_tcp_connection_endpoints find_socket_None by blast
  have "\<exists>t'. get_socket net' i = Some t' \<and> endpoints ip port rip rport t'"
  proof (cases "i = l")
    case True
    then show ?thesis using n(4) i a(2) by simp
  next
    case False
    have "i \<noteq> c" using n(2) i(2) by auto
    then show ?thesis using n(5) [OF _ False] i by simp
  qed
  then show "find_tcp_connection ip port rip rport (loop_prep a net') \<noteq> None"
    unfolding find_tcp_connection_endpoints find_socket_None using n(1) i(1) by auto
qed

lemma find_tcp_listener_type:
  "find_tcp_listener ip port net = Some l \<Longrightarrow> \<exists>s. get_socket net l = Some s \<and> sk_type s = 1"
  unfolding find_tcp_listener_def by (drule find_socket_Some) blast

lemma request_handled:
  assumes src: "is_loopback src" and none: "find_tcp_connection dst dport src sport net = None"
    and answered: "\<And>net'. find_tcp_connection dst dport src sport (loop_prep dst net') \<noteq> None \<Longrightarrow>
      (\<And>ip port rip rport. find_tcp_connection ip port rip rport net \<noteq> None \<Longrightarrow>
         find_tcp_connection ip port rip rport (loop_prep dst net') \<noteq> None) \<Longrightarrow>
      \<exists>net''. tcp_input send dst src dport sport 1000 (seq + 1) (TCP_SYN OR TCP_ACK) [] (loop_prep dst net') = Some net''"
  shows "\<exists>net'. tcp_input (send_packet_body send) src dst sport dport seq ack flags payload net = Some net'"
proof (cases "find_tcp_listener dst dport net")
  case None
  then show ?thesis by (simp add: tcp_input_def none)
next
  case (Some l)
  then obtain s where s: "get_socket net l = Some s" "sk_type s = 1" using find_tcp_listener_type by blast
  obtain net' c where a: "tcp_accept_syn l dst dport src sport seq net = (net', c)" by (meson surj_pair)
  have "\<exists>net''. send_tcp (send_packet_body send) dst src dport sport 1000 (seq + 1) (TCP_SYN OR TCP_ACK) 65535 net' = Some net''"
    if "c = Some i" for i
    using answered [OF accept_syn_connection [OF a [unfolded that] s]]
    by (simp add: send_tcp_loopback [OF src] ack_flags)
  then show ?thesis
    by (cases c) (auto simp: tcp_input_def none Some a)
qed

text \<open>
  Four sends deep at most: a request reaches a listener; its answer reaches another listener; that
  answer finds the socket the request left, which acknowledges it; acknowledgements are not answered.
\<close>

lemma tcp_input_handled:
  assumes lo: "is_loopback src" "is_loopback dst"
  shows "\<exists>net'. tcp_input (send_packet_body (send_packet_body (send_packet_body send))) src dst sport dport seq ack flags payload net = Some net'"
proof (cases "find_tcp_connection dst dport src sport net = None")
  case True
  have "\<exists>net''. tcp_input (send_packet_body (send_packet_body send)) dst src dport sport 1000 (seq + 1) (TCP_SYN OR TCP_ACK) [] (loop_prep dst net') = Some net''"
    if fwd: "find_tcp_connection dst dport src sport (loop_prep dst net') \<noteq> None" for net'
  proof (cases "find_tcp_connection src sport dst dport (loop_prep dst net') = None")
    case True
    show ?thesis
      using fwd by (intro request_handled [OF lo(2) True] connection_handled [OF lo(1)]) blast
  qed (rule connection_handled [OF lo(2)])
  then show ?thesis by (intro request_handled [OF lo(1) True])
qed (rule connection_handled [OF lo(1)])

lemma icmp_reply_handled:
  assumes "8 + length d \<le> 1500"
  shows "\<exists>net'. icmp_handle_packet send src ([ICMP_ECHO_REPLY, 0] @ be_bytes16 c @ be_bytes16 i @ be_bytes16 q @ d) net = Some net'"
  by (simp add: icmp_handle_packet_def icmp_parse_def icmp_of_bytes_def ICMP_ECHO_REPLY_def ICMP_ECHO_REQUEST_def)

lemma echo_reply_sent:
  assumes "is_loopback src"
  shows "\<exists>net'. send_echo_reply (send_packet_body send) local_ip src echo d net = Some net'"
proof (cases "8 + length d \<le> 1500")
  case True
  obtain buf' c where b: "build_echo_reply (replicate 1500 0) (identifier_host echo) (sequence_host echo) d = Some (buf', 8 + length d)"
    and t: "take (8 + length d) buf' = [ICMP_ECHO_REPLY, 0] @ be_bytes16 c @ be_bytes16 (identifier_host echo) @ be_bytes16 (sequence_host echo) @ d"
    by (rule echo_reply_bytes [of d "replicate 1500 0" "identifier_host echo" "sequence_host echo"]) (use True in simp_all)
  have l: "length (take (8 + length d) buf') \<le> 2028" using True by (simp only: t) simp
  have d: "ipv4_dispatch send local_ip src PROTO_ICMP p n = icmp_handle_packet send local_ip p n" for p n
    by (simp add: ipv4_dispatch_def)
  show ?thesis
    unfolding send_echo_reply_def b option.case prod.case loopback_send [OF assms l] d
    using icmp_reply_handled [OF True] unfolding t by fastforce
next
  case False
  then show ?thesis by (simp add: send_echo_reply_def build_echo_reply_def Let_def)
qed

lemma icmp_handled:
  assumes "is_loopback src"
  shows "\<exists>net'. icmp_handle_packet (send_packet_body send) src payload net = Some net'"
proof (cases "icmp_parse payload")
  case (Some r)
  obtain h p where r: "r = (h, p)" by (cases r)
  let ?send = "send_packet_body send"
  have "\<exists>n. (case get_first_ethernet_interface (net_ifaces net) of
            Some (local_ip, _) \<Rightarrow> send_echo_reply ?send local_ip src echo d net
          | None \<Rightarrow> if is_loopback src then send_echo_reply ?send LOCALHOST src echo d net else Some net) = Some n" for echo d
    using echo_reply_sent [OF assms] by (cases "get_first_ethernet_interface (net_ifaces net)") auto
  then have "\<exists>n. (if icmp_type h = ICMP_ECHO_REQUEST then
       (case echo_parse payload of
          None \<Rightarrow> Some net
        | Some (echo, echo_data) \<Rightarrow>
            (case get_first_ethernet_interface (net_ifaces net) of
               Some (local_ip, _) \<Rightarrow> send_echo_reply ?send local_ip src echo echo_data net
             | None \<Rightarrow> if is_loopback src then send_echo_reply ?send LOCALHOST src echo echo_data net else Some net))
     else Some net) = Some n"
    by (cases "echo_parse payload") auto
  then show ?thesis unfolding icmp_handle_packet_def Some r option.case prod.case by auto
qed (simp add: icmp_handle_packet_def)

text \<open>
  C17. Loopback traffic dies out: sending any packet between loopback addresses, whatever the
  protocol, the payload and the sockets of the system, returns after at most four nested sends.
  The handlers run inside the send, so this is the bound on the recursion of the kernel stack.
\<close>

theorem loopback_send_returns:
  assumes "is_loopback src" "is_loopback dst"
  shows "\<exists>r net'. send_packet 4 src dst protocol payload net = Some (r, net')"
proof -
  let ?s = "send_packet_body (send_packet_body (send_packet_body (send_packet 0)))"
  have s4: "send_packet 4 = send_packet_body ?s" by (simp add: numeral_eq_Suc)
  show ?thesis
  proof (cases "length payload \<le> 2028")
    case True
    have "\<exists>net'. icmp_handle_packet ?s src payload n = Some net'" for n
      by (rule icmp_handled [OF assms(1)])
    moreover have "\<exists>net'. tcp_handle_packet ?s src dst payload n = Some net'" for n
      using tcp_input_handled [OF assms] by (simp add: tcp_handle_packet_def split: option.splits prod.splits)
    ultimately have "\<exists>net'. ipv4_dispatch ?s src dst protocol payload n = Some net'" for n
      by (simp add: ipv4_dispatch_def)
    then show ?thesis unfolding s4 loopback_send [OF assms(2) True] by fastforce
  next
    case False
    then show ?thesis unfolding s4 using loopback_send_too_large [OF assms(2)] by simp
  qed
qed

theorem loopback_send_returns_witness:
  "\<exists>r net'. send_packet 4 LOCALHOST LOCALHOST PROTO_TCP [1, 2, 3] net_init = Some (r, net')"
  by (rule loopback_send_returns) (simp_all add: LOCALHOST_def)

end
