(* ===== verification/Net_Socket.thy ===== *)
theory Net_Socket
  imports Net_Stack Inode
begin

text \<open>
  Socket operations: \<open>SocketInode\<close> of \<open>net/socket.rs\<close> and the system calls of \<open>syscall/net.rs\<close>, on the
  state of the protocol stack. A socket is named by its identity; the descriptor table and the user
  pointers of the calls are the business of other components, and enter as the outcome of their
  checks. A call that may block is cut at its wait: the result says that it waits, and the pass after
  the wait is a definition of its own.
\<close>

section \<open>Creating and binding\<close>

text \<open>\<open>fetch_add\<close> on the counter, then the range check.\<close>

definition alloc_ephemeral_port :: "net_state \<Rightarrow> u16 \<times> net_state" where
  "alloc_ephemeral_port net =
     (let port = net_port net in
      if 49152 \<le> port \<and> port \<le> 65000 then (port, net \<lparr> net_port := port + 1 \<rparr>)
      else (49152, net \<lparr> net_port := 49152 \<rparr>))"

definition SOCK_NONBLOCK :: u32 where "SOCK_NONBLOCK = 0x800"

definition SOCK_CLOEXEC :: u32 where "SOCK_CLOEXEC = 0x80000"

definition sock_base_type :: "u32 \<Rightarrow> int" where
  "sock_base_type sock_type = sint (sock_type AND NOT (SOCK_NONBLOCK OR SOCK_CLOEXEC))"

text \<open>
  \<open>sys_socket\<close> for every domain but \<open>AF_UNIX\<close>, whose branch is \<open>make_socketpair\<close>. \<open>fd_room\<close> says whether
  the descriptor table has a free entry; without one the inode is dropped again.
\<close>

definition sys_socket :: "int \<Rightarrow> u32 \<Rightarrow> int \<Rightarrow> bool \<Rightarrow> net_state \<Rightarrow> nat result \<times> net_state" where
  "sys_socket domain sock_type protocol fd_room net =
     (if domain \<noteq> 2 then (Inl EAFNOSUPPORT, net)
      else if sock_base_type sock_type \<notin> {1, 2, 3} then (Inl EINVAL, net)
      else
        case new_socket ((socket_new domain (sock_base_type sock_type) protocol)
               \<lparr> sk_nonblocking := (sock_type AND SOCK_NONBLOCK \<noteq> 0) \<rparr>) net of (i, net1) \<Rightarrow>
          let net2 = register_socket i net1
          in if fd_room then (Inr i, net2) else (Inl EMFILE, drop_socket i net2))"

definition sys_bind :: "nat \<Rightarrow> ipv4_addr \<Rightarrow> u16 \<Rightarrow> net_state \<Rightarrow> unit result \<times> net_state" where
  "sys_bind i local_ip raw_port net =
     (case get_socket net i of
        None \<Rightarrow> (Inl EBADF, net)
      | Some _ \<Rightarrow>
          (case (if raw_port = 0 then alloc_ephemeral_port net else (raw_port, net)) of (local_port, net1) \<Rightarrow>
             (Inr (), upd_socket i (\<lambda>s. s \<lparr> sk_local_addr := (if local_ip = UNSPECIFIED then None else Some local_ip),
                                             sk_local_port := Some local_port \<rparr>) net1)))"

definition sys_listen :: "nat \<Rightarrow> int \<Rightarrow> net_state \<Rightarrow> unit result \<times> net_state" where
  "sys_listen i backlog net =
     (case get_socket net i of
        None \<Rightarrow> (Inl EBADF, net)
      | Some s \<Rightarrow>
          if sk_type s \<noteq> 1 then (Inl EINVAL, net)
          else (Inr (), set_socket i (s \<lparr> sk_state := Listen, sk_max_backlog := min (nat (max backlog 1)) 128 \<rparr>) net))"

text \<open>The local end of a socket that is about to send to an address: the same block in \<open>sys_connect\<close>, \<open>sys_sendto\<close> and \<open>write\<close>.\<close>

definition source_address :: "ipv4_addr \<Rightarrow> net_state \<Rightarrow> ipv4_addr" where
  "source_address remote_ip net =
     (if is_loopback remote_ip then LOCALHOST
      else (case get_first_ethernet_interface (net_ifaces net) of
              Some (ip, _) \<Rightarrow> ip | None \<Rightarrow> Ipv4Addr 10 0 2 15))"

definition ensure_port :: "socket \<Rightarrow> net_state \<Rightarrow> u16 option \<times> net_state" where
  "ensure_port s net =
     (if sk_local_port s = None \<or> sk_local_port s = Some 0
      then map_prod Some id (alloc_ephemeral_port net) else (sk_local_port s, net))"

definition ensure_bound :: "nat \<Rightarrow> ipv4_addr \<Rightarrow> net_state \<Rightarrow> net_state" where
  "ensure_bound i remote_ip net =
     (case get_socket net i of
        None \<Rightarrow> net
      | Some s \<Rightarrow>
          (case ensure_port s net of (port, net1) \<Rightarrow>
             let ip = (if sk_local_addr s = None \<or> sk_local_addr s = Some UNSPECIFIED
                       then Some (source_address remote_ip net) else sk_local_addr s)
             in set_socket i (s \<lparr> sk_local_port := port, sk_local_addr := ip \<rparr>) net1))"

section \<open>Connecting\<close>

text \<open>\<open>sys_connect\<close> up to its wait loop; \<open>ConnWait\<close> is the blocking case, whose loop is \<open>connect_wait\<close>.\<close>

datatype connect_result = ConnDone syscall_result | ConnWait

definition connect_prepare :: "nat \<Rightarrow> ipv4_addr \<Rightarrow> u16 \<Rightarrow> net_state \<Rightarrow> net_state" where
  "connect_prepare i remote_ip remote_port net =
     ensure_bound i remote_ip
       (upd_socket i (\<lambda>s. s \<lparr> sk_remote_addr := Some remote_ip, sk_remote_port := Some remote_port \<rparr>) net)"

definition connect_syn :: "socket \<Rightarrow> socket" where
  "connect_syn s = s \<lparr> sk_state := SynSent, sk_snd_nxt := 1000, sk_snd_una := 1000, sk_had_remote_addr := True \<rparr>"

definition sys_connect ::
  "net_send \<Rightarrow> nat \<Rightarrow> ipv4_addr \<Rightarrow> u16 \<Rightarrow> bool \<Rightarrow> net_state \<Rightarrow> (connect_result \<times> net_state) option" where
  "sys_connect send i remote_ip remote_port nonblock_fd net =
     (if get_socket net i = None then Some (ConnDone (errno_code EBADF), net)
      else if remote_ip = UNSPECIFIED then Some (ConnDone (errno_code ENETUNREACH), net)
      else if \<not> is_loopback remote_ip \<and> get_first_ethernet_interface (net_ifaces net) = None
      then Some (ConnDone (errno_code ENETUNREACH), net)
      else
        let net1 = connect_prepare i remote_ip remote_port net in
        case get_socket net1 i of
          None \<Rightarrow> Some (ConnDone (errno_code EBADF), net1)
        | Some s \<Rightarrow>
            if sk_type s = 2 then Some (ConnDone 0, net1)
            else
              (case (sk_local_port s, sk_local_addr s) of
                 (Some local_port, Some local_ip) \<Rightarrow>
                   let s1 = connect_syn s
                   in map_option (Pair (if nonblock_fd \<or> sk_nonblocking s then ConnDone (- 115) else ConnWait))
                        (send_tcp send local_ip remote_ip local_port remote_port (sk_snd_nxt s1) 0 TCP_SYN 65535
                          (set_socket i (s1 \<lparr> sk_snd_nxt := sk_snd_nxt s1 + 1 \<rparr>) net1))
               | _ \<Rightarrow> Some (ConnDone (errno_code EINVAL), set_socket i (connect_syn s) net1)))"

text \<open>One iteration of the wait loop: the return value, or \<open>None\<close> when it waits again. The deadline is 100 ticks.\<close>

definition connect_wait :: "nat \<Rightarrow> u64 \<Rightarrow> net_state \<Rightarrow> syscall_result option \<times> net_state" where
  "connect_wait i start_ticks net =
     (case get_socket net i of
        None \<Rightarrow> (Some (errno_code EBADF), net)
      | Some s \<Rightarrow>
          if sk_state s = Established then (Some 0, net)
          else if sk_state s = Closed then (Some (- 111), net)
          else if 100 < net_ticks net - start_ticks then (Some (- 110), set_socket i (s \<lparr> sk_state := Closed \<rparr>) net)
          else (None, net))"

section \<open>Accepting\<close>

datatype accept_result = AcceptErr errno | Accepted nat | AcceptWait nat

text \<open>
  One pass of \<open>sys_accept4\<close>. \<open>addr_ok\<close> is the check of the address pointers when both are given;
  on its failure the child has left the backlog and stays in the registry.
\<close>

definition sys_accept4 :: "nat \<Rightarrow> u32 \<Rightarrow> bool option \<Rightarrow> bool \<Rightarrow> net_state \<Rightarrow> accept_result \<times> net_state" where
  "sys_accept4 i flags addr_ok fd_room net =
     (if flags AND NOT (SOCK_NONBLOCK OR SOCK_CLOEXEC) \<noteq> 0 then (AcceptErr EINVAL, net)
      else
        case get_socket net i of
          None \<Rightarrow> (AcceptErr EBADF, net)
        | Some s \<Rightarrow>
            if sk_type s \<noteq> 1 \<or> sk_state s \<noteq> Listen then (AcceptErr EINVAL, net)
            else (case sk_backlog s of
                    [] \<Rightarrow> if flags AND SOCK_NONBLOCK \<noteq> 0 then (AcceptErr EAGAIN, net)
                          else (AcceptWait (sk_wakes s), net)
                  | child # rest \<Rightarrow>
                      let net1 = set_socket i (s \<lparr> sk_backlog := rest \<rparr>) net in
                      if addr_ok = Some False then (AcceptErr EFAULT, net1)
                      else if fd_room then (Accepted child, net1)
                      else (AcceptErr EMFILE, drop_socket child net1)))"

text \<open>The address written for the peer.\<close>

definition peer_name :: "socket \<Rightarrow> ipv4_addr \<times> u16" where
  "peer_name s = (case sk_remote_addr s of Some a \<Rightarrow> a | None \<Rightarrow> LOCALHOST,
                  case sk_remote_port s of Some p \<Rightarrow> p | None \<Rightarrow> 0)"

definition sock_name :: "socket \<Rightarrow> ipv4_addr \<times> u16" where
  "sock_name s = (case sk_local_addr s of Some a \<Rightarrow> a | None \<Rightarrow> LOCALHOST,
                  case sk_local_port s of Some p \<Rightarrow> p | None \<Rightarrow> 0)"

section \<open>Writing\<close>

definition write_stream :: "net_send \<Rightarrow> nat \<Rightarrow> bytes \<Rightarrow> net_state \<Rightarrow> ((int + nat) \<times> net_state) option" where
  "write_stream send i data net =
     (case get_socket net i of
        None \<Rightarrow> Some (Inl (- 9), net)
      | Some s \<Rightarrow>
          if sk_state s \<noteq> Established \<and> sk_state s \<noteq> CloseWait then Some (Inl (- 32), net)
          else (case sk_remote_addr s of
                  None \<Rightarrow> Some (Inl (- 107), net)
                | Some remote_ip \<Rightarrow>
                    let (local_ip, local_port) = sock_name s;
                        remote_port = (case sk_remote_port s of Some p \<Rightarrow> p | None \<Rightarrow> 0);
                        payload = take 1460 data;
                        window = rcv_wnd_of (length (sk_recv_buf s))
                    in case build_tcp_packet (replicate 1500 0) local_ip remote_ip local_port remote_port
                              (sk_snd_nxt s) (sk_rcv_nxt s) (TCP_ACK OR TCP_PSH) window payload of
                         None \<Rightarrow> Some (Inl (- 5), net)
                       | Some (buf, n) \<Rightarrow>
                           map_option (\<lambda>(r, net'). case r of
                               Inl _ \<Rightarrow> (Inl (- 101), net')
                             | Inr _ \<Rightarrow> (Inr (length payload),
                                 upd_socket i (\<lambda>s. s \<lparr> sk_snd_nxt := sk_snd_nxt s + of_nat (length payload) \<rparr>) net'))
                             (send local_ip remote_ip PROTO_TCP (take n buf) net)))"

text \<open>A UDP datagram from a bound socket to an address, as \<open>write\<close> and \<open>sys_sendto\<close> build it.\<close>

definition send_datagram :: "net_send \<Rightarrow> socket \<Rightarrow> ipv4_addr \<Rightarrow> u16 \<Rightarrow> bytes \<Rightarrow> net_state \<Rightarrow> ((int + nat) \<times> net_state) option" where
  "send_datagram send s remote_ip remote_port data net =
     (case sock_name s of (local_ip, local_port) \<Rightarrow>
        (case build_datagram (replicate 2048 0) local_ip remote_ip local_port remote_port data of
           None \<Rightarrow> Some (Inl (- 22), net)
         | Some (buf, n) \<Rightarrow>
             map_option (\<lambda>(r, net'). (case r of Inl _ \<Rightarrow> Inl (- 101) | Inr _ \<Rightarrow> Inr (length data), net'))
               (send local_ip remote_ip PROTO_UDP (take n buf) net)))"

definition write_datagram :: "net_send \<Rightarrow> nat \<Rightarrow> bytes \<Rightarrow> net_state \<Rightarrow> ((int + nat) \<times> net_state) option" where
  "write_datagram send i data net =
     (case get_socket net i of
        None \<Rightarrow> Some (Inl (- 9), net)
      | Some s \<Rightarrow>
          (case (sk_remote_addr s, sk_remote_port s) of
             (Some remote_ip, Some remote_port) \<Rightarrow>
               let net1 = ensure_bound i remote_ip net in
               (case get_socket net1 i of
                  None \<Rightarrow> Some (Inl (- 9), net1)
                | Some s1 \<Rightarrow> send_datagram send s1 remote_ip remote_port data net1)
           | _ \<Rightarrow> Some (Inl (- 89), net)))"

definition socket_write :: "net_send \<Rightarrow> nat \<Rightarrow> bytes \<Rightarrow> net_state \<Rightarrow> ((int + nat) \<times> net_state) option" where
  "socket_write send i data net =
     (case get_socket net i of
        None \<Rightarrow> Some (Inl (- 9), net)
      | Some s \<Rightarrow>
          if sk_type s = 1 then write_stream send i data net
          else if sk_type s = 2 then write_datagram send i data net
          else Some (Inl (- 22), net))"

text \<open>\<open>sys_sendto\<close> of a socket, after the copy of the buffer and the checks of the destination address.\<close>

definition send_raw :: "net_send \<Rightarrow> socket \<Rightarrow> ipv4_addr \<Rightarrow> u8 \<Rightarrow> bytes \<Rightarrow> net_state \<Rightarrow> ((int + nat) \<times> net_state) option" where
  "send_raw send s remote_ip protocol data net =
     map_option (\<lambda>(r, net'). (case r of Inl _ \<Rightarrow> Inl (- 101) | Inr _ \<Rightarrow> Inr (length data), net'))
       (send (fst (sock_name s)) remote_ip protocol data net)"

definition sys_sendto :: "net_send \<Rightarrow> nat \<Rightarrow> bytes \<Rightarrow> (ipv4_addr \<times> u16) option \<Rightarrow> net_state \<Rightarrow> ((int + nat) \<times> net_state) option" where
  "sys_sendto send i data dest net =
     (if data = [] then Some (Inr 0, net)
      else
        case dest of
          None \<Rightarrow> socket_write send i data net
        | Some (remote_ip, remote_port) \<Rightarrow>
            let net1 = ensure_bound i remote_ip net in
            case get_socket net1 i of
              None \<Rightarrow> Some (Inl (- 9), net)
            | Some s \<Rightarrow>
                if sk_protocol s = 1 then send_raw send s remote_ip PROTO_ICMP data net1
                else if sk_type s = 2 then send_datagram send s remote_ip remote_port data net1
                else if sk_type s = 3 then send_raw send s remote_ip (word_of_int (sk_protocol s)) data net1
                else Some (Inl (- 22), net1))"

section \<open>Reading\<close>

text \<open>
  A datagram read, in \<open>read\<close> and in \<open>recvfrom_kernel\<close>, which adds the flags of the call and of the
  descriptor to the socket's; \<open>after_wait\<close> is the pass after its only wait.
\<close>

definition read_datagram :: "bool \<Rightarrow> bool \<Rightarrow> nat \<Rightarrow> socket \<Rightarrow> sock_read \<times> (ipv4_addr \<times> u16) option \<times> socket" where
  "read_datagram nonblock after_wait len s =
     (case sk_udp_recv_queue s of
        dg # q \<Rightarrow> (SockData (take len (dg_data dg)), Some (dg_src_addr dg, dg_src_port dg), s \<lparr> sk_udp_recv_queue := q \<rparr>)
      | [] \<Rightarrow>
          if sk_nonblocking s \<or> nonblock then (SockErr (- 11), None, s)
          else if after_wait then (SockData [], None, s)
          else (SockWait (sk_wakes s), None, s))"

text \<open>\<open>SocketInode::read\<close>: a stream read may send a window update.\<close>

definition socket_read :: "net_send \<Rightarrow> bool \<Rightarrow> nat \<Rightarrow> nat \<Rightarrow> net_state \<Rightarrow> (sock_read \<times> net_state) option" where
  "socket_read send after_wait i len net =
     (case get_socket net i of
        None \<Rightarrow> Some (SockErr (- 9), net)
      | Some s \<Rightarrow>
          if sk_type s = 1 then
            (case (if after_wait then stream_reread len s else stream_read len s) of (r, reply, s') \<Rightarrow>
               (case (reply, sk_local_addr s', sk_remote_addr s', sk_local_port s', sk_remote_port s') of
                  (Some (seq, ack, flags, wnd), Some local_ip, Some remote_ip, Some local_port, Some remote_port) \<Rightarrow>
                    map_option (Pair r)
                      (send_tcp send local_ip remote_ip local_port remote_port seq ack flags wnd (set_socket i s' net))
                | _ \<Rightarrow> Some (r, set_socket i s' net)))
          else if sk_type s = 2 \<or> sk_type s = 3 then
            (case read_datagram False after_wait len s of (r, _, s') \<Rightarrow> Some (r, set_socket i s' net))
          else Some (SockErr (- 22), net))"

text \<open>\<open>getsockopt\<close> of \<open>SO_ERROR\<close> reports the pending error and clears it; every other option reads 0.\<close>

definition sys_getsockopt :: "int \<Rightarrow> int \<Rightarrow> socket \<Rightarrow> int \<times> socket" where
  "sys_getsockopt level optname s =
     (if level = 1 \<and> optname = 4 then (sk_so_error s, s \<lparr> sk_so_error := 0 \<rparr>) else (0, s))"

text \<open>\<open>SocketInode::poll\<close>.\<close>

definition poll_bit :: "u32 \<Rightarrow> u32 \<Rightarrow> bool \<Rightarrow> u32" where
  "poll_bit events ev ready = (if events AND ev \<noteq> 0 \<and> ready then ev else 0)"

definition stream_poll :: "u32 \<Rightarrow> socket \<Rightarrow> u32" where
  "stream_poll events s =
     (case sk_state s of
        Established \<Rightarrow> poll_bit events POLLIN (sk_recv_buf s \<noteq> []) OR poll_bit events POLLOUT True
      | Listen \<Rightarrow> poll_bit events POLLIN (sk_backlog s \<noteq> [])
      | CloseWait \<Rightarrow> poll_bit events POLLIN True OR poll_bit events POLLOUT True
      | Closed \<Rightarrow>
          if sk_had_remote_addr s
          then POLLERR OR POLLHUP OR poll_bit events POLLOUT True OR poll_bit events POLLIN True
          else 0
      | _ \<Rightarrow> 0)"

definition socket_poll :: "u32 \<Rightarrow> socket \<Rightarrow> u32" where
  "socket_poll events s =
     (if sk_type s = 1 then stream_poll events s
      else if sk_type s = 2 \<or> sk_type s = 3
      then poll_bit events POLLIN (sk_udp_recv_queue s \<noteq> []) OR poll_bit events POLLOUT True
      else 0)"

section \<open>One segment over the loopback path\<close>

lemma segment_loopback:
  assumes "is_loopback dst" "length payload \<le> 2008"
  shows "send_packet_body send src dst PROTO_TCP (tcp_segment sport dport seq ack flags wnd c payload) net =
    map_option (Pair (Inr ())) (tcp_input send src dst sport dport seq ack (flags AND 0x1FF) payload (loop_prep src net))"
proof -
  have "length (tcp_segment sport dport seq ack flags wnd c payload) \<le> 2028"
    using assms(2) by (simp add: tcp_segment_def)
  note l = loopback_send [OF assms(1) this, of send src PROTO_TCP net]
  show ?thesis unfolding l by (simp add: ipv4_dispatch_def PROTO_TCP_def PROTO_ICMP_def PROTO_UDP_def tcp_handle_segment)
qed

lemma write_stream_loopback:
  assumes s: "get_socket net i = Some s" "sk_state s = Established"
    and ends: "sk_local_addr s = Some lip" "sk_local_port s = Some lport"
      "sk_remote_addr s = Some rip" "sk_remote_port s = Some rport"
    and lo: "is_loopback rip"
    and input: "tcp_input send lip rip lport rport (sk_snd_nxt s) (sk_rcv_nxt s) (TCP_ACK OR TCP_PSH) (take 1460 data)
      (loop_prep lip net) = Some net'"
  shows "write_stream (send_packet_body send) i data net =
    Some (Inr (min (length data) 1460),
      upd_socket i (\<lambda>s. s \<lparr> sk_snd_nxt := sk_snd_nxt s + of_nat (min (length data) 1460) \<rparr>) net')"
proof -
  let ?p = "take 1460 data"
  have f: "(TCP_ACK OR TCP_PSH) AND 0x1FF = TCP_ACK OR TCP_PSH" by (simp add: TCP_ACK_def TCP_PSH_def)
  have "20 + length ?p \<le> length (replicate 1500 (0 :: u8))" by simp
  then obtain buf' c where b: "build_tcp_packet (replicate 1500 0) lip rip lport rport (sk_snd_nxt s) (sk_rcv_nxt s)
        (TCP_ACK OR TCP_PSH) (rcv_wnd_of (length (sk_recv_buf s))) ?p = Some (buf', 20 + length ?p)"
    and t: "take (20 + length ?p) buf' = tcp_segment lport rport (sk_snd_nxt s) (sk_rcv_nxt s) (TCP_ACK OR TCP_PSH)
        (rcv_wnd_of (length (sk_recv_buf s))) c ?p"
    by (rule build_tcp_packet_bytes)
  have l: "length ?p \<le> 2008" by simp
  have n: "length ?p = min (length data) 1460" by simp
  show ?thesis
    unfolding write_stream_def s option.case sock_name_def ends prod.case Let_def b t segment_loopback [OF lo l] f input
    by (simp add: n)
qed

section \<open>What a segment does to a socket\<close>

text \<open>The part of a socket that data does not change.\<close>

definition same_ends :: "socket \<Rightarrow> socket \<Rightarrow> bool" where
  "same_ends s s' \<longleftrightarrow>
     sk_type s' = sk_type s \<and> sk_state s' = sk_state s \<and> sk_nonblocking s' = sk_nonblocking s \<and>
     sk_local_addr s' = sk_local_addr s \<and> sk_local_port s' = sk_local_port s \<and>
     sk_remote_addr s' = sk_remote_addr s \<and> sk_remote_port s' = sk_remote_port s"

lemma psh_flags:
  "has_flag (TCP_ACK OR TCP_PSH) TCP_ACK" "\<not> has_flag (TCP_ACK OR TCP_PSH) TCP_RST" "\<not> has_flag (TCP_ACK OR TCP_PSH) TCP_FIN"
  by (simp_all add: has_flag_def TCP_ACK_def TCP_PSH_def TCP_RST_def TCP_FIN_def)

lemma drain_empty: "sk_ooo s = [] \<Longrightarrow> drain_ooo s = s"
  by (subst drain_ooo.simps) (simp add: Let_def)

lemma in_order_segment:
  assumes "sk_state s = Established" "sk_ooo s = []" "payload \<noteq> []"
    and "length (sk_recv_buf s) + length payload \<le> TCP_MAX_RECV_BUF"
  obtains s' w where
    "process_segment s (sk_rcv_nxt s) ack (TCP_ACK OR TCP_PSH) payload = (s', Some (sk_snd_nxt s, sk_rcv_nxt s', TCP_ACK, w))"
    "same_ends s s'" "sk_recv_buf s' = sk_recv_buf s @ payload" "sk_rcv_nxt s' = sk_rcv_nxt s + of_nat (length payload)"
    "sk_ooo s' = []" "sk_snd_nxt s' = sk_snd_nxt s"
  using assms
  by (simp add: process_segment_def established_segment_def psh_flags accept_payload_def effective_segment_def
      drain_empty ack_reply_def note_window_def same_ends_def wake_epolls_def wake_waiters_def Let_def)

lemma empty_segment:
  assumes "sk_state s = Established" and f: "flags = TCP_ACK \<or> flags = TCP_ACK OR TCP_PSH"
  shows "process_segment s seq ack flags [] = (s \<lparr> sk_snd_una := ack \<rparr>, None)"
  using f assms(1)
  by (elim disjE) (simp_all add: process_segment_def established_segment_def psh_flags ack_flags note_window_def Let_def)

text \<open>Without room the payload is dropped and the old position acknowledged.\<close>

lemma overflow_segment:
  assumes "sk_state s = Established" "payload \<noteq> []"
    and "TCP_MAX_RECV_BUF < length (sk_recv_buf s) + length payload"
  obtains s' w where
    "process_segment s (sk_rcv_nxt s) ack (TCP_ACK OR TCP_PSH) payload = (s', Some (sk_snd_nxt s, sk_rcv_nxt s, TCP_ACK, w))"
    "same_ends s s'" "sk_recv_buf s' = sk_recv_buf s" "sk_rcv_nxt s' = sk_rcv_nxt s"
    "sk_ooo s' = sk_ooo s" "sk_snd_nxt s' = sk_snd_nxt s"
  using assms
  by (simp add: process_segment_def established_segment_def psh_flags accept_payload_def effective_segment_def
      ack_reply_def note_window_def same_ends_def Let_def)

section \<open>Connected pairs\<close>

text \<open>Two states of the stack with the same connections: data moved, but no end point changed.\<close>

definition same_conns :: "net_state \<Rightarrow> net_state \<Rightarrow> bool" where
  "same_conns net net' \<longleftrightarrow>
     net_registry net' = net_registry net \<and> (\<forall>j. rel_option same_ends (get_socket net j) (get_socket net' j))"

lemma same_ends_refl [simp]: "same_ends s s"
  by (simp add: same_ends_def)

lemma same_ends_trans: "same_ends s t \<Longrightarrow> same_ends t u \<Longrightarrow> same_ends s u"
  by (simp add: same_ends_def)

lemma rel_ends_refl [simp]: "rel_option same_ends x x"
  by (cases x) simp_all

lemma same_conns_refl: "same_conns net net"
  by (simp add: same_conns_def)

lemma same_conns_trans:
  assumes "same_conns net net1" "same_conns net1 net2"
  shows "same_conns net net2"
proof -
  have "rel_option same_ends (get_socket net j) (get_socket net2 j)" for j
    using assms unfolding same_conns_def
    by (cases "get_socket net j"; cases "get_socket net1 j"; cases "get_socket net2 j")
      (metis option.rel_inject(2) option.rel_distinct same_ends_trans rel_option_None1 option.rel_inject(1))+
  then show ?thesis using assms by (simp add: same_conns_def)
qed

lemma same_conns_simps [simp]:
  "same_conns net (loop_prep a net') = same_conns net net'"
  "same_conns net (wake_all_epolls net') = same_conns net net'"
  "same_conns (loop_prep a net) net' = same_conns net net'"
  by (simp_all add: same_conns_def)

lemma same_conns_set:
  "get_socket net i = Some s \<Longrightarrow> same_ends s s' \<Longrightarrow> same_conns net (set_socket i s' net)"
  by (simp add: same_conns_def get_socket_set)

lemma same_ends_endpoints: "same_ends s s' \<Longrightarrow> endpoints ip port rip rport s' = endpoints ip port rip rport s"
  by (simp add: same_ends_def endpoints_def bound_to_def)

lemma same_conns_find:
  assumes "same_conns net net'"
  shows "find_tcp_connection ip port rip rport net' = find_tcp_connection ip port rip rport net"
proof -
  have "(case get_socket net' i of Some s \<Rightarrow> endpoints ip port rip rport s | None \<Rightarrow> False) =
        (case get_socket net i of Some s \<Rightarrow> endpoints ip port rip rport s | None \<Rightarrow> False)" for i
  proof -
    have "rel_option same_ends (get_socket net i) (get_socket net' i)" using assms by (simp add: same_conns_def)
    then show ?thesis by (cases rule: option.rel_cases) (simp_all add: same_ends_endpoints)
  qed
  then show ?thesis using assms by (simp add: find_tcp_connection_endpoints find_socket_def same_conns_def)
qed

text \<open>One end of an established connection, with nothing queued out of order.\<close>

definition conn_end :: "ipv4_addr \<Rightarrow> u16 \<Rightarrow> ipv4_addr \<Rightarrow> u16 \<Rightarrow> socket \<Rightarrow> bool" where
  "conn_end lip lport rip rport s \<longleftrightarrow>
     sk_type s = 1 \<and> sk_state s = Established \<and> sk_ooo s = [] \<and>
     sk_local_addr s = Some lip \<and> sk_local_port s = Some lport \<and>
     sk_remote_addr s = Some rip \<and> sk_remote_port s = Some rport"

text \<open>Two sockets connected over the loopback path whose sequence numbers agree.\<close>

definition tcp_linked :: "net_state \<Rightarrow> nat \<Rightarrow> ipv4_addr \<Rightarrow> u16 \<Rightarrow> nat \<Rightarrow> ipv4_addr \<Rightarrow> u16 \<Rightarrow> bool" where
  "tcp_linked net a lip lport b rip rport \<longleftrightarrow>
     a \<noteq> b \<and> is_loopback lip \<and> is_loopback rip \<and>
     find_tcp_connection lip lport rip rport net = Some a \<and> find_tcp_connection rip rport lip lport net = Some b \<and>
     (\<exists>sa sb. get_socket net a = Some sa \<and> get_socket net b = Some sb \<and>
        conn_end lip lport rip rport sa \<and> conn_end rip rport lip lport sb \<and>
        sk_snd_nxt sa = sk_rcv_nxt sb \<and> sk_snd_nxt sb = sk_rcv_nxt sa)"

lemma tcp_linked_sym: "tcp_linked net a lip lport b rip rport = tcp_linked net b rip rport a lip lport"
  by (auto simp: tcp_linked_def)

definition recv_buf :: "net_state \<Rightarrow> nat \<Rightarrow> bytes" where
  "recv_buf net i = (case get_socket net i of Some s \<Rightarrow> sk_recv_buf s | None \<Rightarrow> [])"

lemma conn_end_same:
  "conn_end lip lport rip rport s \<Longrightarrow> same_ends s s' \<Longrightarrow> sk_ooo s' = [] \<Longrightarrow> conn_end lip lport rip rport s'"
  by (simp add: conn_end_def same_ends_def)

lemma tcp_linkedI:
  assumes "tcp_linked net a lip lport b rip rport" "same_conns net net'"
    and "get_socket net' a = Some sa" "get_socket net' b = Some sb" "sk_ooo sa = []" "sk_ooo sb = []"
    and "sk_snd_nxt sa = sk_rcv_nxt sb" "sk_snd_nxt sb = sk_rcv_nxt sa"
  shows "tcp_linked net' a lip lport b rip rport"
proof -
  obtain ta tb where t: "get_socket net a = Some ta" "get_socket net b = Some tb"
    "conn_end lip lport rip rport ta" "conn_end rip rport lip lport tb"
    using assms(1) unfolding tcp_linked_def by blast
  have "rel_option same_ends (get_socket net a) (get_socket net' a)" "rel_option same_ends (get_socket net b) (get_socket net' b)"
    using assms(2) by (simp_all add: same_conns_def)
  then have "conn_end lip lport rip rport sa" "conn_end rip rport lip lport sb"
    using t assms(3-6) conn_end_same by auto
  then show ?thesis
    using assms unfolding tcp_linked_def same_conns_find [OF assms(2)] by blast
qed

text \<open>A bare acknowledgement to an end changes only what it knows to be acknowledged.\<close>

lemma ack_to_end:
  assumes "find_tcp_connection dst dport src sport net = Some i" "get_socket net i = Some s"
    and "sk_state s = Established" "is_loopback dst"
  shows "send_tcp (send_packet_body send) src dst sport dport seq ack TCP_ACK wnd net =
    Some (wake_all_epolls (set_socket i (s \<lparr> sk_snd_una := ack \<rparr>) (loop_prep src net)))"
proof -
  have f: "find_tcp_connection dst dport src sport (loop_prep src net) = Some i"
    using assms(1) same_conns_find [of net "loop_prep src net"] by (simp add: same_conns_refl)
  have g: "get_socket (loop_prep src net) i = Some s" using assms(2) by simp
  show ?thesis
    using tcp_input_connection [OF f g empty_segment [OF assms(3)], of TCP_ACK]
    by (simp add: send_tcp_loopback [OF assms(4)] ack_flags)
qed

lemma segment_answered:
  assumes link: "tcp_linked net a lip lport b rip rport"
    and s: "get_socket net a = Some sa" "get_socket net b = Some sb"
    and p: "process_segment sb seq ack flags payload = (sb', Some (rseq, rack, TCP_ACK, w))" "same_ends sb sb'"
  obtains net' where
    "tcp_input (send_packet_body send) lip rip lport rport seq ack flags payload (loop_prep lip net) = Some net'"
    "get_socket net' a = Some (sa \<lparr> sk_snd_una := rack \<rparr>)" "get_socket net' b = Some sb'" "same_conns net net'"
proof -
  have ab: "a \<noteq> b" and lo: "is_loopback lip" and sa: "sk_state sa = Established"
    and f: "find_tcp_connection lip lport rip rport net = Some a" "find_tcp_connection rip rport lip lport net = Some b"
    using link s by (auto simp: tcp_linked_def conn_end_def)
  define net1 where "net1 = set_socket b sb' (loop_prep lip net)"
  have c1: "same_conns net net1"
    unfolding net1_def using same_conns_set [of "loop_prep lip net" b sb sb'] s(2) p(2) by simp
  have g1: "get_socket net1 a = Some sa" "get_socket net1 b = Some sb'"
    using s ab by (simp_all add: net1_def get_socket_set)
  have f1: "find_tcp_connection lip lport rip rport net1 = Some a"
    using f(1) same_conns_find [OF c1] by simp
  have fb: "find_tcp_connection rip rport lip lport (loop_prep lip net) = Some b"
    using f(2) same_conns_find [of net "loop_prep lip net"] by (simp add: same_conns_refl)
  have gb: "get_socket (loop_prep lip net) b = Some sb" using s(2) by simp
  define net2 where "net2 = set_socket a (sa \<lparr> sk_snd_una := rack \<rparr>) (loop_prep rip net1)"
  have "same_conns net1 net2"
    unfolding net2_def using same_conns_set [of "loop_prep rip net1" a sa] g1(1) by (simp add: same_ends_def)
  then have c2: "same_conns net net2" by (rule same_conns_trans [OF c1])
  have "get_socket net2 a = Some (sa \<lparr> sk_snd_una := rack \<rparr>)" "get_socket net2 b = Some sb'"
    using g1 ab by (simp_all add: net2_def get_socket_set)
  moreover have "tcp_input (send_packet_body send) lip rip lport rport seq ack flags payload (loop_prep lip net) =
      Some (wake_all_epolls (wake_all_epolls net2))"
    unfolding tcp_input_connection [OF fb gb p(1)] option.case prod.case net1_def [symmetric]
      ack_to_end [OF f1 g1(1) sa lo] net2_def by simp
  ultimately show ?thesis using that c2 by simp
qed

text \<open>The effect of a stream write that the peer answers.\<close>

lemma write_answered:
  assumes link: "tcp_linked net a lip lport b rip rport"
    and s: "get_socket net a = Some sa" "get_socket net b = Some sb"
    and p: "process_segment sb (sk_snd_nxt sa) (sk_rcv_nxt sa) (TCP_ACK OR TCP_PSH) (take 1460 data) =
      (sb', Some (rseq, rack, TCP_ACK, w))" "same_ends sb sb'"
  obtains net' where
    "write_stream (send_packet_body (send_packet_body send)) a data net = Some (Inr (min (length data) 1460), net')"
    "get_socket net' a = Some (sa \<lparr> sk_snd_una := rack, sk_snd_nxt := sk_snd_nxt sa + of_nat (min (length data) 1460) \<rparr>)"
    "get_socket net' b = Some sb'" "same_conns net net'"
proof -
  let ?n = "of_nat (min (length data) 1460)"
  have e: "sk_local_addr sa = Some lip" "sk_local_port sa = Some lport" "sk_remote_addr sa = Some rip"
    "sk_remote_port sa = Some rport" "sk_state sa = Established" "is_loopback rip" "a \<noteq> b"
    using link s by (auto simp: tcp_linked_def conn_end_def)
  obtain net1 where i: "tcp_input (send_packet_body send) lip rip lport rport (sk_snd_nxt sa) (sk_rcv_nxt sa)
        (TCP_ACK OR TCP_PSH) (take 1460 data) (loop_prep lip net) = Some net1"
    and g: "get_socket net1 a = Some (sa \<lparr> sk_snd_una := rack \<rparr>)" "get_socket net1 b = Some sb'" "same_conns net net1"
    by (rule segment_answered [OF link s p])
  define net2 where "net2 = upd_socket a (\<lambda>s. s \<lparr> sk_snd_nxt := sk_snd_nxt s + ?n \<rparr>) net1"
  have "net2 = set_socket a (sa \<lparr> sk_snd_una := rack, sk_snd_nxt := sk_snd_nxt sa + ?n \<rparr>) net1"
    by (simp add: net2_def upd_socket_def g(1))
  then have "same_conns net1 net2" using same_conns_set [OF g(1)] by (simp add: same_ends_def)
  then have "same_conns net net2" by (rule same_conns_trans [OF g(3)])
  moreover have "get_socket net2 a = Some (sa \<lparr> sk_snd_una := rack, sk_snd_nxt := sk_snd_nxt sa + ?n \<rparr>)"
    "get_socket net2 b = Some sb'"
    using g e(7) by (simp_all add: net2_def get_socket_upd)
  ultimately show ?thesis
    using that write_stream_loopback [OF s(1) e(5,1-4,6) i] by (simp add: net2_def)
qed

text \<open>Room in the peer's buffer: the bytes arrive before the write returns.\<close>

lemma write_delivers:
  assumes link: "tcp_linked net a lip lport b rip rport" and data: "data \<noteq> []"
    and room: "length (recv_buf net b) + min (length data) 1460 \<le> TCP_MAX_RECV_BUF"
  obtains net' where
    "write_stream (send_packet_body (send_packet_body send)) a data net = Some (Inr (min (length data) 1460), net')"
    "tcp_linked net' a lip lport b rip rport" "same_conns net net'"
    "recv_buf net' b = recv_buf net b @ take 1460 data" "recv_buf net' a = recv_buf net a"
proof -
  obtain sa sb where s: "get_socket net a = Some sa" "get_socket net b = Some sb"
    and e: "sk_state sb = Established" "sk_ooo sa = []" "sk_ooo sb = []" "sk_snd_nxt sa = sk_rcv_nxt sb" "sk_snd_nxt sb = sk_rcv_nxt sa"
    using link by (auto simp: tcp_linked_def conn_end_def)
  have p: "take 1460 data \<noteq> []" "length (sk_recv_buf sb) + length (take 1460 data) \<le> TCP_MAX_RECV_BUF"
    using data room s(2) by (simp_all add: recv_buf_def min.commute)
  obtain sb' w where q: "process_segment sb (sk_snd_nxt sa) (sk_rcv_nxt sa) (TCP_ACK OR TCP_PSH) (take 1460 data) =
        (sb', Some (sk_snd_nxt sb, sk_rcv_nxt sb', TCP_ACK, w))" "same_ends sb sb'"
    and b: "sk_recv_buf sb' = sk_recv_buf sb @ take 1460 data" "sk_rcv_nxt sb' = sk_rcv_nxt sb + of_nat (length (take 1460 data))"
      "sk_ooo sb' = []" "sk_snd_nxt sb' = sk_snd_nxt sb"
    using in_order_segment [OF e(1,3) p, of "sk_rcv_nxt sa"] unfolding e(4) by metis
  obtain net' where w: "write_stream (send_packet_body (send_packet_body send)) a data net = Some (Inr (min (length data) 1460), net')"
    and g: "get_socket net' a = Some (sa \<lparr> sk_snd_una := sk_rcv_nxt sb', sk_snd_nxt := sk_snd_nxt sa + of_nat (min (length data) 1460) \<rparr>)"
      "get_socket net' b = Some sb'" "same_conns net net'"
    by (rule write_answered [OF link s q])
  have "tcp_linked net' a lip lport b rip rport"
    by (rule tcp_linkedI [OF link g(3,1,2)]) (simp_all add: b e)
  then show ?thesis using that w g s b(1) by (simp add: recv_buf_def)
qed

lemma write_nothing:
  assumes link: "tcp_linked net a lip lport b rip rport"
  obtains net' where "write_stream (send_packet_body send) a [] net = Some (Inr 0, net')"
    "tcp_linked net' a lip lport b rip rport" "same_conns net net'"
    "recv_buf net' b = recv_buf net b" "recv_buf net' a = recv_buf net a"
proof -
  obtain sa sb where s: "get_socket net a = Some sa" "get_socket net b = Some sb"
    and e: "sk_local_addr sa = Some lip" "sk_local_port sa = Some lport" "sk_remote_addr sa = Some rip"
      "sk_remote_port sa = Some rport" "sk_state sa = Established" "is_loopback rip" "a \<noteq> b"
    and l: "sk_state sb = Established" "sk_ooo sa = []" "sk_ooo sb = []" "sk_snd_nxt sa = sk_rcv_nxt sb" "sk_snd_nxt sb = sk_rcv_nxt sa"
    and f: "find_tcp_connection rip rport lip lport net = Some b"
    using link by (auto simp: tcp_linked_def conn_end_def)
  define net1 where "net1 = set_socket b (sb \<lparr> sk_snd_una := sk_rcv_nxt sa \<rparr>) (loop_prep lip net)"
  have fb: "find_tcp_connection rip rport lip lport (loop_prep lip net) = Some b"
    using f same_conns_find [of net "loop_prep lip net"] by (simp add: same_conns_refl)
  have gb: "get_socket (loop_prep lip net) b = Some sb" using s(2) by simp
  have i: "tcp_input send lip rip lport rport (sk_snd_nxt sa) (sk_rcv_nxt sa) (TCP_ACK OR TCP_PSH) (take 1460 [])
      (loop_prep lip net) = Some (wake_all_epolls net1)"
    using tcp_input_connection [OF fb gb empty_segment [OF l(1)], of "TCP_ACK OR TCP_PSH"] by (simp add: net1_def)
  have g: "get_socket net1 a = Some sa" "get_socket net1 b = Some (sb \<lparr> sk_snd_una := sk_rcv_nxt sa \<rparr>)"
    using s e(7) by (simp_all add: net1_def get_socket_set)
  have c: "same_conns net net1"
    unfolding net1_def using same_conns_set [of "loop_prep lip net" b sb] s(2) by (simp add: same_ends_def)
  define net2 where "net2 = upd_socket a (\<lambda>s. s \<lparr> sk_snd_nxt := sk_snd_nxt s + of_nat (min (length ([] :: bytes)) 1460) \<rparr>) (wake_all_epolls net1)"
  have g2: "get_socket net2 a = Some sa" "get_socket net2 b = Some (sb \<lparr> sk_snd_una := sk_rcv_nxt sa \<rparr>)"
    using g e(7) by (simp_all add: net2_def get_socket_upd)
  have "net2 = set_socket a sa (wake_all_epolls net1)" by (simp add: net2_def upd_socket_def g)
  then have "same_conns net1 net2" using same_conns_set [of "wake_all_epolls net1" a sa sa] g(1) by (simp add: same_conns_def)
  then have c2: "same_conns net net2" by (rule same_conns_trans [OF c])
  have "tcp_linked net2 a lip lport b rip rport" by (rule tcp_linkedI [OF link c2 g2]) (simp_all add: l)
  then show ?thesis
    using that [of net2] write_stream_loopback [OF s(1) e(5,1-4,6) i] c2 g2 s by (simp add: recv_buf_def net2_def)
qed

text \<open>A read takes the front of the buffer; its window update is absorbed by the peer.\<close>

lemma stream_take_cases:
  assumes "sk_recv_buf s \<noteq> []"
  obtains s' reply where "stream_take len s = (SockData (take len (sk_recv_buf s)), reply, s')"
    "same_ends s s'" "sk_recv_buf s' = drop len (sk_recv_buf s)" "sk_ooo s' = sk_ooo s"
    "sk_snd_nxt s' = sk_snd_nxt s" "sk_rcv_nxt s' = sk_rcv_nxt s"
    "reply = None \<or> (\<exists>w. reply = Some (sk_snd_nxt s, sk_rcv_nxt s, TCP_ACK, w))"
proof -
  let ?b = "sk_recv_buf s"
  have m: "take (min len (length ?b)) ?b = take len ?b" "drop (min len (length ?b)) ?b = drop len ?b"
    by (simp_all add: min_def)
  show ?thesis
  proof (cases "0 < min len (length ?b)")
    case True
    let ?w = "rcv_wnd_of (length (drop len ?b))"
    define s1 where "s1 = s \<lparr> sk_recv_buf := drop len ?b \<rparr>"
    define s2 where "s2 = s1 \<lparr> sk_rcv_wnd := ?w \<rparr>"
    define full where "full \<longleftrightarrow> sk_local_addr s \<noteq> None \<and> sk_remote_addr s \<noteq> None \<and> sk_local_port s \<noteq> None \<and> sk_remote_port s \<noteq> None"
    have x: "stream_take len s = (if window_update s1 ?w \<and> sk_state s = Established
        then if full then (SockData (take len ?b), Some (sk_snd_nxt s, sk_rcv_nxt s, TCP_ACK, ?w), s2)
             else (SockData (take len ?b), None, s2)
        else (SockData (take len ?b), None, s1))"
      using True unfolding stream_take_def Let_def m s2_def s1_def full_def by simp
    have f: "same_ends s s1" "sk_recv_buf s1 = drop len ?b" "sk_ooo s1 = sk_ooo s" "sk_snd_nxt s1 = sk_snd_nxt s" "sk_rcv_nxt s1 = sk_rcv_nxt s"
      "same_ends s s2" "sk_recv_buf s2 = drop len ?b" "sk_ooo s2 = sk_ooo s" "sk_snd_nxt s2 = sk_snd_nxt s" "sk_rcv_nxt s2 = sk_rcv_nxt s"
      by (simp_all add: s1_def s2_def same_ends_def)
    show ?thesis
    proof (cases "window_update s1 ?w \<and> sk_state s = Established")
      case upd: True
      show ?thesis
      proof (cases full)
        case True
        show ?thesis by (rule that [of "Some (sk_snd_nxt s, sk_rcv_nxt s, TCP_ACK, ?w)" s2]) (use upd True in \<open>simp_all add: x f\<close>)
      next
        case False
        show ?thesis by (rule that [of None s2]) (use upd False in \<open>simp_all add: x f\<close>)
      qed
    next
      case False
      show ?thesis by (rule that [of None s1]) (use False in \<open>simp_all only: x f if_False simp_thms\<close>)
    qed
  next
    case False
    then have "len = 0" using assms by simp
    then show ?thesis using that [of None s] by (simp add: stream_take_def)
  qed
qed

lemma read_takes:
  assumes link: "tcp_linked net a lip lport b rip rport" and data: "recv_buf net a \<noteq> []"
  obtains net' where "socket_read (send_packet_body send) False a len net = Some (SockData (take len (recv_buf net a)), net')"
    "tcp_linked net' a lip lport b rip rport" "same_conns net net'"
    "recv_buf net' a = drop len (recv_buf net a)" "recv_buf net' b = recv_buf net b"
proof -
  obtain sa sb where s: "get_socket net a = Some sa" "get_socket net b = Some sb"
    and e: "sk_local_addr sa = Some lip" "sk_local_port sa = Some lport" "sk_remote_addr sa = Some rip"
      "sk_remote_port sa = Some rport" "sk_state sa = Established" "sk_type sa = 1" "is_loopback rip" "a \<noteq> b"
    and l: "sk_state sb = Established" "sk_ooo sa = []" "sk_ooo sb = []" "sk_snd_nxt sa = sk_rcv_nxt sb" "sk_snd_nxt sb = sk_rcv_nxt sa"
    and f: "find_tcp_connection rip rport lip lport net = Some b"
    using link by (auto simp: tcp_linked_def conn_end_def)
  have d: "sk_recv_buf sa \<noteq> []" and rb: "recv_buf net a = sk_recv_buf sa" using data s by (simp_all add: recv_buf_def)
  obtain sa' reply where t: "stream_take len sa = (SockData (take len (sk_recv_buf sa)), reply, sa')"
    and r: "same_ends sa sa'" "sk_recv_buf sa' = drop len (sk_recv_buf sa)" "sk_ooo sa' = sk_ooo sa"
      "sk_snd_nxt sa' = sk_snd_nxt sa" "sk_rcv_nxt sa' = sk_rcv_nxt sa"
      "reply = None \<or> (\<exists>w. reply = Some (sk_snd_nxt sa, sk_rcv_nxt sa, TCP_ACK, w))"
    by (rule stream_take_cases [OF d])
  have ends: "sk_local_addr sa' = Some lip" "sk_local_port sa' = Some lport" "sk_remote_addr sa' = Some rip" "sk_remote_port sa' = Some rport"
    using r(1) e by (simp_all add: same_ends_def)
  define net1 where "net1 = set_socket a sa' net"
  have c1: "same_conns net net1" unfolding net1_def by (rule same_conns_set [OF s(1) r(1)])
  have g1: "get_socket net1 a = Some sa'" "get_socket net1 b = Some sb" using s e(8) by (simp_all add: net1_def get_socket_set)
  have f1: "find_tcp_connection rip rport lip lport net1 = Some b" using f same_conns_find [OF c1] by simp
  have sr: "stream_read len sa = (SockData (take len (sk_recv_buf sa)), reply, sa')" by (simp add: stream_read_def e d t)
  define net2 where "net2 = (if reply = None then net1
    else wake_all_epolls (set_socket b (sb \<lparr> sk_snd_una := sk_rcv_nxt sa \<rparr>) (loop_prep lip net1)))"
  have "socket_read (send_packet_body send) False a len net = Some (SockData (take len (sk_recv_buf sa)), net2)"
    using r(6) ack_to_end [OF f1 g1(2) l(1) e(7)]
    by (auto simp: socket_read_def s e sr ends net2_def net1_def)
  moreover have g2: "\<exists>u. get_socket net2 b = Some (sb \<lparr> sk_snd_una := u \<rparr>)" "get_socket net2 a = Some sa'"
    using g1 e(8) by (auto simp: net2_def get_socket_set intro: exI [of _ "sk_snd_una sb"])
  moreover have "same_conns net1 net2"
    using same_conns_set [of "loop_prep lip net1" b sb] g1(2) by (simp add: net2_def same_conns_refl same_ends_def)
  then have c2: "same_conns net net2" by (rule same_conns_trans [OF c1])
  moreover have "tcp_linked net2 a lip lport b rip rport"
    using g2(1) by (elim exE) (rule tcp_linkedI [OF link c2 g2(2)], assumption, simp_all add: l r)
  ultimately show ?thesis using that rb s r(2) by (auto simp: recv_buf_def)
qed

section \<open>A connection is a pair of byte queues\<close>

text \<open>Calls of the two users of a connection, and what they see.\<close>

datatype conn_op = Send nat bytes | Recv nat nat

datatype conn_seen = Sent nat | Got bytes | Blocked | Failed int

definition conn_step :: "net_send \<Rightarrow> conn_op \<Rightarrow> net_state \<Rightarrow> (conn_seen \<times> net_state) option" where
  "conn_step send act net =
     (case act of
        Send i data \<Rightarrow>
          map_option (\<lambda>(r, net'). (case r of Inr n \<Rightarrow> Sent n | Inl e \<Rightarrow> Failed e, net')) (socket_write send i data net)
      | Recv i len \<Rightarrow>
          map_option (\<lambda>(r, net').
              (case r of SockData d \<Rightarrow> Got d | SockWait _ \<Rightarrow> Blocked | SockErr e \<Rightarrow> if e = - 11 then Blocked else Failed e, net'))
            (socket_read send False i len net))"

fun conn_run :: "net_send \<Rightarrow> conn_op list \<Rightarrow> net_state \<Rightarrow> (conn_seen list \<times> net_state) option" where
  "conn_run send [] net = Some ([], net)"
| "conn_run send (act # acts) net = do {
     (r, net1) \<leftarrow> conn_step send act net;
     (rs, net2) \<leftarrow> conn_run send acts net1;
     Some (r # rs, net2) }"

text \<open>
  The specification: the bytes on their way to each end are a queue. A write appends one segment's worth
  to the queue of the other end, a read removes from the front of its own. It has no answer for a write
  that does not fit.
\<close>

definition queue_step :: "nat \<Rightarrow> nat \<Rightarrow> conn_op \<Rightarrow> (nat \<Rightarrow> bytes) \<Rightarrow> (conn_seen \<times> (nat \<Rightarrow> bytes)) option" where
  "queue_step a b act q =
     (case act of
        Send i data \<Rightarrow>
          let peer = (if i = a then b else a) in
          if (i = a \<or> i = b) \<and> length (q peer) + min (length data) 1460 \<le> TCP_MAX_RECV_BUF
          then Some (Sent (min (length data) 1460), q(peer := q peer @ take 1460 data)) else None
      | Recv i len \<Rightarrow>
          if i = a \<or> i = b then
            if q i = [] then Some (Blocked, q) else Some (Got (take len (q i)), q(i := drop len (q i)))
          else None)"

fun queue_run :: "nat \<Rightarrow> nat \<Rightarrow> conn_op list \<Rightarrow> (nat \<Rightarrow> bytes) \<Rightarrow> (conn_seen list \<times> (nat \<Rightarrow> bytes)) option" where
  "queue_run a b [] q = Some ([], q)"
| "queue_run a b (act # acts) q = do {
     (r, q1) \<leftarrow> queue_step a b act q;
     (rs, q2) \<leftarrow> queue_run a b acts q1;
     Some (r # rs, q2) }"

text \<open>The coupling of the two: the queues are the receive buffers.\<close>

definition coupled :: "net_state \<Rightarrow> nat \<Rightarrow> ipv4_addr \<Rightarrow> u16 \<Rightarrow> nat \<Rightarrow> ipv4_addr \<Rightarrow> u16 \<Rightarrow> (nat \<Rightarrow> bytes) \<Rightarrow> bool" where
  "coupled net a lip lport b rip rport q \<longleftrightarrow>
     tcp_linked net a lip lport b rip rport \<and> q a = recv_buf net a \<and> q b = recv_buf net b"

lemma coupled_sym: "coupled net a lip lport b rip rport q = coupled net b rip rport a lip lport q"
  by (auto simp: coupled_def tcp_linked_sym)

lemma coupled_type:
  "tcp_linked net a lip lport b rip rport \<Longrightarrow>
     \<exists>sa. get_socket net a = Some sa \<and> sk_type sa = 1 \<and> sk_state sa = Established \<and> sk_recv_buf sa = recv_buf net a"
  by (auto simp: tcp_linked_def conn_end_def recv_buf_def)

lemma send_refines:
  assumes c: "coupled net a lip lport b rip rport q"
    and room: "length (q b) + min (length data) 1460 \<le> TCP_MAX_RECV_BUF"
  shows "\<exists>net'. conn_step (send_packet_body (send_packet_body send)) (Send a data) net = Some (Sent (min (length data) 1460), net') \<and>
    coupled net' a lip lport b rip rport (q(b := q b @ take 1460 data))"
proof -
  have link: "tcp_linked net a lip lport b rip rport" and q: "q a = recv_buf net a" "q b = recv_buf net b"
    using c by (simp_all add: coupled_def)
  have ab: "a \<noteq> b" using link by (simp add: tcp_linked_def)
  obtain net' where w: "write_stream (send_packet_body (send_packet_body send)) a data net = Some (Inr (min (length data) 1460), net')"
    and l: "tcp_linked net' a lip lport b rip rport"
    and r: "recv_buf net' b = recv_buf net b @ take 1460 data" "recv_buf net' a = recv_buf net a"
  proof (cases "data = []")
    case True
    obtain n where n: "write_stream (send_packet_body (send_packet_body send)) a [] net = Some (Inr 0, n)"
      "tcp_linked n a lip lport b rip rport" "recv_buf n b = recv_buf net b" "recv_buf n a = recv_buf net a"
      by (rule write_nothing [OF link])
    show ?thesis by (rule that [of n]) (use n True in simp_all)
  next
    case False
    show ?thesis by (rule write_delivers [OF link False, of send]) (use room q that in simp_all)
  qed
  have "coupled net' a lip lport b rip rport (q(b := q b @ take 1460 data))"
    using l r q ab by (simp add: coupled_def)
  then show ?thesis using coupled_type [OF link] w by (auto simp: conn_step_def socket_write_def)
qed

lemma recv_refines:
  assumes c: "coupled net a lip lport b rip rport q"
  shows "\<exists>net'. conn_step (send_packet_body send) (Recv a len) net =
      Some (if q a = [] then Blocked else Got (take len (q a)), net') \<and>
    coupled net' a lip lport b rip rport (if q a = [] then q else q(a := drop len (q a)))"
proof -
  have link: "tcp_linked net a lip lport b rip rport" and q: "q a = recv_buf net a" "q b = recv_buf net b"
    using c by (simp_all add: coupled_def)
  have ab: "a \<noteq> b" using link by (simp add: tcp_linked_def)
  obtain sa where sa: "get_socket net a = Some sa" "sk_type sa = 1" "sk_state sa = Established" "sk_recv_buf sa = recv_buf net a"
    using coupled_type [OF link] by blast
  show ?thesis
  proof (cases "recv_buf net a = []")
    case True
    have "set_socket a sa net = net" using sa(1) by (cases net) (auto simp: set_socket_def get_socket_def split: if_splits)
    then have "socket_read (send_packet_body send) False a len net =
        Some (if sk_nonblocking sa then SockErr (- 11) else SockWait (sk_wakes sa), net)"
      using sa True by (simp add: socket_read_def stream_read_def)
    then show ?thesis using c True q by (simp add: conn_step_def)
  next
    case False
    obtain net' where r: "socket_read (send_packet_body send) False a len net = Some (SockData (take len (recv_buf net a)), net')"
      and l: "tcp_linked net' a lip lport b rip rport"
      and b: "recv_buf net' a = drop len (recv_buf net a)" "recv_buf net' b = recv_buf net b"
      by (rule read_takes [OF link False])
    have "coupled net' a lip lport b rip rport (q(a := drop len (q a)))" using l b q ab by (simp add: coupled_def)
    then show ?thesis using r q False by (simp add: conn_step_def)
  qed
qed

lemma step_refines:
  assumes c: "coupled net a lip lport b rip rport q" and s: "queue_step a b act q = Some (r, q')"
  shows "\<exists>net'. conn_step (send_packet_body (send_packet_body send)) act net = Some (r, net') \<and>
    coupled net' a lip lport b rip rport q'"
proof -
  have ab: "a \<noteq> b" using c by (simp add: coupled_def tcp_linked_def)
  note c' = c [unfolded coupled_sym [of net a]]
  show ?thesis
  proof (cases act)
    case (Send i data)
    then consider "i = a" "length (q b) + min (length data) 1460 \<le> TCP_MAX_RECV_BUF" "r = Sent (min (length data) 1460)" "q' = q(b := q b @ take 1460 data)"
      | "i = b" "length (q a) + min (length data) 1460 \<le> TCP_MAX_RECV_BUF" "r = Sent (min (length data) 1460)" "q' = q(a := q a @ take 1460 data)"
      using s ab by (auto simp: queue_step_def Let_def split: if_splits)
    then show ?thesis
    proof cases
      case 1
      show ?thesis using send_refines [OF c 1(2)] unfolding Send 1 .
    next
      case 2
      show ?thesis using send_refines [OF c' 2(2)] unfolding Send 2 coupled_sym [of _ b] .
    qed
  next
    case (Recv i len)
    have i: "i = a \<or> i = b"
      and r: "r = (if q i = [] then Blocked else Got (take len (q i)))" "q' = (if q i = [] then q else q(i := drop len (q i)))"
      using s unfolding Recv queue_step_def conn_op.case by (simp_all split: if_splits)
    show ?thesis
    proof (cases "i = a")
      case True
      show ?thesis using recv_refines [OF c] unfolding Recv r True .
    next
      case False
      then have "i = b" using i by simp
      show ?thesis using recv_refines [OF c'] unfolding Recv r \<open>i = b\<close> coupled_sym [of _ b] .
    qed
  qed
qed

text \<open>Two connected sockets, the second with the given bytes in its buffer.\<close>

definition sample_end :: "u16 \<Rightarrow> u16 \<Rightarrow> bytes \<Rightarrow> socket" where
  "sample_end lport rport buf = (socket_new 2 1 0)
     \<lparr> sk_local_addr := Some LOCALHOST, sk_local_port := Some lport, sk_remote_addr := Some LOCALHOST,
       sk_remote_port := Some rport, sk_state := Established, sk_recv_buf := buf \<rparr>"

definition sample_pair :: "bytes \<Rightarrow> net_state" where
  "sample_pair buf = net_init \<lparr> net_sockets := [sample_end 5000 80 [], sample_end 80 5000 buf], net_registry := [0, 1] \<rparr>"

lemmas sample_defs = sample_end_def sample_pair_def net_init_def socket_new_def get_socket_def LOCALHOST_def

lemma sample_linked: "tcp_linked (sample_pair buf) 0 LOCALHOST 5000 1 LOCALHOST 80"
  by (simp add: tcp_linked_def conn_end_def find_tcp_connection_def find_socket_def bound_to_def sample_defs)

lemma sample_bufs: "recv_buf (sample_pair buf) 0 = []" "recv_buf (sample_pair buf) (Suc 0) = buf"
  by (simp_all add: recv_buf_def sample_defs)

lemma sample_coupled: "coupled (sample_pair buf) 0 LOCALHOST 5000 1 LOCALHOST 80 ((\<lambda>_. [])(1 := buf))"
  using sample_linked by (simp add: coupled_def sample_bufs)

text \<open>
  C1. A connection over the loopback path implements a pair of byte queues. Take any sequence of
  writes and reads by its two ends, in any interleaving: whatever the queue specification answers
  to every call (a write appends up to 1460 bytes to the other end's queue, a read removes the
  front of its own or blocks), the socket calls return the same answers, and the connection is
  again in agreement with the specification.
\<close>

theorem tcp_connection_refines_queues:
  assumes "coupled net a lip lport b rip rport q" "queue_run a b acts q = Some (rs, q')"
  shows "\<exists>net'. conn_run (send_packet 4) acts net = Some (rs, net') \<and> coupled net' a lip lport b rip rport q'"
  using assms
proof (induction acts arbitrary: net q rs)
  case (Cons act acts)
  obtain r q1 rs1 where s: "queue_step a b act q = Some (r, q1)" "queue_run a b acts q1 = Some (rs1, q')" "rs = r # rs1"
    using Cons.prems(2) by (auto simp: bind_eq_Some_conv)
  have e: "send_packet 4 = send_packet_body (send_packet_body (send_packet 2))" by (simp add: eval_nat_numeral)
  obtain net1 where n: "conn_step (send_packet 4) act net = Some (r, net1)" "coupled net1 a lip lport b rip rport q1"
    using step_refines [OF Cons.prems(1) s(1), of "send_packet 2"] unfolding e by blast
  show ?case using Cons.IH [OF n(2) s(2)] n(1) s(3) by auto
qed simp

theorem tcp_connection_refines_queues_witness:
  "\<exists>net' q'. conn_run (send_packet 4) [Send 0 [1, 2, 3], Recv 1 2, Recv 0 5, Send 1 [9], Recv 0 5] (sample_pair []) =
      Some ([Sent 3, Got [1, 2], Blocked, Sent 1, Got [9]], net') \<and>
    coupled net' 0 LOCALHOST 5000 1 LOCALHOST 80 q'"
proof -
  let ?acts = "[Send 0 [1, 2, 3], Recv 1 2, Recv 0 5, Send 1 [9], Recv 0 5]"
  have "queue_run 0 1 ?acts ((\<lambda>_. [])(1 := [])) =
      Some ([Sent 3, Got [1, 2], Blocked, Sent 1, Got [9]], (\<lambda>_. [])(1 := [3], 0 := []))"
    by (simp add: queue_step_def TCP_MAX_RECV_BUF_def fun_eq_iff)
  from tcp_connection_refines_queues [OF sample_coupled this] show ?thesis by blast
qed

text \<open>
  C34. A write ignores the peer's window. When the peer's buffer has no room for the segment, the write
  still reports every byte as sent and moves its sequence number past them, while the peer has neither
  stored nor queued them and still expects the old position. Nothing keeps the bytes for a
  retransmission.
\<close>

theorem write_loses_data:
  assumes link: "tcp_linked net a lip lport b rip rport" and data: "data \<noteq> []"
    and full: "TCP_MAX_RECV_BUF < length (recv_buf net b) + min (length data) 1460"
  shows "\<exists>net' sa sb. socket_write (send_packet 4) a data net = Some (Inr (min (length data) 1460), net') \<and>
    get_socket net' a = Some sa \<and> get_socket net' b = Some sb \<and>
    sk_recv_buf sb = recv_buf net b \<and> sk_ooo sb = [] \<and>
    sk_snd_nxt sa = sk_rcv_nxt sb + of_nat (min (length data) 1460)"
proof -
  obtain sa sb where s: "get_socket net a = Some sa" "get_socket net b = Some sb" "sk_type sa = 1"
    and e: "sk_state sb = Established" "sk_ooo sb = []" "sk_snd_nxt sa = sk_rcv_nxt sb"
    using link by (auto simp: tcp_linked_def conn_end_def)
  have p: "take 1460 data \<noteq> []" "TCP_MAX_RECV_BUF < length (sk_recv_buf sb) + length (take 1460 data)"
    using data full s(2) by (simp_all add: recv_buf_def min.commute)
  obtain sb' w where q: "process_segment sb (sk_snd_nxt sa) (sk_rcv_nxt sa) (TCP_ACK OR TCP_PSH) (take 1460 data) =
        (sb', Some (sk_snd_nxt sb, sk_rcv_nxt sb, TCP_ACK, w))" "same_ends sb sb'"
    and b: "sk_recv_buf sb' = sk_recv_buf sb" "sk_rcv_nxt sb' = sk_rcv_nxt sb" "sk_ooo sb' = sk_ooo sb"
    using overflow_segment [OF e(1) p, of "sk_rcv_nxt sa"] unfolding e(3) by metis
  have f: "send_packet 4 = send_packet_body (send_packet_body (send_packet 2))" by (simp add: eval_nat_numeral)
  obtain net' where w: "write_stream (send_packet 4) a data net = Some (Inr (min (length data) 1460), net')"
    and g: "get_socket net' a = Some (sa \<lparr> sk_snd_una := sk_rcv_nxt sb, sk_snd_nxt := sk_snd_nxt sa + of_nat (min (length data) 1460) \<rparr>)"
      "get_socket net' b = Some sb'" "same_conns net net'"
    unfolding f by (rule write_answered [OF link s(1,2) q])
  then show ?thesis using s e b by (simp add: socket_write_def recv_buf_def)
qed

theorem write_loses_data_witness:
  "\<exists>net' sa sb. socket_write (send_packet 4) 0 [7] (sample_pair (replicate TCP_MAX_RECV_BUF 0)) = Some (Inr 1, net') \<and>
    get_socket net' 0 = Some sa \<and> get_socket net' 1 = Some sb \<and> sk_snd_nxt sa = sk_rcv_nxt sb + 1"
  using write_loses_data [OF sample_linked, of "[7]" "replicate TCP_MAX_RECV_BUF 0"] by (auto simp: sample_bufs)

section \<open>Opening a connection\<close>

definition holds_at :: "(socket \<Rightarrow> bool) \<Rightarrow> net_state \<Rightarrow> nat \<Rightarrow> bool" where
  "holds_at P net j = (case get_socket net j of Some s \<Rightarrow> P s | None \<Rightarrow> False)"

lemma find_append:
  assumes "net_registry net' = net_registry net @ ks" "\<And>j. j \<in> set (net_registry net) \<Longrightarrow> holds_at P net' j = holds_at P net j"
  shows "find_socket P net' =
    (case find_socket P net of Some i \<Rightarrow> Some i | None \<Rightarrow> List.find (holds_at P net') ks)"
proof -
  have f: "List.find p (xs @ ys) = (case List.find p xs of Some i \<Rightarrow> Some i | None \<Rightarrow> List.find p ys)" for p and xs ys :: "nat list"
    by (induction xs) auto
  have "List.find (holds_at P net') (net_registry net) = List.find (holds_at P net) (net_registry net)"
    by (rule find_cong) (simp_all add: assms(2))
  then show ?thesis
    unfolding find_socket_def holds_at_def [symmetric, abs_def] assms(1) f by simp
qed

text \<open>The three segments of the handshake, each from what the one before left.\<close>

lemma handshake_request:
  assumes none: "find_tcp_connection dst dport src sport net = None"
    and l: "find_tcp_listener dst dport net = Some l" "get_socket net l = Some listener"
    and room: "length (sk_backlog listener) < sk_max_backlog listener"
  obtains k net' where "k = length (net_sockets net)"
    "tcp_input send src dst sport dport seq ack TCP_SYN [] net =
       send_tcp send dst src dport sport 1000 (seq + 1) (TCP_SYN OR TCP_ACK) 65535 net'"
    "net_registry net' = net_registry net @ [k]"
    "get_socket net' k = Some (tcp_child listener dst dport src sport seq)"
    "get_socket net' l = Some (wake_waiters (listener \<lparr> sk_backlog := sk_backlog listener @ [k] \<rparr>))"
    "\<And>j. j \<noteq> k \<Longrightarrow> j \<noteq> l \<Longrightarrow> get_socket net' j = get_socket net j"
proof -
  define k where "k = length (net_sockets net)"
  obtain net' where a: "tcp_accept_syn l dst dport src sport seq net = (net', Some k)"
    using room by (auto simp: tcp_accept_syn_def l new_socket_def k_def Let_def)
  have "tcp_input send src dst sport dport seq ack TCP_SYN [] net =
      send_tcp send dst src dport sport 1000 (seq + 1) (TCP_SYN OR TCP_ACK) 65535 net'"
    by (simp add: tcp_input_def none l a ack_flags)
  then show ?thesis using that [OF k_def _ accept_syn_cases(1,3-5) [OF a l(2)]] by blast
qed

lemma handshake_answer:
  assumes "sk_state s = SynSent"
  obtains s' w where "process_segment s seq ack (TCP_SYN OR TCP_ACK) [] = (s', Some (sk_snd_nxt s, seq + 1, TCP_ACK, w))"
    "sk_state s' = Established" "sk_rcv_nxt s' = seq + 1" "sk_snd_nxt s' = sk_snd_nxt s" "sk_type s' = sk_type s"
    "sk_local_addr s' = sk_local_addr s" "sk_local_port s' = sk_local_port s" "sk_remote_addr s' = sk_remote_addr s"
    "sk_remote_port s' = sk_remote_port s" "sk_ooo s' = sk_ooo s" "sk_recv_buf s' = sk_recv_buf s"
  using assms by (simp add: process_segment_def syn_sent_segment_def ack_flags ack_reply_def note_window_def
      wake_epolls_def wake_waiters_def Let_def)

definition child_open :: "socket \<Rightarrow> u32 \<Rightarrow> socket" where
  "child_open s ack = wake_waiters (s \<lparr> sk_snd_una := ack, sk_state := Established \<rparr>)"

lemma handshake_ack:
  "sk_state s = SynReceived \<Longrightarrow> process_segment s seq ack TCP_ACK [] = (child_open s ack, None)"
  by (simp add: process_segment_def ack_flags child_open_def)

lemma endpoints_end:
  "sk_type s = 1 \<Longrightarrow> sk_local_addr s = Some lip \<Longrightarrow> sk_local_port s = Some lport \<Longrightarrow> sk_remote_addr s = Some rip \<Longrightarrow>
   sk_remote_port s = Some rport \<Longrightarrow> endpoints lip lport rip rport s"
  by (simp add: endpoints_def bound_to_def)

text \<open>Every registered socket exists.\<close>

definition registry_ok :: "net_state \<Rightarrow> bool" where
  "registry_ok net \<longleftrightarrow> (\<forall>j \<in> set (net_registry net). j < length (net_sockets net))"

text \<open>A new socket is found last.\<close>

lemma find_with_child:
  assumes "registry_ok net" "k = length (net_sockets net)" "net_registry net' = net_registry net @ [k]"
    and "get_socket net l = Some listener" "get_socket net' l = Some (wake_waiters (listener \<lparr> sk_backlog := bl \<rparr>))"
    and "\<And>j. j \<noteq> k \<Longrightarrow> j \<noteq> l \<Longrightarrow> get_socket net' j = get_socket net j"
  shows "find_tcp_connection ip port rip rport net' =
    (case find_tcp_connection ip port rip rport net of
       Some i \<Rightarrow> Some i | None \<Rightarrow> if holds_at (endpoints ip port rip rport) net' k then Some k else None)"
proof -
  let ?P = "endpoints ip port rip rport"
  have "holds_at ?P net' j = holds_at ?P net j" if "j \<in> set (net_registry net)" for j
  proof (cases "j = l")
    case True
    then show ?thesis using assms(4,5) by (simp add: holds_at_def)
  next
    case False
    moreover have "j \<noteq> k" using that assms(1,2) by (auto simp: registry_ok_def)
    ultimately show ?thesis using assms(6) by (simp add: holds_at_def)
  qed
  from find_append [OF assms(3) this] show ?thesis
    unfolding find_tcp_connection_endpoints by (simp split: option.splits)
qed

lemma find_keeps:
  assumes "get_socket net i = Some s" "endpoints ip port rip rport s' = endpoints ip port rip rport s"
  shows "find_tcp_connection ip port rip rport (set_socket i s' net) = find_tcp_connection ip port rip rport net"
proof -
  have h: "holds_at (endpoints ip port rip rport) (set_socket i s' net) j = holds_at (endpoints ip port rip rport) net j" for j
    using assms by (simp add: holds_at_def get_socket_set)
  show ?thesis
    using find_append [of "set_socket i s' net" net "[]", OF _ h] unfolding find_tcp_connection_endpoints
    by (simp split: option.splits)
qed

lemma find_prep [simp]: "find_tcp_connection ip port rip rport (loop_prep a net) = find_tcp_connection ip port rip rport net"
  using same_conns_find [of net "loop_prep a net"] by (simp add: same_conns_refl)

lemma find_listener_prep [simp]: "find_tcp_listener ip port (loop_prep a net) = find_tcp_listener ip port net"
  by (simp add: find_tcp_listener_def find_socket_def)

lemma find_wake [simp]: "find_tcp_connection ip port rip rport (wake_all_epolls net) = find_tcp_connection ip port rip rport net"
  using same_conns_find [of net "wake_all_epolls net"] by (simp add: same_conns_refl)

lemma net_sockets_simps [simp]:
  "net_sockets (loop_prep a net) = net_sockets net" "length (net_sockets (set_socket i s net)) = length (net_sockets net)"
  "length (net_sockets (upd_socket i f net)) = length (net_sockets net)"
  by (simp_all add: loop_prep_def set_socket_def upd_socket_def split: option.splits)

text \<open>The second and third segment.\<close>

lemma handshake_completes:
  assumes s: "get_socket net i = Some s" "sk_state s = SynSent"
    and ends: "sk_type s = 1" "sk_local_addr s = Some src" "sk_local_port s = Some sport"
      "sk_remote_addr s = Some dst" "sk_remote_port s = Some dport"
    and nums: "sk_snd_nxt s = ack" "sk_ooo s = []"
    and c: "get_socket net k = Some c" "sk_state c = SynReceived" "sk_type c = 1" "sk_local_addr c = Some dst"
      "sk_local_port c = Some dport" "sk_remote_addr c = Some src" "sk_remote_port c = Some sport"
      "sk_rcv_nxt c = ack" "sk_snd_nxt c = seq + 1" "sk_ooo c = []"
    and f: "find_tcp_connection src sport dst dport net = Some i" "find_tcp_connection dst dport src sport net = Some k"
    and lo: "is_loopback src" "is_loopback dst" and ik: "i \<noteq> k"
  obtains net' where
    "send_tcp (send_packet_body (send_packet_body send)) dst src dport sport seq ack (TCP_SYN OR TCP_ACK) wnd net = Some net'"
    "tcp_linked net' i src sport k dst dport" "recv_buf net' i = sk_recv_buf s" "recv_buf net' k = sk_recv_buf c"
    "\<And>j. j \<noteq> i \<Longrightarrow> j \<noteq> k \<Longrightarrow> get_socket net' j = get_socket net j"
proof -
  obtain s' w where p: "process_segment s seq ack (TCP_SYN OR TCP_ACK) [] = (s', Some (sk_snd_nxt s, seq + 1, TCP_ACK, w))"
    and s': "sk_state s' = Established" "sk_rcv_nxt s' = seq + 1" "sk_snd_nxt s' = sk_snd_nxt s" "sk_type s' = sk_type s"
      "sk_local_addr s' = sk_local_addr s" "sk_local_port s' = sk_local_port s" "sk_remote_addr s' = sk_remote_addr s"
      "sk_remote_port s' = sk_remote_port s" "sk_ooo s' = sk_ooo s" "sk_recv_buf s' = sk_recv_buf s"
    by (rule handshake_answer [OF s(2)])
  have es: "endpoints ip port rip rport s' = endpoints ip port rip rport s" for ip port rip rport
    by (simp add: endpoints_def bound_to_def s')
  define net1 where "net1 = loop_prep src (set_socket i s' (loop_prep dst net))"
  have g1: "get_socket net1 i = Some s'" "get_socket net1 k = Some c" using s(1) c(1) ik by (simp_all add: net1_def get_socket_set)
  have f1: "find_tcp_connection ip port rip rport net1 = find_tcp_connection ip port rip rport net" for ip port rip rport
    unfolding net1_def using find_keeps [of "loop_prep dst net" i s] es s(1) by simp
  define c' where "c' = child_open c (seq + 1)"
  define net2 where "net2 = set_socket k c' net1"
  have ec: "endpoints ip port rip rport c' = endpoints ip port rip rport c" for ip port rip rport
    by (simp add: c'_def child_open_def endpoints_def bound_to_def wake_waiters_def)
  have g2: "get_socket net2 i = Some s'" "get_socket net2 k = Some c'"
    using g1 ik by (simp_all add: net2_def get_socket_set)
  have f2: "find_tcp_connection ip port rip rport net2 = find_tcp_connection ip port rip rport net" for ip port rip rport
    unfolding net2_def using find_keeps [OF g1(2) ec] f1 by simp
  have "tcp_linked net2 i src sport k dst dport"
    using g2 f2 f lo ik s' ends nums c
    by (simp add: tcp_linked_def conn_end_def c'_def child_open_def wake_waiters_def)
  moreover have "get_socket net2 j = get_socket net j" if "j \<noteq> i" "j \<noteq> k" for j
    using that by (simp add: net2_def net1_def get_socket_set)
  moreover have "recv_buf net2 i = sk_recv_buf s" "recv_buf net2 k = sk_recv_buf c"
    using g2 s' by (simp_all add: recv_buf_def c'_def child_open_def wake_waiters_def)
  moreover have "send_tcp (send_packet_body (send_packet_body send)) dst src dport sport seq ack (TCP_SYN OR TCP_ACK) wnd net =
      Some (wake_all_epolls (wake_all_epolls net2))"
  proof -
    have fi: "find_tcp_connection src sport dst dport (loop_prep dst net) = Some i" using f(1) by simp
    have gi: "get_socket (loop_prep dst net) i = Some s" using s(1) by simp
    have fk: "find_tcp_connection dst dport src sport net1 = Some k" using f1 f(2) by simp
    show ?thesis
      unfolding send_tcp_loopback [OF lo(1)] ack_flags tcp_input_connection [OF fi gi p] option.case prod.case
        send_tcp_loopback [OF lo(2)] net1_def [symmetric] tcp_input_connection [OF fk g1(2) handshake_ack [OF c(2)]]
      by (simp add: net2_def c'_def)
  qed
  ultimately show ?thesis using that by (simp add: tcp_linked_def recv_buf_def)
qed

lemma handshake:
  assumes s: "get_socket net i = Some s" "sk_state s = SynSent"
    and ends: "sk_type s = 1" "sk_local_addr s = Some src" "sk_local_port s = Some sport"
      "sk_remote_addr s = Some dst" "sk_remote_port s = Some dport"
    and nums: "sk_snd_nxt s = seq + 1" "sk_ooo s = []"
    and f: "find_tcp_connection src sport dst dport net = Some i" "find_tcp_connection dst dport src sport net = None"
    and l: "find_tcp_listener dst dport net = Some l" "get_socket net l = Some listener"
      "length (sk_backlog listener) < sk_max_backlog listener"
    and lo: "is_loopback src" "is_loopback dst" and li: "l \<noteq> i" and reg: "registry_ok net"
    and k: "k = length (net_sockets net)"
  obtains net' where
    "send_tcp (send_packet_body (send_packet_body (send_packet_body send))) src dst sport dport seq 0 TCP_SYN wnd net = Some net'"
    "tcp_linked net' i src sport k dst dport" "recv_buf net' i = sk_recv_buf s" "recv_buf net' k = []"
    "get_socket net' l = Some (wake_waiters (listener \<lparr> sk_backlog := sk_backlog listener @ [k] \<rparr>))"
proof -
  let ?net = "loop_prep src net" and ?c = "tcp_child listener dst dport src sport seq"
  have fn: "find_tcp_connection dst dport src sport ?net = None" "find_tcp_listener dst dport ?net = Some l" "get_socket ?net l = Some listener"
    using f(2) l by simp_all
  obtain k' net1 where k': "k' = length (net_sockets ?net)"
    and i1: "tcp_input (send_packet_body (send_packet_body send)) src dst sport dport seq 0 TCP_SYN [] ?net =
       send_tcp (send_packet_body (send_packet_body send)) dst src dport sport 1000 (seq + 1) (TCP_SYN OR TCP_ACK) 65535 net1"
    and n1: "net_registry net1 = net_registry ?net @ [k']" "get_socket net1 k' = Some ?c"
      "get_socket net1 l = Some (wake_waiters (listener \<lparr> sk_backlog := sk_backlog listener @ [k'] \<rparr>))"
      "\<And>j. j \<noteq> k' \<Longrightarrow> j \<noteq> l \<Longrightarrow> get_socket net1 j = get_socket ?net j"
    by (rule handshake_request [OF fn l(3), of "send_packet_body (send_packet_body send)" seq 0]) (rule that, assumption+)
  have [simp]: "k' = k" using k k' by simp
  have ik: "i \<noteq> k" "l \<noteq> k" using s(1) l(2) k by (auto simp: get_socket_def split: if_splits)
  have gi: "get_socket net1 i = Some s" using n1(4) [of i] ik li s(1) by simp
  have tl: "sk_type listener = 1" using find_tcp_listener_type [OF l(1)] l(2) by simp
  have reg': "registry_ok ?net" using reg by (simp add: registry_ok_def)
  have fc: "find_tcp_connection src sport dst dport net1 = Some i" "find_tcp_connection dst dport src sport net1 = Some k"
    using find_with_child [OF reg' k' n1(1) fn(3) n1(3,4)] f n1(2) endpoints_child [OF tl] by (simp_all add: holds_at_def)
  have c: "sk_state ?c = SynReceived" "sk_type ?c = 1" "sk_local_addr ?c = Some dst" "sk_local_port ?c = Some dport"
    "sk_remote_addr ?c = Some src" "sk_remote_port ?c = Some sport" "sk_rcv_nxt ?c = seq + 1" "sk_snd_nxt ?c = 1000 + 1" "sk_ooo ?c = []"
    "sk_recv_buf ?c = []"
    using tl by (simp_all add: tcp_child_def socket_new_def)
  obtain net' where
    "send_tcp (send_packet_body (send_packet_body send)) dst src dport sport 1000 (seq + 1) (TCP_SYN OR TCP_ACK) 65535 net1 = Some net'"
    "tcp_linked net' i src sport k dst dport" "recv_buf net' i = sk_recv_buf s" "recv_buf net' k = sk_recv_buf ?c"
    "\<And>j. j \<noteq> i \<Longrightarrow> j \<noteq> k \<Longrightarrow> get_socket net' j = get_socket net1 j"
    by (rule handshake_completes [OF gi s(2) ends nums n1(2) [unfolded \<open>k' = k\<close>] c(1-9) fc lo ik(1), of send 65535]) (rule that, assumption+)
  then show ?thesis
    using that n1(3) i1 c(10) li ik by (simp add: send_tcp_loopback [OF lo(2)] ack_flags)
qed

lemma find_listener_keeps:
  assumes "find_tcp_listener ip port net = Some l" "l \<noteq> i" "sk_state s' \<noteq> Listen"
  shows "find_tcp_listener ip port (set_socket i s' net) = Some l"
proof -
  let ?P = "\<lambda>s. sk_type s = 1 \<and> sk_state s = Listen \<and> bound_to ip port s"
  have "List.find q xs = Some l" if "List.find p xs = Some l" "\<And>j. j \<noteq> i \<Longrightarrow> q j = p j" "\<not> q i" for p q and xs :: "nat list"
    using that assms(2) by (induction xs) (auto split: if_splits, metis)
  moreover have "holds_at ?P (set_socket i s' net) j = holds_at ?P net j" if "j \<noteq> i" for j
    using that by (simp add: holds_at_def get_socket_set)
  moreover have "\<not> holds_at ?P (set_socket i s' net) i"
    using assms(3) by (simp add: holds_at_def get_socket_set split: option.splits)
  moreover have "List.find (holds_at ?P net) (net_registry net) = Some l"
    using assms(1) by (simp add: find_tcp_listener_def find_socket_def holds_at_def [abs_def])
  ultimately have "List.find (holds_at ?P (set_socket i s' net)) (net_registry net) = Some l" by blast
  then show ?thesis by (simp add: find_tcp_listener_def find_socket_def holds_at_def [abs_def])
qed

text \<open>
  When a socket may connect to a listener of the same machine: both addresses are loopback addresses,
  the pair of end points is not in use, and the listener has room in its backlog.
\<close>

definition may_connect :: "net_state \<Rightarrow> nat \<Rightarrow> ipv4_addr \<Rightarrow> u16 \<Rightarrow> ipv4_addr \<Rightarrow> u16 \<Rightarrow> nat \<Rightarrow> bool" where
  "may_connect net i src sport dst dport l \<longleftrightarrow>
     (let net1 = connect_prepare i dst dport net in
      registry_ok net \<and> is_loopback src \<and> is_loopback dst \<and> l \<noteq> i \<and>
      (case get_socket net1 i of None \<Rightarrow> False
       | Some s \<Rightarrow> sk_type s = 1 \<and> sk_ooo s = [] \<and> sk_local_addr s = Some src \<and> sk_local_port s = Some sport) \<and>
      find_tcp_connection src sport dst dport net1 = Some i \<and> find_tcp_connection dst dport src sport net1 = None \<and>
      find_tcp_listener dst dport net1 = Some l \<and>
      (case get_socket net l of None \<Rightarrow> False | Some s \<Rightarrow> length (sk_backlog s) < sk_max_backlog s))"

lemma prepare_socket:
  assumes "get_socket net i = Some s"
  obtains s1 where "get_socket (connect_prepare i dst dport net) i = Some s1" "sk_remote_addr s1 = Some dst"
    "sk_remote_port s1 = Some dport" "sk_recv_buf s1 = sk_recv_buf s" "sk_nonblocking s1 = sk_nonblocking s"
    "net_registry (connect_prepare i dst dport net) = net_registry net"
    "length (net_sockets (connect_prepare i dst dport net)) = length (net_sockets net)"
    "\<And>j. j \<noteq> i \<Longrightarrow> get_socket (connect_prepare i dst dport net) j = get_socket net j"
proof -
  let ?u = "upd_socket i (\<lambda>s. s \<lparr> sk_remote_addr := Some dst, sk_remote_port := Some dport \<rparr>) net"
  let ?s = "s \<lparr> sk_remote_addr := Some dst, sk_remote_port := Some dport \<rparr>"
  obtain port net1 where p: "ensure_port ?s ?u = (port, net1)" by (meson surj_pair)
  have n1: "net_sockets net1 = net_sockets ?u" "net_registry net1 = net_registry ?u"
    using p by (auto simp: ensure_port_def alloc_ephemeral_port_def Let_def split: if_splits)
  have g1: "get_socket net1 j = get_socket ?u j" for j by (simp add: get_socket_def n1)
  have u: "get_socket ?u i = Some ?s" using assms by (simp add: get_socket_upd)
  define ip where "ip = (if sk_local_addr s = None \<or> sk_local_addr s = Some UNSPECIFIED
    then Some (source_address dst ?u) else sk_local_addr s)"
  have e: "connect_prepare i dst dport net = set_socket i (?s \<lparr> sk_local_port := port, sk_local_addr := ip \<rparr>) net1"
    by (simp add: connect_prepare_def ensure_bound_def u p ip_def)
  have l: "length (net_sockets (set_socket i t net1)) = length (net_sockets net)" for t
    by (simp add: set_socket_def n1 upd_socket_def assms)
  show ?thesis
    by (rule that [of "?s \<lparr> sk_local_port := port, sk_local_addr := ip \<rparr>"])
      (unfold e, simp_all add: get_socket_set g1 u n1 l get_socket_upd assms)
qed

lemma loopback_specified: "is_loopback ip \<Longrightarrow> ip \<noteq> UNSPECIFIED"
  by (auto simp: UNSPECIFIED_def)

lemma accept_front:
  assumes "get_socket net l = Some s" "sk_type s = 1" "sk_state s = Listen" "sk_backlog s \<noteq> []"
  shows "fst (sys_accept4 l 0 None True net) = Accepted (hd (sk_backlog s))"
  using assms by (simp add: sys_accept4_def Let_def split: list.splits)

text \<open>
  C15. Connecting to a listener over the loopback path. Before \<open>sys_connect\<close> reaches its wait loop the
  three-way handshake is complete: the loop ends at once with success, the caller's socket and a new
  socket on the listener's side form a connected pair that agrees on its sequence numbers with nothing
  received yet by the new end, and the new socket is the last one in the backlog that \<open>sys_accept4\<close>
  serves in order.
\<close>

theorem tcp_connect_accept:
  assumes "may_connect net i src sport dst dport l" and s: "get_socket net i = Some s" "get_socket net l = Some listener"
  shows "\<exists>net'. sys_connect (send_packet 4) i dst dport nonblock net =
      Some (if nonblock \<or> sk_nonblocking s then ConnDone (- 115) else ConnWait, net') \<and>
    connect_wait i t net' = (Some 0, net') \<and>
    tcp_linked net' i src sport (length (net_sockets net)) dst dport \<and>
    recv_buf net' i = sk_recv_buf s \<and> recv_buf net' (length (net_sockets net)) = [] \<and>
    fst (sys_accept4 l 0 None True net') = Accepted (hd (sk_backlog listener @ [length (net_sockets net)]))"
proof -
  define net1 where "net1 = connect_prepare i dst dport net"
  define k where "k = length (net_sockets net)"
  obtain s1 where p: "get_socket net1 i = Some s1" "sk_remote_addr s1 = Some dst" "sk_remote_port s1 = Some dport"
    "sk_recv_buf s1 = sk_recv_buf s" "sk_nonblocking s1 = sk_nonblocking s" "net_registry net1 = net_registry net"
    "length (net_sockets net1) = length (net_sockets net)" "\<And>j. j \<noteq> i \<Longrightarrow> get_socket net1 j = get_socket net j"
    by (rule prepare_socket [OF s(1), of dst dport, folded net1_def]) (rule that, assumption+)
  have m: "registry_ok net" "is_loopback src" "is_loopback dst" "l \<noteq> i" "sk_type s1 = 1" "sk_ooo s1 = []"
    "sk_local_addr s1 = Some src" "sk_local_port s1 = Some sport"
    "find_tcp_connection src sport dst dport net1 = Some i" "find_tcp_connection dst dport src sport net1 = None"
    "find_tcp_listener dst dport net1 = Some l" "length (sk_backlog listener) < sk_max_backlog listener"
    using assms(1) p(1) s(2) unfolding may_connect_def net1_def [symmetric] Let_def by simp_all
  define s2 where "s2 = (connect_syn s1) \<lparr> sk_snd_nxt := 1000 + 1 \<rparr>"
  define net2 where "net2 = set_socket i s2 net1"
  have f2: "sk_state s2 = SynSent" "sk_type s2 = 1" "sk_local_addr s2 = Some src" "sk_local_port s2 = Some sport"
    "sk_remote_addr s2 = Some dst" "sk_remote_port s2 = Some dport" "sk_snd_nxt s2 = 1000 + 1" "sk_ooo s2 = []" "sk_recv_buf s2 = sk_recv_buf s"
    using p m by (simp_all add: s2_def connect_syn_def)
  have "endpoints ip port rip rport s2 = endpoints ip port rip rport s1" for ip port rip rport
    by (simp add: endpoints_def bound_to_def s2_def connect_syn_def)
  note fk = find_keeps [OF p(1) this]
  have c2: "find_tcp_connection src sport dst dport net2 = Some i" "find_tcp_connection dst dport src sport net2 = None"
    "find_tcp_listener dst dport net2 = Some l"
    using m fk find_listener_keeps [OF m(11,4), of s2] f2(1) by (simp_all add: net2_def)
  have g2: "get_socket net2 i = Some s2" "get_socket net2 l = Some listener" "registry_ok net2" "k = length (net_sockets net2)"
    using p m s(2) by (simp_all add: net2_def get_socket_set registry_ok_def k_def)
  obtain net' where n: "send_tcp (send_packet_body (send_packet_body (send_packet_body (send_packet 1)))) src dst sport dport 1000 0 TCP_SYN 65535 net2 = Some net'"
    "tcp_linked net' i src sport k dst dport" "recv_buf net' i = sk_recv_buf s2" "recv_buf net' k = []"
    "get_socket net' l = Some (wake_waiters (listener \<lparr> sk_backlog := sk_backlog listener @ [k] \<rparr>))"
    by (rule handshake [OF g2(1) f2(1-8) c2(1-3) g2(2) m(12,2-4) g2(3,4)])
  have e: "send_packet 4 = send_packet_body (send_packet_body (send_packet_body (send_packet 1)))" by (simp add: eval_nat_numeral)
  have "sys_connect (send_packet 4) i dst dport nonblock net =
      Some (if nonblock \<or> sk_nonblocking s then ConnDone (- 115) else ConnWait, net')"
    using n(1) s(1) p m(3,5,7,8) loopback_specified [OF m(3)] unfolding e
    by (simp add: sys_connect_def net1_def [symmetric] Let_def net2_def s2_def connect_syn_def)
  moreover have "connect_wait i t net' = (Some 0, net')"
    using n(2) by (auto simp: connect_wait_def tcp_linked_def conn_end_def)
  moreover have "sk_type listener = 1" "sk_state listener = Listen"
    using m(11) p(8) [OF m(4)] s(2) find_socket_Some unfolding find_tcp_listener_def by fastforce+
  then have "fst (sys_accept4 l 0 None True net') = Accepted (hd (sk_backlog listener @ [k]))"
    using accept_front [OF n(5)] by (simp add: wake_waiters_def)
  ultimately show ?thesis using n f2(9) unfolding k_def by auto
qed

text \<open>A listener on port 80 and a fresh socket.\<close>

definition sample_listener :: socket where
  "sample_listener = (socket_new 2 1 0) \<lparr> sk_local_port := Some 80, sk_state := Listen, sk_max_backlog := 5 \<rparr>"

definition sample_server :: net_state where
  "sample_server = net_init \<lparr> net_sockets := [sample_listener, socket_new 2 1 0], net_registry := [0, 1] \<rparr>"

lemma sample_may_connect: "may_connect sample_server 1 LOCALHOST 49152 LOCALHOST 80 0"
  by code_simp

theorem tcp_connect_accept_witness:
  "\<exists>net'. sys_connect (send_packet 4) 1 LOCALHOST 80 False sample_server = Some (ConnWait, net') \<and>
    connect_wait 1 0 net' = (Some 0, net') \<and> tcp_linked net' 1 LOCALHOST 49152 2 LOCALHOST 80 \<and>
    fst (sys_accept4 0 0 None True net') = Accepted 2"
  using tcp_connect_accept [OF sample_may_connect, of "socket_new 2 1 0" sample_listener False 0]
  by (auto simp: sample_server_def sample_listener_def get_socket_def socket_new_def numeral_2_eq_2)

section \<open>Datagrams\<close>

lemma udp_handle_datagram:
  assumes "8 + length data \<le> 65535" "find_udp_socket dst dport net = Some j"
  shows "udp_handle_packet src dst (be_bytes16 sport @ be_bytes16 dport @ be_bytes16 (of_nat (8 + length data)) @ be_bytes16 c @ data) net =
    upd_socket j (\<lambda>s. if length (sk_udp_recv_queue s) < 128 then
      wake_waiters (s \<lparr> sk_udp_recv_queue := sk_udp_recv_queue s @
        [\<lparr> dg_src_addr = src, dg_src_port = sport, dg_data = data \<rparr>] \<rparr>) else s) net"
proof (rule udp_parse_datagram [OF assms(1), of sport dport c])
  fix h assume h: "udp_parse (be_bytes16 sport @ be_bytes16 dport @ be_bytes16 (of_nat (8 + length data)) @ be_bytes16 c @ data) = Some (h, data)"
    "udp_src_port_host h = sport" "udp_dst_port_host h = dport"
  show ?thesis unfolding udp_handle_packet_def h(1) option.case prod.case h(2,3) assms(2) ..
qed

lemma send_datagram_loopback:
  assumes lo: "is_loopback dst" and len: "length data \<le> 2020" and j: "find_udp_socket dst dport net = Some j"
    and name: "sock_name s = (src, sport)"
  shows "send_datagram (send_packet_body send) s dst dport data net =
    Some (Inr (length data), upd_socket j (\<lambda>s. if length (sk_udp_recv_queue s) < 128 then
      wake_waiters (s \<lparr> sk_udp_recv_queue := sk_udp_recv_queue s @
        [\<lparr> dg_src_addr = src, dg_src_port = sport, dg_data = data \<rparr>] \<rparr>) else s) (loop_prep src net))"
proof -
  have l: "8 + length data \<le> length (replicate 2048 (0 :: u8))" "8 + length data \<le> 65535" using len by simp_all
  obtain buf' c where b: "build_datagram (replicate 2048 0) src dst sport dport data = Some (buf', 8 + length data)"
    and t: "take (8 + length data) buf' =
       be_bytes16 sport @ be_bytes16 dport @ be_bytes16 (of_nat (8 + length data)) @ be_bytes16 c @ data"
    by (rule build_datagram_bytes [OF l])
  have "length (take (8 + length data) buf') \<le> 2028" using len by (simp only: t) simp
  note s = loopback_send [OF lo this, of send src PROTO_UDP net]
  have j': "find_udp_socket dst dport (loop_prep src net) = Some j"
    using j by (simp add: find_udp_socket_def find_socket_def)
  have d: "ipv4_dispatch send src dst PROTO_UDP p n = Some (udp_handle_packet src dst p n)" for p n
    by (simp add: ipv4_dispatch_def PROTO_UDP_def PROTO_ICMP_def)
  show ?thesis
    unfolding send_datagram_def name prod.case b option.case s d unfolding t udp_handle_datagram [OF l(2) j'] by simp
qed

text \<open>
  C27. A datagram sent over the loopback path to a bound socket arrives exactly once, with its bytes and
  the sender's address unchanged, at the end of the receiver's queue, before the call returns; every
  other socket is left alone. When the queue already holds 128 datagrams the new one is dropped.
\<close>

theorem udp_loopback_delivery:
  assumes "net1 = ensure_bound i dst net" "get_socket net1 i = Some s" "sk_type s = 2" "sk_protocol s \<noteq> 1"
    and "is_loopback dst" "data \<noteq> []" "length data \<le> 2020"
    and "find_udp_socket dst dport net1 = Some j" "get_socket net1 j = Some r"
  shows "\<exists>net' r'. sys_sendto (send_packet 4) i data (Some (dst, dport)) net = Some (Inr (length data), net') \<and>
    get_socket net' j = Some r' \<and>
    sk_udp_recv_queue r' = (if length (sk_udp_recv_queue r) < 128 then sk_udp_recv_queue r @
      [\<lparr> dg_src_addr = fst (sock_name s), dg_src_port = snd (sock_name s), dg_data = data \<rparr>] else sk_udp_recv_queue r) \<and>
    (\<forall>k. k \<noteq> j \<longrightarrow> get_socket net' k = get_socket net1 k)"
proof -
  obtain src sport where n: "sock_name s = (src, sport)" by (meson surj_pair)
  have e: "send_packet 4 = send_packet_body (send_packet 3)" by (simp add: eval_nat_numeral)
  show ?thesis
    using assms send_datagram_loopback [OF assms(5,7,8) n, of "send_packet 3"]
    by (simp add: sys_sendto_def e [symmetric] get_socket_upd n wake_waiters_def)
qed

definition sample_udp :: net_state where
  "sample_udp = net_init \<lparr> net_sockets := [socket_new 2 2 0, (socket_new 2 2 0) \<lparr> sk_local_port := Some 53 \<rparr>],
     net_registry := [0, 1] \<rparr>"

theorem udp_loopback_delivery_witness:
  "\<exists>net' r'. sys_sendto (send_packet 4) 0 [1, 2, 3] (Some (LOCALHOST, 53)) sample_udp = Some (Inr 3, net') \<and>
    get_socket net' 1 = Some r' \<and>
    sk_udp_recv_queue r' = [\<lparr> dg_src_addr = LOCALHOST, dg_src_port = 49152, dg_data = [1, 2, 3] \<rparr>]"
proof -
  let ?n = "ensure_bound 0 LOCALHOST sample_udp"
  let ?s = "(socket_new 2 2 0) \<lparr> sk_local_addr := Some LOCALHOST, sk_local_port := Some 49152 \<rparr>"
  have "get_socket ?n 0 = Some ?s" "find_udp_socket LOCALHOST 53 ?n = Some 1"
    "get_socket ?n 1 = Some ((socket_new 2 2 0) \<lparr> sk_local_port := Some 53 \<rparr>)"
    by code_simp+
  from udp_loopback_delivery [OF refl this(1) _ _ _ _ _ this(2,3), of "[1, 2, 3]"]
  show ?thesis by (auto simp: socket_new_def sock_name_def LOCALHOST_def)
qed

text \<open>After the last port of the range the counter starts again, and gives its first port out twice.\<close>

lemma ephemeral_port_repeats:
  assumes "net_port net = 65001"
  shows "fst (alloc_ephemeral_port net) = 49152 \<and> fst (alloc_ephemeral_port (snd (alloc_ephemeral_port net))) = 49152"
  using assms by (simp add: alloc_ephemeral_port_def)

end
