(* ===== verification/Vm_Regions.thy ===== *)
theory Vm_Regions
  imports Errno "HOL-Library.Monad_Syntax"
begin

text \<open>
  The address space of a process as its list of mapped regions: \<open>MappedRegion\<close> and \<open>AddressSpace\<close> of
  \<open>process/task.rs\<close>, and what \<open>mmap\<close>, \<open>munmap\<close>, \<open>mprotect\<close> and \<open>mremap\<close> do to the list
  (\<open>syscall/memory.rs\<close>). Addresses and lengths are natural numbers;
  an addition is bounded by \<open>2 ^ 64\<close> where the code checks or saturates it, and taken modulo \<open>2 ^ 64\<close>
  where the code does neither and the result can be that large. What a list means is a view: for every
  address the object, the file offset and the protection a program finds there.
\<close>

section \<open>Regions\<close>

record mapped_region =
  rg_start :: nat
  rg_len :: nat
  rg_inode :: "nat option"
  rg_offset :: u64
  rg_shared :: bool
  rg_prot :: u32
  rg_pathname :: "string option"
  rg_stack :: bool

record address_space =
  as_root :: u64
  as_start_brk :: nat
  as_brk :: nat
  as_bump :: nat
  as_regions :: "mapped_region list"

definition rg_end :: "mapped_region \<Rightarrow> nat" where
  "rg_end r = rg_start r + rg_len r"

definition U64_MAX :: nat where "U64_MAX = 2 ^ 64 - 1"

definition USER_END :: nat where "USER_END = 0x7FFFFFFFFFFF"

definition checked_add :: "nat \<Rightarrow> nat \<Rightarrow> nat option" where
  "checked_add a b = (if a + b \<le> U64_MAX then Some (a + b) else None)"

definition saturating_add :: "nat \<Rightarrow> nat \<Rightarrow> nat" where
  "saturating_add a b = min (a + b) U64_MAX"

definition wrapping_add :: "nat \<Rightarrow> nat \<Rightarrow> nat" where
  "wrapping_add a b = (a + b) mod 2 ^ 64"

text \<open>\<open>x & !4095\<close>, and the rounded length of a call.\<close>

definition page_down :: "nat \<Rightarrow> nat" where
  "page_down x = x div 4096 * 4096"

definition aligned_len :: "nat \<Rightarrow> nat option" where
  "aligned_len len = map_option page_down (checked_add len 4095)"

section \<open>Unmapping\<close>

text \<open>What is left of a region below \<open>s\<close>, and from \<open>e\<close> on.\<close>

definition cut_left :: "nat \<Rightarrow> mapped_region \<Rightarrow> mapped_region" where
  "cut_left s r = r \<lparr> rg_len := s - rg_start r \<rparr>"

definition cut_right :: "nat \<Rightarrow> mapped_region \<Rightarrow> mapped_region" where
  "cut_right e r =
     r \<lparr> rg_start := e, rg_len := rg_end r - e, rg_offset := rg_offset r + of_nat (e - rg_start r) \<rparr>"

text \<open>
  \<open>AddressSpace::unmap_range\<close>: the loop over the list. A region that sticks out on both sides is split,
  and the loop stops there.
\<close>

fun unmap_loop :: "nat \<Rightarrow> nat \<Rightarrow> mapped_region list \<Rightarrow> mapped_region list" where
  "unmap_loop s e [] = []"
| "unmap_loop s e (r # rs) =
     (if rg_end r \<le> s \<or> e \<le> rg_start r then r # unmap_loop s e rs
      else if s \<le> rg_start r \<and> rg_end r \<le> e then unmap_loop s e rs
      else if rg_start r < s \<and> e < rg_end r then cut_left s r # cut_right e r # rs
      else if rg_start r < s then cut_left s r # unmap_loop s e rs
      else cut_right e r # unmap_loop s e rs)"

definition unmap_range :: "nat \<Rightarrow> nat \<Rightarrow> address_space \<Rightarrow> address_space" where
  "unmap_range s e a = (if e \<le> s then a else a \<lparr> as_regions := unmap_loop s e (as_regions a) \<rparr>)"

text \<open>The bump pointer after \<open>munmap\<close>: back to the end of the highest mapping in its area.\<close>

definition highest_remaining :: "mapped_region list \<Rightarrow> nat" where
  "highest_remaining rs =
     (let ends = map rg_end (filter (\<lambda>r. 0x500000000000 \<le> rg_start r \<and> rg_start r < 0x700000000000) rs)
      in if ends = [] then 0x500000000000 else Max (set ends))"

definition munmap_bump :: "nat \<Rightarrow> nat \<Rightarrow> address_space \<Rightarrow> address_space" where
  "munmap_bump s e a =
     (if as_bump a \<le> e \<and> s < 0x700000000000
      then a \<lparr> as_bump := max 0x500000000000 (highest_remaining (as_regions a)) \<rparr> else a)"

definition page_range :: "nat \<Rightarrow> nat \<Rightarrow> (nat \<times> nat) result" where
  "page_range addr len =
     (if len = 0 \<or> addr mod 4096 \<noteq> 0 then Inl EINVAL
      else case aligned_len len of
             None \<Rightarrow> Inl EINVAL
           | Some n \<Rightarrow>
               (case checked_add addr n of
                  None \<Rightarrow> Inl EINVAL
                | Some e \<Rightarrow> if USER_END < e then Inl EINVAL else Inr (addr, e)))"

definition munmap_regions :: "nat \<Rightarrow> nat \<Rightarrow> address_space \<Rightarrow> address_space" where
  "munmap_regions s e a = munmap_bump s e (unmap_range s e a)"

section \<open>Choosing an address\<close>

definition MMAP_END :: nat where "MMAP_END = 0x7FFF00000000"

definition overlaps :: "nat \<Rightarrow> nat \<Rightarrow> mapped_region \<Rightarrow> bool" where
  "overlaps s e r \<longleftrightarrow> s < saturating_add (rg_start r) (rg_len r) \<and> rg_start r < e"

text \<open>The part of the loop body that looks for a conflict; the regions only count above the break.\<close>

definition overlapping_end :: "nat \<Rightarrow> mapped_region list \<Rightarrow> nat \<Rightarrow> nat \<Rightarrow> nat option" where
  "overlapping_end brk rs s e =
     (if s < brk then Some brk
      else fold (\<lambda>r acc. if overlaps s e r
             then Some (max (case acc of Some x \<Rightarrow> x | None \<Rightarrow> 0) (saturating_add (rg_start r) (rg_len r))) else acc) rs None)"

partial_function (option) mmap_search :: "nat \<Rightarrow> nat \<Rightarrow> mapped_region list \<Rightarrow> nat \<Rightarrow> nat result option" where
  "mmap_search brk len rs candidate =
     (case checked_add candidate len of
        None \<Rightarrow> Some (Inl ENOMEM)
      | Some candidate_end \<Rightarrow>
          if MMAP_END < candidate_end then Some (Inl ENOMEM)
          else (case overlapping_end brk rs candidate candidate_end of
                  Some e \<Rightarrow> mmap_search brk len rs (page_down (wrapping_add e 4095))
                | None \<Rightarrow> Some (Inr candidate)))"

definition mmap_hint_ok :: "nat \<Rightarrow> nat \<Rightarrow> address_space \<Rightarrow> bool" where
  "mmap_hint_ok addr len a \<longleftrightarrow>
     addr \<noteq> 0 \<and> addr mod 4096 = 0 \<and>
     (let e = saturating_add addr len in
      e \<le> USER_END \<and> as_brk a \<le> addr \<and> \<not> list_ex (overlaps addr e) (as_regions a))"

text \<open>The checks that both kinds of fixed mapping share.\<close>

definition fixed_range :: "nat \<Rightarrow> nat \<Rightarrow> nat result" where
  "fixed_range addr len =
     (if addr mod 4096 \<noteq> 0 \<or> addr = 0 then Inl EINVAL
      else case checked_add addr len of
             None \<Rightarrow> Inl EINVAL
           | Some e \<Rightarrow> if USER_END < e then Inl EINVAL else Inr e)"

definition raise_bump :: "nat \<Rightarrow> address_space \<Rightarrow> address_space" where
  "raise_bump e a = (if as_bump a < e then a \<lparr> as_bump := e \<rparr> else a)"

definition MAP_FIXED :: u32 where "MAP_FIXED = 0x10"

definition MAP_FIXED_NOREPLACE :: u32 where "MAP_FIXED_NOREPLACE = 0x100000"

definition MAP_SHARED :: u32 where "MAP_SHARED = 0x01"

text \<open>The address of a new mapping, and the address space with room made for it. \<open>None\<close> is a search that does not end.\<close>

definition mmap_resolve :: "nat \<Rightarrow> nat \<Rightarrow> u32 \<Rightarrow> address_space \<Rightarrow> (nat result \<times> address_space) option" where
  "mmap_resolve addr len flags a =
     (if flags AND MAP_FIXED_NOREPLACE \<noteq> 0 then
        Some (case fixed_range addr len of
                Inl err \<Rightarrow> (Inl err, a)
              | Inr e \<Rightarrow>
                  if addr < as_brk a \<or> list_ex (overlaps addr e) (as_regions a) then (Inl EEXIST, a)
                  else (Inr addr, raise_bump e a))
      else if flags AND MAP_FIXED \<noteq> 0 then
        Some (case fixed_range addr len of
                Inl err \<Rightarrow> (Inl err, a)
              | Inr e \<Rightarrow> (Inr addr, unmap_range addr e (raise_bump e a)))
      else if mmap_hint_ok addr len a then Some (Inr addr, a)
      else
        map_option (\<lambda>r. case r of
            Inl err \<Rightarrow> (Inl err, a)
          | Inr c \<Rightarrow> (Inr c, a \<lparr> as_bump := c + len \<rparr>))
          (mmap_search (as_brk a) len (as_regions a) (as_bump a)))"

definition new_region :: "nat \<Rightarrow> nat \<Rightarrow> u32 \<Rightarrow> u32 \<Rightarrow> (nat \<times> string option) option \<Rightarrow> u64 \<Rightarrow> mapped_region" where
  "new_region start len prot flags file offset =
     \<lparr> rg_start = start, rg_len = len, rg_inode = map_option fst file, rg_offset = offset,
       rg_shared = (flags AND MAP_SHARED \<noteq> 0), rg_prot = prot,
       rg_pathname = (case file of Some (_, p) \<Rightarrow> p | None \<Rightarrow> None), rg_stack = False \<rparr>"

text \<open>
  \<open>sys_mmap\<close> on the list; the pages that \<open>MAP_FIXED\<close> takes out of the page table are not part of it. \<open>file\<close> is the inode and path behind the descriptor, \<open>None\<close> for an anonymous
  mapping or \<open>/dev/zero\<close>.
\<close>

definition mmap_regions :: "nat \<Rightarrow> nat \<Rightarrow> u32 \<Rightarrow> u32 \<Rightarrow> (nat \<times> string option) option \<Rightarrow> u64 \<Rightarrow> address_space \<Rightarrow>
    (nat result \<times> address_space) option" where
  "mmap_regions addr len prot flags file offset a =
     (if len = 0 then Some (Inl EINVAL, a)
      else case aligned_len len of
             None \<Rightarrow> Some (Inl EINVAL, a)
           | Some n \<Rightarrow>
               map_option (\<lambda>(r, a'). case r of
                   Inl err \<Rightarrow> (Inl err, a')
                 | Inr start \<Rightarrow> (Inr start, a' \<lparr> as_regions := as_regions a' @ [new_region start n prot flags file offset] \<rparr>))
                 (mmap_resolve addr n flags a))"

section \<open>Changing the protection\<close>

text \<open>Every page of the range lies in a region.\<close>

definition in_region :: "nat \<Rightarrow> mapped_region \<Rightarrow> bool" where
  "in_region x r \<longleftrightarrow> rg_start r \<le> x \<and> x < rg_end r"

definition pages_of :: "nat \<Rightarrow> nat \<Rightarrow> nat list" where
  "pages_of s e = map (\<lambda>i. (s div 4096 + i) * 4096) [0..<Suc ((e - 1) div 4096) - s div 4096]"

definition range_covered :: "nat \<Rightarrow> nat \<Rightarrow> mapped_region list \<Rightarrow> bool" where
  "range_covered s e rs \<longleftrightarrow> list_all (\<lambda>x. list_ex (in_region x) rs) (pages_of s e)"

definition protect_region :: "nat \<Rightarrow> nat \<Rightarrow> u32 \<Rightarrow> mapped_region \<Rightarrow> mapped_region list" where
  "protect_region s e prot r =
     (if rg_end r \<le> s \<or> e \<le> rg_start r then [r]
      else
        let overlap_start = max (rg_start r) s; overlap_end = min (rg_end r) e in
        (if rg_start r < s then [cut_left s r] else []) @
        [(cut_left overlap_end (cut_right overlap_start r)) \<lparr> rg_prot := prot \<rparr>] @
        (if e < rg_end r then [cut_right e r] else []))"

definition protect_regions :: "nat \<Rightarrow> nat \<Rightarrow> u32 \<Rightarrow> mapped_region list \<Rightarrow> mapped_region list" where
  "protect_regions s e prot rs = concat (map (protect_region s e prot) rs)"

definition mprotect_regions :: "nat \<Rightarrow> nat \<Rightarrow> u32 \<Rightarrow> address_space \<Rightarrow> unit result \<times> address_space" where
  "mprotect_regions addr len prot a =
     (case page_range addr len of
        Inl err \<Rightarrow> (Inl err, a)
      | Inr (s, e) \<Rightarrow>
          if range_covered s e (as_regions a)
          then (Inr (), a \<lparr> as_regions := protect_regions s e prot (as_regions a) \<rparr>) else (Inl ENOMEM, a))"

section \<open>Moving and resizing\<close>

definition MREMAP_MAYMOVE :: u32 where "MREMAP_MAYMOVE = 1"

definition MREMAP_FIXED :: u32 where "MREMAP_FIXED = 2"

definition covers :: "nat \<Rightarrow> nat \<Rightarrow> mapped_region \<Rightarrow> bool" where
  "covers addr len r \<longleftrightarrow> rg_start r \<le> addr \<and> wrapping_add addr len \<le> rg_end r"

text \<open>Growing in place: nothing but the region itself lies in the range to add.\<close>

definition can_grow :: "nat \<Rightarrow> nat \<Rightarrow> nat \<Rightarrow> mapped_region list \<Rightarrow> bool" where
  "can_grow addr old_len new_len rs \<longleftrightarrow>
     list_all (\<lambda>r. covers addr old_len r \<or>
       rg_end r \<le> wrapping_add addr old_len \<or> wrapping_add addr new_len \<le> rg_start r) rs"

text \<open>The loop that grows the first region that covers the old range; the new bump pointer comes with the list.\<close>

fun grow_loop :: "nat \<Rightarrow> nat \<Rightarrow> nat \<Rightarrow> nat \<Rightarrow> mapped_region list \<Rightarrow> (mapped_region list \<times> nat) option" where
  "grow_loop addr old_len new_len bump [] = None"
| "grow_loop addr old_len new_len bump (r # rs) =
     (if covers addr old_len r then
        let new_region_len = wrapping_add (addr - rg_start r) new_len;
            new_end = wrapping_add (rg_start r) new_region_len in
        if rg_end r < new_end
        then Some (r \<lparr> rg_len := new_region_len \<rparr> # rs, if rg_end r = bump then new_end else bump)
        else Some (r # rs, bump)
      else map_option (map_prod (Cons r) id) (grow_loop addr old_len new_len bump rs))"

definition munmap_call :: "nat \<Rightarrow> nat \<Rightarrow> address_space \<Rightarrow> unit result \<times> address_space" where
  "munmap_call addr len a =
     (case page_range addr len of Inl err \<Rightarrow> (Inl err, a) | Inr (s, e) \<Rightarrow> (Inr (), munmap_regions s e a))"

text \<open>Where a mapping that cannot grow goes. Without a fixed target it is the bump pointer.\<close>

definition mremap_target :: "nat \<Rightarrow> nat \<Rightarrow> nat \<Rightarrow> u32 \<Rightarrow> nat \<Rightarrow> address_space \<Rightarrow> nat result \<times> address_space" where
  "mremap_target addr old_len new_len flags new_addr a =
     (if flags AND MREMAP_FIXED \<noteq> 0 then
        if new_addr mod 4096 \<noteq> 0 then (Inl EINVAL, a)
        else if \<not> (wrapping_add new_addr new_len \<le> addr \<or> wrapping_add addr old_len \<le> new_addr) then (Inl EINVAL, a)
        else (case munmap_call new_addr new_len a of (Inl err, a') \<Rightarrow> (Inl err, a') | (Inr _, a') \<Rightarrow> (Inr new_addr, a'))
      else
        (case checked_add (as_bump a) new_len of
           None \<Rightarrow> (Inl ENOMEM, a)
         | Some next \<Rightarrow> if USER_END < next then (Inl ENOMEM, a) else (Inr (as_bump a), a \<lparr> as_bump := next \<rparr>)))"

definition old_region :: "nat \<Rightarrow> nat \<Rightarrow> mapped_region list \<Rightarrow> mapped_region option" where
  "old_region addr old_len rs =
     map_option (\<lambda>r. r \<lparr> rg_offset := rg_offset r + of_nat (addr - rg_start r) \<rparr>) (List.find (covers addr old_len) rs)"

definition mremap_move :: "nat \<Rightarrow> nat \<Rightarrow> nat \<Rightarrow> nat \<Rightarrow> address_space \<Rightarrow> nat result \<times> address_space" where
  "mremap_move addr old_len new_len target a =
     (case old_region addr old_len (as_regions a) of
        None \<Rightarrow> (Inl EFAULT, a)
      | Some r \<Rightarrow>
          let a' = snd (munmap_call addr old_len a)
          in (Inr target, a' \<lparr> as_regions := as_regions a' @ [r \<lparr> rg_start := target, rg_len := new_len \<rparr>] \<rparr>))"

definition mremap_grow :: "nat \<Rightarrow> nat \<Rightarrow> nat \<Rightarrow> u32 \<Rightarrow> nat \<Rightarrow> address_space \<Rightarrow> nat result \<times> address_space" where
  "mremap_grow addr old_len new_len flags new_addr a =
     (case (if can_grow addr old_len new_len (as_regions a)
            then grow_loop addr old_len new_len (as_bump a) (as_regions a) else None) of
        Some (rs, bump) \<Rightarrow> (Inr addr, a \<lparr> as_regions := rs, as_bump := bump \<rparr>)
      | None \<Rightarrow>
          if flags AND MREMAP_MAYMOVE = 0 then (Inl ENOMEM, a)
          else (case mremap_target addr old_len new_len flags new_addr a of
                  (Inl err, a') \<Rightarrow> (Inl err, a')
                | (Inr target, a') \<Rightarrow> mremap_move addr old_len new_len target a'))"

definition mremap_regions :: "nat \<Rightarrow> nat \<Rightarrow> nat \<Rightarrow> u32 \<Rightarrow> nat \<Rightarrow> address_space \<Rightarrow> nat result \<times> address_space" where
  "mremap_regions addr old_size new_size flags new_addr a =
     (if addr mod 4096 \<noteq> 0 then (Inl EINVAL, a)
      else case (aligned_len old_size, aligned_len new_size) of
             (Some old_len, Some new_len) \<Rightarrow>
               if old_len = 0 \<or> new_len = 0 then (Inl EINVAL, a)
               else if new_len < old_len then
                 (case munmap_call (wrapping_add addr new_len) (old_len - new_len) a of
                    (Inl err, a') \<Rightarrow> (Inl err, a') | (Inr _, a') \<Rightarrow> (Inr addr, a'))
               else if old_len < new_len then mremap_grow addr old_len new_len flags new_addr a
               else (Inr addr, a)
           | _ \<Rightarrow> (Inl EINVAL, a))"

section \<open>What an address space means\<close>

text \<open>What a program finds at an address: the mapped object, the offset in it, and the rights.\<close>

record page_view =
  pv_inode :: "nat option"
  pv_offset :: u64
  pv_shared :: bool
  pv_prot :: u32
  pv_pathname :: "string option"
  pv_stack :: bool

definition view_at :: "mapped_region \<Rightarrow> nat \<Rightarrow> page_view" where
  "view_at r x = \<lparr> pv_inode = rg_inode r, pv_offset = rg_offset r + of_nat (x - rg_start r), pv_shared = rg_shared r,
     pv_prot = rg_prot r, pv_pathname = rg_pathname r, pv_stack = rg_stack r \<rparr>"

fun view :: "mapped_region list \<Rightarrow> nat \<Rightarrow> page_view option" where
  "view [] x = None"
| "view (r # rs) x = (if in_region x r then Some (view_at r x) else view rs x)"

text \<open>Regions that are whole pages of user space, no two of which share an address.\<close>

definition region_ok :: "mapped_region \<Rightarrow> bool" where
  "region_ok r \<longleftrightarrow> rg_start r mod 4096 = 0 \<and> rg_end r mod 4096 = 0 \<and> rg_start r < rg_end r \<and> rg_end r \<le> USER_END"

definition apart :: "mapped_region \<Rightarrow> mapped_region \<Rightarrow> bool" where
  "apart r q \<longleftrightarrow> rg_end r \<le> rg_start q \<or> rg_end q \<le> rg_start r"

fun regions_ok :: "mapped_region list \<Rightarrow> bool" where
  "regions_ok [] = True"
| "regions_ok (r # rs) = (region_ok r \<and> list_all (apart r) rs \<and> regions_ok rs)"

lemma apart_sym: "apart r q = apart q r"
  by (auto simp: apart_def)

lemma regions_ok_append:
  "regions_ok (xs @ ys) \<longleftrightarrow> regions_ok xs \<and> regions_ok ys \<and> (\<forall>r \<in> set xs. \<forall>q \<in> set ys. apart r q)"
  by (induction xs) (auto simp: list_all_iff)

lemma regions_okD: "regions_ok rs \<Longrightarrow> r \<in> set rs \<Longrightarrow> region_ok r"
  by (induction rs) auto

lemma view_None_iff: "view rs x = None \<longleftrightarrow> (\<forall>r \<in> set rs. \<not> in_region x r)"
  by (induction rs) auto

lemma view_append: "view (xs @ ys) x = (case view xs x of Some v \<Rightarrow> Some v | None \<Rightarrow> view ys x)"
  by (induction xs) auto

lemma view_region: "regions_ok rs \<Longrightarrow> r \<in> set rs \<Longrightarrow> in_region x r \<Longrightarrow> view rs x = Some (view_at r x)"
  by (induction rs) (auto simp: list_all_iff apart_def in_region_def)

lemma page_down_page [simp]: "page_down x mod 4096 = 0"
  by (simp add: page_down_def)

lemma page_down_bounds: "page_down x \<le> x" "x < page_down x + 4096"
  using div_mult_mod_eq [of x 4096] mod_less_divisor [of 4096 x] by (simp_all add: page_down_def)

lemma page_down_mono: "x \<le> y \<Longrightarrow> page_down x \<le> page_down y"
  by (simp add: page_down_def div_le_mono)

lemma page_down_id: "x mod 4096 = 0 \<Longrightarrow> page_down x = x"
  by (simp add: page_down_def mult.commute minus_mod_eq_mult_div [symmetric])

section \<open>Unmapping removes exactly the range\<close>

text \<open>The pieces of a region are parts of it with the same view.\<close>

definition piece_of :: "mapped_region \<Rightarrow> mapped_region \<Rightarrow> bool" where
  "piece_of q r \<longleftrightarrow> rg_start r \<le> rg_start q \<and> rg_end q \<le> rg_end r"

lemma piece_apart: "piece_of q r \<Longrightarrow> apart r p \<Longrightarrow> apart q p"
  by (auto simp: piece_of_def apart_def)

lemma cut_left_props:
  "rg_start (cut_left s r) = rg_start r" "rg_start r \<le> s \<Longrightarrow> rg_end (cut_left s r) = s"
  "view_at (cut_left s r) x = view_at r x"
  by (simp_all add: cut_left_def view_at_def rg_end_def)

lemma cut_right_props:
  "rg_start (cut_right e r) = e" "e \<le> rg_end r \<Longrightarrow> rg_end (cut_right e r) = rg_end r"
  "rg_start r \<le> e \<Longrightarrow> e \<le> x \<Longrightarrow> view_at (cut_right e r) x = view_at r x"
  by (simp_all add: cut_right_def view_at_def rg_end_def add.assoc flip: of_nat_add)

lemmas cut_props = cut_left_props cut_right_props

lemma cut_left_ok: "region_ok r \<Longrightarrow> s mod 4096 = 0 \<Longrightarrow> rg_start r < s \<Longrightarrow> s \<le> rg_end r \<Longrightarrow> region_ok (cut_left s r)"
  by (simp add: region_ok_def cut_props)

lemma cut_right_ok: "region_ok r \<Longrightarrow> e mod 4096 = 0 \<Longrightarrow> rg_start r \<le> e \<Longrightarrow> e < rg_end r \<Longrightarrow> region_ok (cut_right e r)"
  by (simp add: region_ok_def cut_props)

lemma piece_cut:
  "rg_start r \<le> s \<Longrightarrow> s \<le> rg_end r \<Longrightarrow> piece_of (cut_left s r) r"
  "rg_start r \<le> e \<Longrightarrow> e \<le> rg_end r \<Longrightarrow> piece_of (cut_right e r) r"
  "piece_of r r"
  by (simp_all add: piece_of_def cut_props)

text \<open>The five cases of the loop body.\<close>

lemma unmap_loop_cases:
  assumes "s < e"
  obtains (out) "rg_end r \<le> s \<or> e \<le> rg_start r" "unmap_loop s e (r # rs) = r # unmap_loop s e rs"
  | (inside) "s \<le> rg_start r" "rg_end r \<le> e" "unmap_loop s e (r # rs) = unmap_loop s e rs"
  | (split) "rg_start r < s" "e < rg_end r" "unmap_loop s e (r # rs) = cut_left s r # cut_right e r # rs"
  | (left) "rg_start r < s" "s < rg_end r" "rg_end r \<le> e" "unmap_loop s e (r # rs) = cut_left s r # unmap_loop s e rs"
  | (right) "s \<le> rg_start r" "rg_start r < e" "e < rg_end r" "unmap_loop s e (r # rs) = cut_right e r # unmap_loop s e rs"
  using assms by (simp only: unmap_loop.simps split: if_splits) (metis not_le less_le_not_le)+

lemma unmap_pieces: "q \<in> set (unmap_loop s e rs) \<Longrightarrow> s < e \<Longrightarrow> \<exists>r \<in> set rs. piece_of q r"
proof (induction rs)
  case (Cons r rs)
  from Cons.prems(2) show ?case
    by (cases rule: unmap_loop_cases [where r = r and rs = rs])
      (use Cons in \<open>auto intro: piece_cut\<close>)
qed simp

lemma unmap_view:
  assumes "regions_ok rs" "s < e"
  shows "view (unmap_loop s e rs) x = (if s \<le> x \<and> x < e then None else view rs x)"
  using assms
proof (induction rs)
  case (Cons r rs)
  have a: "view rs x = None" if "in_region x r"
    using Cons.prems(1) that by (auto simp: view_None_iff list_all_iff apart_def in_region_def)
  from Cons.prems(2) show ?case
    by (cases rule: unmap_loop_cases [where r = r and rs = rs])
      (use Cons a in \<open>auto simp: cut_props in_region_def\<close>)
qed simp

lemma unmap_regions_ok:
  assumes "regions_ok rs" "s < e" "s mod 4096 = 0" "e mod 4096 = 0"
  shows "regions_ok (unmap_loop s e rs)"
  using assms(1)
proof (induction rs)
  case (Cons r rs)
  have r: "region_ok r" "list_all (apart r) rs" "regions_ok rs" using Cons.prems by simp_all
  have rest: "list_all (apart q) (unmap_loop s e rs)" if "piece_of q r" for q
    using unmap_pieces [OF _ assms(2)] r(2) that piece_apart apart_sym unfolding list_all_iff by metis
  have all: "list_all (apart q) rs" if "piece_of q r" for q
    using r(2) that piece_apart by (auto simp: list_all_iff)
  from assms(2) show ?case
  proof (cases rule: unmap_loop_cases [where r = r and rs = rs])
    case split
    have "apart (cut_left s r) (cut_right e r)" using split assms(2) by (simp add: apart_def cut_props)
    then show ?thesis
      using split r assms all cut_left_ok [OF r(1) assms(3)] cut_right_ok [OF r(1) assms(4)] piece_cut by simp
  qed (use r Cons.IH assms rest cut_left_ok [OF r(1) assms(3)] cut_right_ok [OF r(1) assms(4)] piece_cut in simp_all)
qed simp

section \<open>Changing protection changes only the rights\<close>

lemma protect_piece: "q \<in> set (protect_region s e prot r) \<Longrightarrow> s < e \<Longrightarrow> piece_of q r"
  by (auto simp: protect_region_def piece_of_def cut_left_def cut_right_def rg_end_def Let_def split: if_splits)

text \<open>The pieces of a region that the range meets.\<close>

lemma protect_pieces:
  assumes "\<not> (rg_end r \<le> s \<or> e \<le> rg_start r)" "s < e" "rg_start r < rg_end r"
  obtains mid where "protect_region s e prot r =
      (if rg_start r < s then [cut_left s r] else []) @ [mid] @ (if e < rg_end r then [cut_right e r] else [])"
    "rg_start mid = max (rg_start r) s" "rg_end mid = min (rg_end r) e"
    "\<And>x. rg_start r \<le> x \<Longrightarrow> s \<le> x \<Longrightarrow> view_at mid x = (view_at r x) \<lparr> pv_prot := prot \<rparr>"
proof -
  let ?a = "max (rg_start r) s" and ?b = "min (rg_end r) e"
  define mid where "mid = (cut_left ?b (cut_right ?a r)) \<lparr> rg_prot := prot \<rparr>"
  have "protect_region s e prot r =
      (if rg_start r < s then [cut_left s r] else []) @ [mid] @ (if e < rg_end r then [cut_right e r] else [])"
    using assms by (simp add: protect_region_def mid_def)
  moreover have "rg_start mid = ?a" "rg_end mid = ?b"
    using assms by (simp_all add: mid_def rg_end_def cut_left_def cut_right_def)
  moreover have "view_at mid x = (view_at r x) \<lparr> pv_prot := prot \<rparr>" if "rg_start r \<le> x" "s \<le> x" for x
  proof -
    have "view_at mid x = (view_at (cut_right ?a r) x) \<lparr> pv_prot := prot \<rparr>" by (simp add: view_at_def cut_left_def mid_def)
    then show ?thesis using cut_right_props(3) [of r ?a x] that by simp
  qed
  ultimately show ?thesis using that by blast
qed

lemma protect_region_ok:
  assumes r: "region_ok r" and m: "s mod 4096 = 0" "e mod 4096 = 0" "s < e"
  shows "regions_ok (protect_region s e prot r)"
proof (cases "rg_end r \<le> s \<or> e \<le> rg_start r")
  case True
  then show ?thesis using r by (simp add: protect_region_def)
next
  case False
  have lt: "rg_start r < rg_end r" using r by (simp add: region_ok_def)
  obtain mid where p: "protect_region s e prot r =
      (if rg_start r < s then [cut_left s r] else []) @ [mid] @ (if e < rg_end r then [cut_right e r] else [])"
    and me: "rg_start mid = max (rg_start r) s" "rg_end mid = min (rg_end r) e"
    by (rule protect_pieces [OF False m(3) lt]) blast
  have "region_ok mid" using r m False lt by (auto simp: region_ok_def me max_def min_def)
  moreover have "region_ok (cut_left s r)" "rg_end (cut_left s r) = s" if "rg_start r < s"
    using that False r m cut_left_ok [of r s] by (simp_all add: cut_props)
  moreover have "region_ok (cut_right e r)" if "e < rg_end r"
    using that False r m cut_right_ok [of r e] by simp
  ultimately show ?thesis
    using False m lt unfolding p by (auto simp: apart_def me cut_props)
qed

lemma protect_regions_ok:
  assumes "regions_ok rs" "s mod 4096 = 0" "e mod 4096 = 0" "s < e"
  shows "regions_ok (protect_regions s e prot rs)"
  using assms(1)
proof (induction rs)
  case (Cons r rs)
  have "apart q p" if q: "q \<in> set (protect_region s e prot r)" and p: "p \<in> set (protect_regions s e prot rs)" for q p
  proof -
    obtain r' where r': "r' \<in> set rs" "p \<in> set (protect_region s e prot r')"
      using p by (auto simp: protect_regions_def)
    have "apart r r'" using Cons.prems r'(1) by (simp add: list_all_iff)
    then show ?thesis
      using protect_piece [OF q assms(4)] protect_piece [OF r'(2) assms(4)] piece_apart apart_sym by metis
  qed
  then show ?case
    using Cons protect_region_ok [OF _ assms(2-4)] by (simp add: protect_regions_def regions_ok_append)
qed (simp add: protect_regions_def)

lemma view_protect_region:
  assumes "s < e" and lt: "rg_start r < rg_end r"
  shows "view (protect_region s e prot r) x =
    (if in_region x r then Some (if s \<le> x \<and> x < e then (view_at r x) \<lparr> pv_prot := prot \<rparr> else view_at r x) else None)"
proof (cases "rg_end r \<le> s \<or> e \<le> rg_start r")
  case True
  then show ?thesis by (auto simp: protect_region_def in_region_def)
next
  case out: False
  obtain mid where p: "protect_region s e prot r =
      (if rg_start r < s then [cut_left s r] else []) @ [mid] @ (if e < rg_end r then [cut_right e r] else [])"
    and me: "rg_start mid = max (rg_start r) s" "rg_end mid = min (rg_end r) e"
    and mv: "\<And>x. rg_start r \<le> x \<Longrightarrow> s \<le> x \<Longrightarrow> view_at mid x = (view_at r x) \<lparr> pv_prot := prot \<rparr>"
    by (rule protect_pieces [OF out assms]) blast
  have l: "in_region x (cut_left s r) \<longleftrightarrow> rg_start r \<le> x \<and> x < s" if "rg_start r < s"
    using that by (simp add: in_region_def cut_props)
  have u: "in_region x (cut_right e r) \<longleftrightarrow> e \<le> x \<and> x < rg_end r" if "e < rg_end r"
    using that by (simp add: in_region_def cut_props)
  have i: "in_region x mid \<longleftrightarrow> rg_start r \<le> x \<and> s \<le> x \<and> x < rg_end r \<and> x < e" by (auto simp: in_region_def me)
  show ?thesis
  proof (cases "in_region x r")
    case True
    then have x: "rg_start r \<le> x" "x < rg_end r" by (simp_all add: in_region_def)
    show ?thesis
      using True x assms out l u i mv [OF x(1)] cut_props(3) cut_right_props(3) [of r e x] unfolding p by (auto simp: not_less)
  next
    case False
    then show ?thesis
      using l u i assms out unfolding p by (auto simp: in_region_def [of x r])
  qed
qed

lemma protect_view:
  assumes "s < e" "regions_ok rs"
  shows "view (protect_regions s e prot rs) x =
    (if s \<le> x \<and> x < e then map_option (\<lambda>v. v \<lparr> pv_prot := prot \<rparr>) (view rs x) else view rs x)"
  using assms(2)
  by (induction rs) (simp_all add: protect_regions_def view_append view_protect_region [OF assms(1)] region_ok_def)

section \<open>The search for a free address\<close>

definition free_at :: "nat \<Rightarrow> mapped_region list \<Rightarrow> nat \<Rightarrow> nat \<Rightarrow> bool" where
  "free_at brk rs len x \<longleftrightarrow> brk \<le> x \<and> (\<forall>r \<in> set rs. rg_end r \<le> x \<or> x + len \<le> rg_start r)"

lemma end_saturates: "region_ok r \<Longrightarrow> saturating_add (rg_start r) (rg_len r) = rg_end r"
  by (simp add: region_ok_def saturating_add_def rg_end_def USER_END_def U64_MAX_def)

lemma overlaps_iff: "region_ok r \<Longrightarrow> overlaps s e r \<longleftrightarrow> s < rg_end r \<and> rg_start r < e"
  by (simp add: overlaps_def end_saturates)

lemma fold_max_end:
  assumes "\<forall>r \<in> set rs. region_ok r"
  shows "fold (\<lambda>r acc. if overlaps s e r
           then Some (max (case acc of Some x \<Rightarrow> x | None \<Rightarrow> 0) (saturating_add (rg_start r) (rg_len r))) else acc) rs acc = None \<longleftrightarrow>
      acc = None \<and> (\<forall>r \<in> set rs. \<not> overlaps s e r)"
    and "fold (\<lambda>r acc. if overlaps s e r
           then Some (max (case acc of Some x \<Rightarrow> x | None \<Rightarrow> 0) (saturating_add (rg_start r) (rg_len r))) else acc) rs acc = Some m \<Longrightarrow>
      acc = Some m \<or> (\<exists>r \<in> set rs. overlaps s e r \<and> m = rg_end r)"
proof -
  show "fold (\<lambda>r acc. if overlaps s e r
      then Some (max (case acc of Some x \<Rightarrow> x | None \<Rightarrow> 0) (saturating_add (rg_start r) (rg_len r))) else acc) rs acc = None \<longleftrightarrow>
      acc = None \<and> (\<forall>r \<in> set rs. \<not> overlaps s e r)"
    by (induction rs arbitrary: acc) auto
  show "acc = Some m \<or> (\<exists>r \<in> set rs. overlaps s e r \<and> m = rg_end r)"
    if "fold (\<lambda>r acc. if overlaps s e r
      then Some (max (case acc of Some x \<Rightarrow> x | None \<Rightarrow> 0) (saturating_add (rg_start r) (rg_len r))) else acc) rs acc = Some m"
    using that assms
  proof (induction rs arbitrary: acc)
    case (Cons r rs)
    show ?case
    proof (cases "overlaps s e r")
      case True
      from Cons.IH [OF Cons.prems(1) [unfolded fold_simps comp_apply if_P [OF True]]] Cons.prems(2)
      show ?thesis using True end_saturates [of r] by (auto simp: max_def split: option.splits if_splits)
    next
      case False
      then show ?thesis using Cons by auto
    qed
  qed simp
qed

lemma overlapping_end_None:
  assumes "regions_ok rs"
  shows "overlapping_end brk rs s (s + len) = None \<longleftrightarrow> free_at brk rs len s"
  using fold_max_end(1) [of rs s "s + len" None] regions_okD [OF assms] overlaps_iff
  by (auto simp: overlapping_end_def free_at_def not_less not_le)

lemma overlapping_end_Some:
  assumes "regions_ok rs" "overlapping_end brk rs s (s + len) = Some m"
  shows "s < m" and "m = brk \<or> m \<le> USER_END" and "s \<le> x \<Longrightarrow> x < m \<Longrightarrow> \<not> free_at brk rs len x"
proof -
  have "s < m \<and> (m = brk \<or> m \<le> USER_END) \<and> (s \<le> x \<longrightarrow> x < m \<longrightarrow> \<not> free_at brk rs len x)" for x
  proof (cases "s < brk")
    case True
    then show ?thesis using assms(2) by (auto simp: overlapping_end_def free_at_def)
  next
    case False
    then obtain r where r: "r \<in> set rs" "overlaps s (s + len) r" "m = rg_end r"
      using fold_max_end(2) [of rs s "s + len" None m] regions_okD [OF assms(1)] assms(2)
      by (auto simp: overlapping_end_def)
    have o: "s < rg_end r" "rg_start r < s + len" "region_ok r"
      using r overlaps_iff regions_okD [OF assms(1)] by auto
    have "\<not> free_at brk rs len x" if "s \<le> x" "x < m"
      unfolding free_at_def using r(1,3) o(2) that by (intro notI) (auto dest!: bspec [OF _ r(1)])
    then show ?thesis using o r(3) by (simp add: region_ok_def)
  qed
  then show "s < m" "m = brk \<or> m \<le> USER_END" "s \<le> x \<Longrightarrow> x < m \<Longrightarrow> \<not> free_at brk rs len x" by blast+
qed

lemma page_down_top: "y mod 4096 = 0 \<Longrightarrow> y < page_down (m + 4095) \<Longrightarrow> y < m"
proof -
  assume y: "y mod 4096 = 0" "y < page_down (m + 4095)"
  have "y div 4096 * 4096 = y" using y(1) div_mult_mod_eq [of y 4096] by simp
  moreover have "y div 4096 < (m + 4095) div 4096" using y calculation unfolding page_down_def by (metis mult_less_cancel2)
  ultimately have "y + 4096 \<le> page_down (m + 4095)" unfolding page_down_def by linarith
  then show "y < m" using page_down_bounds(1) [of "m + 4095"] by linarith
qed

lemma page_down_ge: "m \<le> page_down (m + 4095)"
  using page_down_bounds(2) [of "m + 4095"] by linarith

text \<open>What the search finds: the first free page-aligned address, or that there is none.\<close>

definition first_fit :: "nat \<Rightarrow> nat \<Rightarrow> mapped_region list \<Rightarrow> nat \<Rightarrow> nat result \<Rightarrow> bool" where
  "first_fit brk len rs c res \<longleftrightarrow>
     (case res of
        Inr x \<Rightarrow> c \<le> x \<and> x mod 4096 = 0 \<and> x + len \<le> MMAP_END \<and> free_at brk rs len x \<and>
          (\<forall>y. c \<le> y \<and> y < x \<and> y mod 4096 = 0 \<longrightarrow> \<not> free_at brk rs len y)
      | Inl err \<Rightarrow> err = ENOMEM \<and>
          (\<forall>y. c \<le> y \<and> y mod 4096 = 0 \<and> y + len \<le> MMAP_END \<longrightarrow> \<not> free_at brk rs len y))"

lemma mmap_search_first_fit:
  assumes "regions_ok rs" "brk \<le> USER_END" "c mod 4096 = 0"
  shows "\<exists>res. mmap_search brk len rs c = Some res \<and> first_fit brk len rs c res"
  using assms(3)
proof (induction "MMAP_END + 1 - c" arbitrary: c rule: less_induct)
  case less
  have big: "MMAP_END < U64_MAX" by (simp add: MMAP_END_def U64_MAX_def)
  show ?case
  proof (cases "MMAP_END < c + len")
    case True
    have "mmap_search brk len rs c = Some (Inl ENOMEM)"
      using True by (subst mmap_search.simps) (simp add: checked_add_def)
    moreover have "first_fit brk len rs c (Inl ENOMEM)" using True by (auto simp: first_fit_def)
    ultimately show ?thesis by blast
  next
    case False
    then have in_range: "checked_add c len = Some (c + len)" using big by (simp add: checked_add_def)
    show ?thesis
    proof (cases "overlapping_end brk rs c (c + len)")
      case None
      have "mmap_search brk len rs c = Some (Inr c)"
        using False None by (subst mmap_search.simps) (simp add: in_range)
      moreover have "first_fit brk len rs c (Inr c)"
        using False None overlapping_end_None [OF assms(1)] less.prems by (auto simp: first_fit_def)
      ultimately show ?thesis by blast
    next
      case (Some m)
      note o = overlapping_end_Some [OF assms(1) Some]
      let ?d = "page_down (m + 4095)"
      have m: "m \<le> USER_END" using o(2) assms(2) by auto
      then have w: "wrapping_add m 4095 = m + 4095" by (simp add: wrapping_add_def USER_END_def)
      have d: "c < ?d" using o(1) page_down_ge [of m] by simp
      have smaller: "MMAP_END + 1 - ?d < MMAP_END + 1 - c" using d False by simp
      obtain res where res: "mmap_search brk len rs ?d = Some res" "first_fit brk len rs ?d res"
        using less.hyps [OF smaller] by auto
      have "mmap_search brk len rs c = Some res"
        using False Some res(1) by (subst mmap_search.simps) (simp add: in_range w)
      moreover have skip: "\<not> free_at brk rs len y" if "c \<le> y" "y mod 4096 = 0" "y < ?d" for y
        using o(3) [OF that(1)] page_down_top [OF that(2,3)] by blast
      have "first_fit brk len rs c res"
      proof (cases res)
        case (Inl err)
        then show ?thesis using res(2) skip unfolding first_fit_def by (simp, meson leI)
      next
        case (Inr x)
        then show ?thesis using res(2) skip d unfolding first_fit_def by (simp, meson leI order.strict_implies_order order_trans)
      qed
      ultimately show ?thesis by blast
    qed
  qed
qed

section \<open>The calls\<close>

text \<open>A well-formed address space.\<close>

definition as_ok :: "address_space \<Rightarrow> bool" where
  "as_ok a \<longleftrightarrow> regions_ok (as_regions a) \<and> as_brk a \<le> USER_END \<and> as_bump a mod 4096 = 0"

lemma aligned_len_Some:
  assumes "aligned_len len = Some n"
  shows "n mod 4096 = 0" "len \<le> n" "n < len + 4096"
proof -
  have "n = page_down (len + 4095)" using assms by (auto simp: aligned_len_def checked_add_def split: if_splits)
  then show "n mod 4096 = 0" "len \<le> n" "n < len + 4096"
    using page_down_ge [of len] page_down_bounds(1) [of "len + 4095"] by simp_all
qed

lemma mod_page_add: "(a :: nat) mod 4096 = 0 \<Longrightarrow> b mod 4096 = 0 \<Longrightarrow> (a + b) mod 4096 = 0"
  by (metis mod_add_eq add_0 mod_0)

lemma page_range_Inr:
  assumes "page_range addr len = Inr (s, e)"
  shows "s = addr" "s < e" "s mod 4096 = 0" "e mod 4096 = 0" "e \<le> USER_END" "aligned_len len = Some (e - s)"
proof -
  have "s = addr \<and> s < e \<and> s mod 4096 = 0 \<and> e mod 4096 = 0 \<and> e \<le> USER_END \<and> aligned_len len = Some (e - s)"
  proof (cases "aligned_len len")
    case (Some n)
    note n = aligned_len_Some [OF Some]
    have "0 < n" using assms n(2) by (auto simp: page_range_def split: if_splits)
    then show ?thesis
      using assms n(1) Some mod_page_add [of addr n]
      by (auto simp: page_range_def checked_add_def split: if_splits option.splits)
  qed (use assms in \<open>auto simp: page_range_def split: if_splits\<close>)
  then show "s = addr" "s < e" "s mod 4096 = 0" "e mod 4096 = 0" "e \<le> USER_END" "aligned_len len = Some (e - s)" by blast+
qed

lemma highest_page:
  assumes "regions_ok rs"
  shows "highest_remaining rs mod 4096 = 0"
proof -
  let ?E = "set (map rg_end (filter (\<lambda>r. 0x500000000000 \<le> rg_start r \<and> rg_start r < 0x700000000000) rs))"
  have all: "\<forall>x \<in> ?E. x mod 4096 = 0" using regions_okD [OF assms] by (auto simp: region_ok_def)
  have "Max ?E \<in> ?E" if "?E \<noteq> {}" using that by (intro Max_in) auto
  then show ?thesis using all unfolding highest_remaining_def Let_def by (auto simp del: set_map)
qed

lemma munmap_regions_ok:
  assumes "as_ok a" "s < e" "s mod 4096 = 0" "e mod 4096 = 0"
  shows "as_ok (munmap_regions s e a)" "as_regions (munmap_regions s e a) = unmap_loop s e (as_regions a)"
proof -
  have ok: "regions_ok (unmap_loop s e (as_regions a))"
    using assms by (intro unmap_regions_ok) (simp_all add: as_ok_def)
  then show "as_ok (munmap_regions s e a)" "as_regions (munmap_regions s e a) = unmap_loop s e (as_regions a)"
    using assms highest_page [OF ok]
    by (simp_all add: munmap_regions_def munmap_bump_def unmap_range_def as_ok_def max_def)
qed

text \<open>The address space of a new task, and one with four anonymous pages.\<close>

definition as_new :: "u64 \<Rightarrow> address_space" where
  "as_new root = \<lparr> as_root = root, as_start_brk = 0, as_brk = 0, as_bump = 0x500000000000, as_regions = [] \<rparr>"

definition sample_as :: address_space where
  "sample_as = (as_new 0) \<lparr> as_regions := [new_region 0x10000 0x4000 3 0 None 0] \<rparr>"

lemma as_ok_new: "as_ok (as_new root)"
  by (simp add: as_new_def as_ok_def)

lemma sample_as_ok: "as_ok sample_as"
  by (simp add: sample_as_def as_new_def as_ok_def region_ok_def new_region_def rg_end_def USER_END_def)

lemma page_range_sample: "page_range 0x11000 0x1000 = Inr (0x11000, 0x12000)" "aligned_len 0x1000 = Some 0x1000"
  by (simp_all add: page_range_def aligned_len_def checked_add_def page_down_def U64_MAX_def USER_END_def)

text \<open>
  C6. \<open>munmap\<close> is exact. On a well-formed address space a successful call removes every address of its
  page range and nothing else: every other address keeps its object, its offset in it and its rights,
  however the regions were cut. The address space stays well-formed.
\<close>

theorem munmap_exact:
  assumes "as_ok a" "munmap_call addr len a = (Inr (), a')"
  shows "as_ok a' \<and> (\<exists>n. aligned_len len = Some n \<and>
    (\<forall>x. view (as_regions a') x = (if addr \<le> x \<and> x < addr + n then None else view (as_regions a) x)))"
proof -
  obtain s e where r: "page_range addr len = Inr (s, e)" and a': "a' = munmap_regions s e a"
    using assms(2) by (auto simp: munmap_call_def split: sum.splits)
  note p = page_range_Inr [OF r]
  show ?thesis
    using munmap_regions_ok [OF assms(1) p(2-4)] unmap_view [OF _ p(2), of "as_regions a"] assms(1) p a'
    by (simp add: as_ok_def)
qed

theorem munmap_exact_witness:
  "\<exists>a'. munmap_call 0x11000 0x1000 sample_as = (Inr (), a') \<and> view (as_regions a') 0x11FFF = None \<and>
    view (as_regions a') 0x12000 \<noteq> None"
proof -
  define a' where "a' = snd (munmap_call 0x11000 0x1000 sample_as)"
  have c: "munmap_call 0x11000 0x1000 sample_as = (Inr (), a')"
    by (simp add: a'_def munmap_call_def page_range_sample)
  have "view (as_regions sample_as) 0x12000 \<noteq> None"
    by (simp add: sample_as_def as_new_def in_region_def new_region_def rg_end_def)
  then show ?thesis using munmap_exact [OF sample_as_ok c] c page_range_sample(2) by auto
qed

lemma covered_view:
  assumes "regions_ok rs" "s mod 4096 = 0" "range_covered s e rs" "s \<le> x" "x < e"
  shows "view rs x \<noteq> None"
proof -
  define i j k where "i = s div 4096" "j = x div 4096" "k = (e - 1) div 4096"
  have "i \<le> j" "j \<le> k" using assms(4,5) by (auto simp: i_j_k_def intro: div_le_mono)
  then have "j - i \<in> {0..<Suc k - i}" "(i + (j - i)) * 4096 = j * 4096" by simp_all
  then have "j * 4096 \<in> (\<lambda>n. (i + n) * 4096) ` {0..<Suc k - i}" by (metis image_eqI)
  then have "page_down x \<in> set (pages_of s e)"
    by (simp only: pages_of_def page_down_def set_map set_upt i_j_k_def)
  then obtain r where r: "r \<in> set rs" "rg_start r \<le> page_down x" "page_down x < rg_end r"
    using assms(3) by (auto simp: range_covered_def list_all_iff list_ex_iff in_region_def)
  have e: "rg_end r mod 4096 = 0" using regions_okD [OF assms(1) r(1)] by (simp add: region_ok_def)
  have "x < rg_end r"
  proof (rule ccontr)
    assume "\<not> x < rg_end r"
    then have "page_down (rg_end r) \<le> page_down x" by (intro page_down_mono) simp
    then show False using r(3) page_down_id [OF e] by simp
  qed
  then have "in_region x r" using r(2) page_down_bounds(1) [of x] by (simp add: in_region_def)
  then show ?thesis using view_None_iff r(1) by blast
qed

text \<open>
  C24. \<open>mprotect\<close> is exact. A successful call gives every address of its page range the new rights and
  changes nothing else, neither the objects and offsets in the range nor any address outside it. It
  succeeds only when the whole range is mapped.
\<close>

theorem mprotect_exact:
  assumes "as_ok a" "mprotect_regions addr len prot a = (Inr (), a')"
  shows "as_ok a' \<and> (\<exists>n. aligned_len len = Some n \<and>
    (\<forall>x. view (as_regions a') x = (if addr \<le> x \<and> x < addr + n
       then map_option (\<lambda>v. v \<lparr> pv_prot := prot \<rparr>) (view (as_regions a) x) else view (as_regions a) x)) \<and>
    (\<forall>x. addr \<le> x \<and> x < addr + n \<longrightarrow> view (as_regions a) x \<noteq> None))"
proof -
  obtain s e where r: "page_range addr len = Inr (s, e)" and c: "range_covered s e (as_regions a)"
    and a': "a' = a \<lparr> as_regions := protect_regions s e prot (as_regions a) \<rparr>"
    using assms(2) by (auto simp: mprotect_regions_def split: sum.splits if_splits)
  note p = page_range_Inr [OF r]
  have ok: "regions_ok (as_regions a)" using assms(1) by (simp add: as_ok_def)
  have "as_ok a'" using protect_regions_ok [OF ok p(3,4,2)] assms(1) by (simp add: a' as_ok_def)
  moreover have "addr + (e - s) = e" using p by simp
  ultimately show ?thesis
    using p(1,6) protect_view [OF p(2) ok] covered_view [OF ok p(3) c] by (simp add: a')
qed

theorem mprotect_exact_witness:
  "\<exists>a'. mprotect_regions 0x11000 0x1000 1 sample_as = (Inr (), a') \<and>
    map_option pv_prot (view (as_regions a') 0x11000) = Some 1 \<and> map_option pv_prot (view (as_regions a') 0x12000) = Some 3"
proof -
  define a' where "a' = snd (mprotect_regions 0x11000 0x1000 1 sample_as)"
  have c: "mprotect_regions 0x11000 0x1000 1 sample_as = (Inr (), a')"
    by (simp add: a'_def mprotect_regions_def page_range_sample range_covered_def pages_of_def sample_as_def as_new_def
        in_region_def new_region_def rg_end_def)
  have "map_option pv_prot (view (as_regions sample_as) x) = Some 3" if "0x10000 \<le> x" "x < 0x14000" for x
    using that by (simp add: sample_as_def as_new_def in_region_def new_region_def rg_end_def view_at_def)
  then have v: "map_option pv_prot (view (as_regions sample_as) 0x11000) = Some 3"
    "map_option pv_prot (view (as_regions sample_as) 0x12000) = Some 3" by simp_all
  show ?thesis using mprotect_exact [OF sample_as_ok c] c page_range_sample(2) v by (auto simp: option.map_comp comp_def)
qed

section \<open>New mappings\<close>

lemma regions_ok_snoc: "regions_ok (rs @ [r]) \<longleftrightarrow> regions_ok rs \<and> region_ok r \<and> (\<forall>q \<in> set rs. apart q r)"
  by (simp add: regions_ok_append)

lemma new_region_simps [simp]:
  "rg_start (new_region s n prot flags file offset) = s" "rg_end (new_region s n prot flags file offset) = s + n"
  by (simp_all add: new_region_def rg_end_def)

lemma fixed_range_Inr: "fixed_range addr n = Inr e \<Longrightarrow> addr mod 4096 = 0 \<and> e = addr + n \<and> e \<le> USER_END"
  by (auto simp: fixed_range_def checked_add_def split: if_splits)

lemma free_apart: "free_at brk rs n c \<Longrightarrow> q \<in> set rs \<Longrightarrow> rg_end q \<le> c \<or> c + n \<le> rg_start q"
  by (simp add: free_at_def)

lemma not_overlaps_apart:
  "regions_ok rs \<Longrightarrow> \<not> list_ex (overlaps c (c + n)) rs \<Longrightarrow> q \<in> set rs \<Longrightarrow> rg_end q \<le> c \<or> c + n \<le> rg_start q"
  using overlaps_iff [OF regions_okD] by (auto simp: list_ex_iff not_less)

lemma unmap_apart:
  assumes "regions_ok rs" "s < e" "q \<in> set (unmap_loop s e rs)"
  shows "rg_end q \<le> s \<or> e \<le> rg_start q"
  using assms(1,3)
proof (induction rs)
  case (Cons r rs)
  have other: "rg_end q \<le> s \<or> e \<le> rg_start q" if "q \<in> set rs" "rg_start r \<le> s" "e \<le> rg_end r"
    using Cons.prems(1) that assms(2) regions_okD [of rs q] by (auto simp: list_all_iff apart_def region_ok_def)
  from assms(2) show ?case
    by (cases rule: unmap_loop_cases [where r = r and rs = rs])
      (use Cons other in \<open>auto simp: cut_props\<close>)
qed simp

text \<open>Whatever way the address was chosen: the room is there, and it was free unless the call may replace.\<close>

definition room_made :: "nat \<Rightarrow> nat \<Rightarrow> address_space \<Rightarrow> address_space \<Rightarrow> bool" where
  "room_made c n a a' \<longleftrightarrow>
     as_ok a' \<and> c mod 4096 = 0 \<and> c + n \<le> USER_END \<and>
     (\<forall>q \<in> set (as_regions a'). rg_end q \<le> c \<or> c + n \<le> rg_start q) \<and>
     (\<forall>x. view (as_regions a') x = (if c \<le> x \<and> x < c + n then None else view (as_regions a) x))"

lemma free_view:
  "\<forall>q \<in> set rs. rg_end q \<le> c \<or> c + n \<le> rg_start q \<Longrightarrow> c \<le> x \<Longrightarrow> x < c + n \<Longrightarrow> view rs x = None"
  by (fastforce simp: view_None_iff in_region_def)

lemma room_free:
  assumes "as_ok a" "c mod 4096 = 0" "c + n \<le> USER_END" "\<forall>q \<in> set (as_regions a). rg_end q \<le> c \<or> c + n \<le> rg_start q"
    and "as_regions a' = as_regions a" "as_brk a' = as_brk a" "as_bump a' mod 4096 = 0"
  shows "room_made c n a a'"
  using assms free_view [OF assms(4)] by (auto simp: room_made_def as_ok_def)

lemma mmap_resolve_room:
  assumes a: "as_ok a" and n: "n mod 4096 = 0" "0 < n"
  shows "\<exists>r a'. mmap_resolve addr n flags a = Some (r, a') \<and>
    (case r of
       Inl err \<Rightarrow> a' = a
     | Inr c \<Rightarrow> room_made c n a a' \<and>
         (flags AND MAP_FIXED = 0 \<or> flags AND MAP_FIXED_NOREPLACE \<noteq> 0 \<longrightarrow> as_regions a' = as_regions a))"
proof -
  have rs: "regions_ok (as_regions a)" and bump: "as_bump a mod 4096 = 0" and brk: "as_brk a \<le> USER_END"
    using a by (simp_all add: as_ok_def)
  have rb: "as_regions (raise_bump e a) = as_regions a" "as_brk (raise_bump e a) = as_brk a"
    "e mod 4096 = 0 \<Longrightarrow> as_bump (raise_bump e a) mod 4096 = 0" for e
    using bump by (simp_all add: raise_bump_def)
  consider (noreplace) "flags AND MAP_FIXED_NOREPLACE \<noteq> 0"
    | (fixed) "flags AND MAP_FIXED_NOREPLACE = 0" "flags AND MAP_FIXED \<noteq> 0"
    | (hint) "flags AND MAP_FIXED_NOREPLACE = 0" "flags AND MAP_FIXED = 0" "mmap_hint_ok addr n a"
    | (search) "flags AND MAP_FIXED_NOREPLACE = 0" "flags AND MAP_FIXED = 0" "\<not> mmap_hint_ok addr n a"
    by blast
  then show ?thesis
  proof cases
    case noreplace
    show ?thesis
    proof (cases "fixed_range addr n")
      case (Inr e)
      note f = fixed_range_Inr [OF Inr]
      show ?thesis
      proof (cases "addr < as_brk a \<or> list_ex (overlaps addr e) (as_regions a)")
        case False
        then have "room_made addr n a (raise_bump e a)"
          using not_overlaps_apart [OF rs, of addr n] f n rb mod_page_add [of addr n] by (intro room_free [OF a]) auto
        then show ?thesis using noreplace Inr False rb by (simp add: mmap_resolve_def)
      qed (use noreplace Inr in \<open>simp add: mmap_resolve_def\<close>)
    qed (use noreplace in \<open>simp add: mmap_resolve_def\<close>)
  next
    case fixed
    show ?thesis
    proof (cases "fixed_range addr n")
      case (Inr e)
      note f = fixed_range_Inr [OF Inr]
      have e: "addr < e" "addr mod 4096 = 0" "e mod 4096 = 0" using f n mod_page_add [of addr n] by auto
      let ?a = "unmap_range addr e (raise_bump e a)"
      have u: "as_regions ?a = unmap_loop addr e (as_regions a)" "as_brk ?a = as_brk a" "as_bump ?a = as_bump (raise_bump e a)"
        using e rb by (simp_all add: unmap_range_def)
      have "room_made addr n a ?a"
        using unmap_regions_ok [OF rs e] unmap_view [OF rs e(1)] unmap_apart [OF rs e(1)] u brk rb(3) [OF e(3)] f e
        by (simp add: room_made_def as_ok_def)
      then show ?thesis using fixed Inr by (simp add: mmap_resolve_def)
    qed (use fixed in \<open>simp add: mmap_resolve_def\<close>)
  next
    case hint
    have h: "addr mod 4096 = 0" "saturating_add addr n \<le> USER_END" "\<not> list_ex (overlaps addr (saturating_add addr n)) (as_regions a)"
      using hint(3) by (simp_all add: mmap_hint_ok_def Let_def)
    have s: "saturating_add addr n = addr + n" using h(2) by (auto simp: saturating_add_def U64_MAX_def USER_END_def min_def split: if_splits)
    have "room_made addr n a a"
      using h not_overlaps_apart [OF rs, of addr n] bump by (intro room_free [OF a]) (auto simp: s)
    then show ?thesis using hint by (simp add: mmap_resolve_def)
  next
    case search
    obtain res where res: "mmap_search (as_brk a) n (as_regions a) (as_bump a) = Some res"
      and fit: "first_fit (as_brk a) n (as_regions a) (as_bump a) res"
      using mmap_search_first_fit [OF rs brk bump] by blast
    show ?thesis
    proof (cases res)
      case (Inr c)
      have c: "c mod 4096 = 0" "c + n \<le> MMAP_END" "free_at (as_brk a) (as_regions a) n c"
        using fit by (simp_all add: first_fit_def Inr)
      have "room_made c n a (a \<lparr> as_bump := c + n \<rparr>)"
        using c free_apart [OF c(3)] mod_page_add [OF c(1) n(1)] by (intro room_free [OF a]) (auto simp: MMAP_END_def USER_END_def)
      then show ?thesis using search res Inr by (simp add: mmap_resolve_def)
    qed (use search res in \<open>simp add: mmap_resolve_def\<close>)
  qed
qed

text \<open>
  C7. \<open>mmap\<close> is exact. On a well-formed address space every call returns. When it fails nothing changes;
  when it succeeds the new mapping is what a program finds in the range returned, every other address is
  as before, and unless the call asked for a fixed address with replacement no address of the range was
  mapped before. The address space stays well-formed.
\<close>

theorem mmap_exact:
  assumes "as_ok a" "0 < len"
  shows "\<exists>r a'. mmap_regions addr len prot flags file offset a = Some (r, a') \<and> as_ok a' \<and>
    (case r of
       Inl err \<Rightarrow> a' = a
     | Inr c \<Rightarrow> \<exists>n. aligned_len len = Some n \<and>
         (\<forall>x. view (as_regions a') x = (if c \<le> x \<and> x < c + n
            then Some (view_at (new_region c n prot flags file offset) x) else view (as_regions a) x)) \<and>
         (flags AND MAP_FIXED = 0 \<or> flags AND MAP_FIXED_NOREPLACE \<noteq> 0 \<longrightarrow>
            (\<forall>x. c \<le> x \<and> x < c + n \<longrightarrow> view (as_regions a) x = None)))"
proof (cases "aligned_len len")
  case None
  then show ?thesis using assms by (simp add: mmap_regions_def)
next
  case (Some n)
  note n = aligned_len_Some [OF Some]
  have n0: "0 < n" using n(2) assms(2) by simp
  obtain r a1 where m: "mmap_resolve addr n flags a = Some (r, a1)"
    and r: "case r of Inl err \<Rightarrow> a1 = a | Inr c \<Rightarrow> room_made c n a a1 \<and>
         (flags AND MAP_FIXED = 0 \<or> flags AND MAP_FIXED_NOREPLACE \<noteq> 0 \<longrightarrow> as_regions a1 = as_regions a)"
    using mmap_resolve_room [OF assms(1) n(1) n0] by blast
  show ?thesis
  proof (cases r)
    case (Inl err)
    then show ?thesis using m r assms Some by (simp add: mmap_regions_def)
  next
    case (Inr c)
    let ?q = "new_region c n prot flags file offset"
    have room: "room_made c n a a1"
      and same: "flags AND MAP_FIXED = 0 \<or> flags AND MAP_FIXED_NOREPLACE \<noteq> 0 \<longrightarrow> as_regions a1 = as_regions a"
      using r Inr by simp_all
    have "region_ok ?q" using room n0 mod_page_add [of c n] n(1) by (simp add: room_made_def region_ok_def)
    moreover have "\<forall>q \<in> set (as_regions a1). apart q ?q" using room by (simp add: room_made_def apart_def)
    ultimately have ok: "as_ok (a1 \<lparr> as_regions := as_regions a1 @ [?q] \<rparr>)"
      using room by (simp add: room_made_def as_ok_def regions_ok_snoc)
    have v: "view (as_regions a1 @ [?q]) x =
        (if c \<le> x \<and> x < c + n then Some (view_at ?q x) else view (as_regions a) x)" for x
      using room by (auto simp: room_made_def view_append in_region_def split: option.splits)
    have "\<forall>q \<in> set (as_regions a1). rg_end q \<le> c \<or> c + n \<le> rg_start q" using room by (simp add: room_made_def)
    from free_view [OF this] have "view (as_regions a) x = None" if "as_regions a1 = as_regions a" "c \<le> x" "x < c + n" for x
      using that by simp
    then have old: "flags AND MAP_FIXED = 0 \<or> flags AND MAP_FIXED_NOREPLACE \<noteq> 0 \<longrightarrow>
        (\<forall>x. c \<le> x \<and> x < c + n \<longrightarrow> view (as_regions a) x = None)" using same by blast
    let ?a = "a1 \<lparr> as_regions := as_regions a1 @ [?q] \<rparr>"
    have call: "mmap_regions addr len prot flags file offset a = Some (Inr c, ?a)"
      using m Inr assms(2) Some by (simp add: mmap_regions_def)
    show ?thesis
      by (rule exI [of _ "Inr c"], rule exI [of _ ?a]) (use call ok v old Some in simp)
  qed
qed

theorem mmap_exact_witness:
  "\<exists>r a'. mmap_regions 0x10000 5000 3 MAP_FIXED None 0 sample_as = Some (r, a') \<and> as_ok a'"
  using mmap_exact [OF sample_as_ok, of 5000 "0x10000" 3 MAP_FIXED None 0] by auto

text \<open>
  C25. Without a usable hint \<open>mmap\<close> places a mapping first-fit: at the lowest page-aligned address from the
  bump pointer on where the whole mapping is free, above the break and below the stack area, although
  its loop jumps over every group of regions it meets; and it reports \<open>ENOMEM\<close> only when there is no
  such address. The loop always ends.
\<close>

theorem mmap_first_fit:
  assumes "as_ok a" "0 < len" "aligned_len len = Some n"
    and "flags AND MAP_FIXED = 0" "flags AND MAP_FIXED_NOREPLACE = 0" "\<not> mmap_hint_ok addr n a"
  shows "\<exists>r a'. mmap_regions addr len prot flags file offset a = Some (r, a') \<and>
    first_fit (as_brk a) n (as_regions a) (as_bump a) r"
proof -
  obtain res where res: "mmap_search (as_brk a) n (as_regions a) (as_bump a) = Some res"
    and fit: "first_fit (as_brk a) n (as_regions a) (as_bump a) res"
    using mmap_search_first_fit [of "as_regions a" "as_brk a" "as_bump a" n] assms(1) by (auto simp: as_ok_def)
  show ?thesis
    using assms res fit by (cases res) (simp_all add: mmap_regions_def mmap_resolve_def)
qed

theorem mmap_first_fit_witness:
  "\<exists>r a'. mmap_regions 0 0x1000 3 0 None 0 sample_as = Some (r, a') \<and>
    first_fit (as_brk sample_as) 0x1000 (as_regions sample_as) (as_bump sample_as) r"
  using mmap_first_fit [OF sample_as_ok _ page_range_sample(2), of 0 0 3 None 0] by (simp add: mmap_hint_ok_def)

section \<open>Where the calls fall short\<close>

lemma search_fresh:
  "mmap_search 0 n [] c = Some (if c + n \<le> MMAP_END then Inr c else Inl ENOMEM)"
  by (subst mmap_search.simps) (simp add: checked_add_def overlapping_end_def MMAP_END_def U64_MAX_def)

text \<open>
  C38. \<open>mremap\<close> moves a mapping to the bump pointer without looking whether something is there. A program
  maps one page at a hint just above the bump pointer, one page anywhere, and grows the second to two
  pages: every call succeeds, and the address the third call returns belongs to the first page, so that
  two regions of the address space now overlap.
\<close>

theorem mremap_overlaps:
  "\<exists>a1 a2 a3. mmap_regions 0x500000001000 4096 3 0 None 0 (as_new 0) = Some (Inr 0x500000001000, a1) \<and>
    mmap_regions 0 4096 3 0 None 0 a1 = Some (Inr 0x500000000000, a2) \<and>
    mremap_regions 0x500000000000 4096 8192 MREMAP_MAYMOVE 0 a2 = (Inr 0x500000001000, a3) \<and>
    \<not> regions_ok (as_regions a3)"
proof -
  let ?p = "new_region 0x500000001000 4096 3 0 None 0" and ?q = "new_region 0x500000000000 4096 3 0 None 0"
  let ?a1 = "(as_new 0) \<lparr> as_regions := [?p] \<rparr>"
  let ?a2 = "(as_new 0) \<lparr> as_bump := 0x500000001000, as_regions := [?p, ?q] \<rparr>"
  let ?a3 = "(as_new 0) \<lparr> as_bump := 0x500000003000, as_regions := [?p, ?q \<lparr> rg_start := 0x500000001000, rg_len := 8192 \<rparr>] \<rparr>"
  have n: "aligned_len 4096 = Some 4096" "aligned_len 8192 = Some 8192"
    by (simp_all add: aligned_len_def checked_add_def page_down_def U64_MAX_def)
  have r: "rg_start (new_region s l prot f fl off) = s" "rg_len (new_region s l prot f fl off) = l" for s l prot f fl off
    by (simp_all add: new_region_def)
  have "mmap_regions 0x500000001000 4096 3 0 None 0 (as_new 0) = Some (Inr 0x500000001000, ?a1)"
    by (simp add: mmap_regions_def n mmap_resolve_def mmap_hint_ok_def as_new_def saturating_add_def U64_MAX_def USER_END_def)
  moreover have "mmap_search 0 4096 [?p] 0x500000000000 = Some (Inr 0x500000000000)"
    by (subst mmap_search.simps)
      (simp add: checked_add_def overlapping_end_def overlaps_def r saturating_add_def MMAP_END_def U64_MAX_def)
  then have "mmap_regions 0 4096 3 0 None 0 ?a1 = Some (Inr 0x500000000000, ?a2)"
    by (simp add: mmap_regions_def n mmap_resolve_def mmap_hint_ok_def as_new_def)
  moreover have "mremap_regions 0x500000000000 4096 8192 MREMAP_MAYMOVE 0 ?a2 = (Inr 0x500000001000, ?a3)"
    by (simp add: mremap_regions_def n mremap_grow_def can_grow_def covers_def wrapping_add_def rg_end_def r as_new_def
        MREMAP_MAYMOVE_def MREMAP_FIXED_def mremap_target_def mremap_move_def old_region_def munmap_call_def page_range_def checked_add_def U64_MAX_def
        USER_END_def munmap_regions_def munmap_bump_def unmap_range_def new_region_def)
  moreover have "\<not> regions_ok (as_regions ?a3)" by (simp add: apart_def rg_end_def r)
  ultimately show ?thesis by blast
qed

text \<open>One fixed mapping at the top of the area exhausts the bump pointer: the next call finds no memory.\<close>

lemma fixed_mapping_strands_bump:
  "\<exists>a1. mmap_regions 0x7FFEFFFFF000 4096 3 MAP_FIXED None 0 (as_new 0) = Some (Inr 0x7FFEFFFFF000, a1) \<and>
    mmap_regions 0 4096 3 0 None 0 a1 = Some (Inl ENOMEM, a1)"
proof -
  let ?a1 = "(as_new 0) \<lparr> as_bump := 0x7FFF00000000, as_regions := [new_region 0x7FFEFFFFF000 4096 3 MAP_FIXED None 0] \<rparr>"
  have n: "aligned_len 4096 = Some 4096"
    by (simp add: aligned_len_def checked_add_def page_down_def U64_MAX_def)
  have "mmap_regions 0x7FFEFFFFF000 4096 3 MAP_FIXED None 0 (as_new 0) = Some (Inr 0x7FFEFFFFF000, ?a1)"
    by (simp add: mmap_regions_def n mmap_resolve_def MAP_FIXED_def MAP_FIXED_NOREPLACE_def fixed_range_def checked_add_def
        U64_MAX_def USER_END_def raise_bump_def unmap_range_def as_new_def)
  moreover have "mmap_search 0 4096 rs 0x7FFF00000000 = Some (Inl ENOMEM)" for rs
    by (subst mmap_search.simps) (simp add: checked_add_def MMAP_END_def U64_MAX_def)
  then have "mmap_regions 0 4096 3 0 None 0 ?a1 = Some (Inl ENOMEM, ?a1)"
    by (simp add: mmap_regions_def n mmap_resolve_def mmap_hint_ok_def as_new_def)
  ultimately show ?thesis by blast
qed

end
