(* ===== verification/Spec2Isabelle.thy ===== *)
theory Spec2Isabelle
  imports Ring_Spsc Fs_Context Frame_Cache Fd_Table Rw_Lock Wait_Queue Pipe Block_Cache Net_Socket Vm_Regions
begin

text \<open>
  \<^bold>\<open>A verification development for the KontsnorOS kernel.\<close>

  KontsnorOS is a Unix-like kernel in Rust for x86-64 (\<open>src/kernel/src\<close>). This library is a shallow
  embedding of its parts that are algorithms, data structures and protocols: pure functions are HOL
  functions on the source's types, methods on \<open>&mut self\<close> take and return the state as a record, failing
  calls return a sum type or an option, machine integers that may wrap are words of their width, and code
  that runs concurrently is a step relation in which one step is one atomic access or one critical section.

  \<^bold>\<open>Parts and theories.\<close>

  \<^item> \<open>Kernel_Prelude\<close>: integer types, slice copies, cyclic reads, and the locale \<open>invariant_system\<close> with
    reachable states, through which every theory below states its invariants. \<open>Errno\<close>: the error numbers
    of \<open>syscall/mod.rs\<close> and their codes.
  \<^item> Memory. \<open>Frame_Bitmap\<close> and \<open>Frame_Cache\<close>: the physical frame allocator (\<open>memory/physical.rs\<close>), the
    bitmap with its word-at-a-time search, then the per-core caches and reference counts, with the frames'
    holders as ghost state. \<open>Vm_Regions\<close>: the list of mapped regions under \<open>mmap\<close>, \<open>munmap\<close>, \<open>mprotect\<close>
    and \<open>mremap\<close> (\<open>process/task.rs\<close>, \<open>syscall/memory.rs\<close>), with its meaning as a view from addresses to
    object, offset and protection.
  \<^item> Synchronisation. \<open>Locks\<close> and \<open>Rw_Lock\<close>: the spin mutex, the ticket lock and the reader-writer lock
    (\<open>sync/mutex.rs\<close>, \<open>sync/spinlock.rs\<close>, \<open>sync/rwlock.rs\<close>) as interleavings of their atomic accesses.
    \<open>Wait_Queue\<close>: wait queues with listeners and the completion of \<open>vfork\<close> (\<open>sync/wait_queue.rs\<close>).
  \<^item> Byte channels. \<open>Ring_Buffer\<close> and \<open>Ring_Spsc\<close>: the single-producer single-consumer ring
    (\<open>util/ring_buffer.rs\<close>), sequentially with its bulk copies and then access by access. \<open>Pipe\<close>: pipes and
    socket pairs (\<open>fs/pipe.rs\<close>) with any number of readers and writers. Both buffers interpret the locale
    \<open>bounded_fifo\<close>, and their stream properties are proved once inside it.
  \<^item> Files. \<open>Path\<close>: path normalisation (\<open>fs/path.rs\<close>). \<open>Inode\<close>: file types, metadata and the permission
    check (\<open>fs/inode.rs\<close>). \<open>Fs_Context\<close>: working directory, root and mount namespace of a task, and the
    calls that change them (\<open>fs/vfs.rs\<close>, \<open>fs/namespace.rs\<close>, \<open>syscall/fs/\<close>). \<open>Fd_Table\<close>: open file
    descriptions and descriptor tables (\<open>fs/file.rs\<close>, \<open>process/fd.rs\<close>).
  \<^item> Disks. \<open>Block_Device\<close>: the \<open>BlockDevice\<close> trait as a record of operations and as the locales
    \<open>block_store\<close> and \<open>block_device\<close>, interpreted by the RAM disk. \<open>Block_Cache\<close>: the write-back cache
    (\<open>drivers/block/cache.rs\<close>) over any such device; the locale \<open>cached_device\<close> shows that the cache is
    again a block store.
  \<^item> Network. \<open>Inet_Checksum\<close> and \<open>Net_Wire\<close>: checksums and the formats of Ethernet, ARP, IPv4, ICMP, UDP
    and TCP. \<open>Net_Route\<close>: interfaces, ARP cache and routing table. \<open>Tcp\<close>: the receiver state machine with
    its reassembly queue. \<open>Net_Stack\<close>: the handlers of all layers put together over one store of sockets,
    with sending as a recursion through the loopback path. \<open>Net_Socket\<close>: the socket operations and system
    calls (\<open>net/socket.rs\<close>, \<open>syscall/net.rs\<close>).

  The parts meet where the code calls across them: descriptors refer to inodes, the jail of a context is
  enforced by path normalisation, the cache calls a device through its contract, sockets call the stack
  and the stack calls the receiver.

  \<^bold>\<open>What is shown.\<close>

  \<^item> Safety of shared structures over all interleavings: locks exclude, the ring and the pipe neither lose,
    duplicate nor reorder a byte, no frame is held, cached and free at once, reference counts are exact.
  \<^item> Exactness of optimised code: the bitmap search, the unrolled checksum, the byte scanner of paths, the
    route table, the jumping search of \<open>mmap\<close> and the splitting of regions agree with plain definitions.
  \<^item> Refinement: a cached disk is a disk; a TCP connection over loopback is a pair of byte queues, from the
    three-way handshake through header bytes to the reassembly queue.
  \<^item> Termination: the loopback recursion, wakeups through listener graphs, and the searches.
  \<^item> Defects, as theorems with a concrete or general run that leads to them: they state what the code
    does where that is not what it means to do.

  \<^bold>\<open>Bounds.\<close> Loops that the code bounds by its data are total functions with termination proofs. Two
  recursions have fuel. Sending a packet calls the receive path, which may send: fuel 4 is shown to be
  enough for every packet between loopback addresses. A wakeup follows listeners to other queues: any fuel
  above the rank of an acyclic listener graph is shown to be enough; in a cyclic graph the code does not
  return either. The search of \<open>mmap\<close> is a \<open>partial_function\<close> and is shown to return always. Ticket and ring
  positions are 64-bit words; the protocols are shown for runs of fewer than \<open>2 ^ 64\<close> operations, where
  they do not wrap around onto themselves. Memory is sequentially consistent: the orderings of the atomic
  accesses are not modelled.

  \<^bold>\<open>Not modelled.\<close> Hardware access (ACPI, APIC, serial and PCI devices, disk controllers, display), assembly
  stubs and context switches, because what they do is defined by the machine and not by the source; code
  that lays out user memory through raw pointers (program loading, signal frames, user-pointer
  validation); the ext file system, the name cache and the synthetic file systems, which are beyond
  the block cache and the lookup function that the models of files use; terminals, event descriptors,
  System V IPC and futexes; the scheduler beyond blocking and waking a task; page tables, the page
  cache and the page-fault handler; statistics counters and
  log output. Allocation by the kernel heap, the boot memory map, inode lookup and the state of user
  memory are arguments of the definitions that use them.
\<close>

end
